(* ===== verification/Portail_Prelude.thy ===== *)
theory Portail_Prelude
  imports Main "HOL-Library.Word" "HOL-Library.Sublist" "HOL-Library.Product_Lexorder"
begin

text \<open>
  What the components share: bytes and ASCII (the Rust standard library's \<open>u8\<close>
  and \<open>str\<close> operations that the sources use), byte searches, UTF-8 validity, and
  the generic list lemmas behind the component proofs.

  A Rust byte is a \<^typ>\<open>char\<close>, which in HOL has exactly eight bits, and both
  \<open>&[u8]\<close> and \<open>&str\<close> are lists of them: a \<open>str\<close> is its UTF-8 bytes, so
  \<^const>\<open>length\<close> counts what \<open>str::len\<close> counts. Positions and lengths
  (\<open>usize\<close>) are \<^typ>\<open>nat\<close>.
\<close>

named_theorems ascii_defs \<open>definitions of the ASCII classes, for evaluation\<close>
named_theorems scan_simps \<open>facts on runs of bytes\<close>

type_synonym bytes = "char list"
type_synonym u16 = nat
type_synonym u32 = "32 word"
type_synonym u64 = "64 word"
type_synonym u128 = "128 word"

text \<open>\<open>IpAddr\<close> and \<open>SocketAddr\<close>; the flow and scope fields of an IPv6 socket address are left out.\<close>

datatype ip_addr = V4 u32 | V6 u128

datatype socket_addr = SocketAddr (sa_ip: ip_addr) (sa_port: u16)

section \<open>ASCII\<close>

abbreviation ord8 :: "char \<Rightarrow> nat" where
  "ord8 c \<equiv> of_char c"

abbreviation CRLF :: bytes where
  "CRLF \<equiv> [CHR 0x0D, CHR 0x0A]"

definition is_ascii_uppercase :: "char \<Rightarrow> bool" where
  [ascii_defs]: "is_ascii_uppercase c \<longleftrightarrow> 65 \<le> ord8 c \<and> ord8 c \<le> 90"

definition is_ascii_lowercase :: "char \<Rightarrow> bool" where
  [ascii_defs]: "is_ascii_lowercase c \<longleftrightarrow> 97 \<le> ord8 c \<and> ord8 c \<le> 122"

definition is_ascii_alphabetic :: "char \<Rightarrow> bool" where
  [ascii_defs]: "is_ascii_alphabetic c \<longleftrightarrow> is_ascii_uppercase c \<or> is_ascii_lowercase c"

definition is_ascii_digit :: "char \<Rightarrow> bool" where
  [ascii_defs]: "is_ascii_digit c \<longleftrightarrow> 48 \<le> ord8 c \<and> ord8 c \<le> 57"

definition is_ascii_alphanumeric :: "char \<Rightarrow> bool" where
  [ascii_defs]: "is_ascii_alphanumeric c \<longleftrightarrow> is_ascii_alphabetic c \<or> is_ascii_digit c"

definition is_ascii_hexdigit :: "char \<Rightarrow> bool" where
  [ascii_defs]: "is_ascii_hexdigit c \<longleftrightarrow>
     is_ascii_digit c \<or> (65 \<le> ord8 c \<and> ord8 c \<le> 70) \<or> (97 \<le> ord8 c \<and> ord8 c \<le> 102)"

text \<open>\<open>b | 0x20\<close>: bit 5 raised.\<close>

fun or_0x20 :: "char \<Rightarrow> char" where
  "or_0x20 (Char b0 b1 b2 b3 b4 b5 b6 b7) = Char b0 b1 b2 b3 b4 True b6 b7"

fun and_not_0x20 :: "char \<Rightarrow> char" where
  "and_not_0x20 (Char b0 b1 b2 b3 b4 b5 b6 b7) = Char b0 b1 b2 b3 b4 False b6 b7"

definition u8_to_ascii_lowercase :: "char \<Rightarrow> char" where
  [ascii_defs]: "u8_to_ascii_lowercase c = (if is_ascii_uppercase c then or_0x20 c else c)"

definition u8_to_ascii_uppercase :: "char \<Rightarrow> char" where
  [ascii_defs]: "u8_to_ascii_uppercase c = (if is_ascii_lowercase c then and_not_0x20 c else c)"

definition to_ascii_lowercase :: "bytes \<Rightarrow> bytes" where
  [ascii_defs]: "to_ascii_lowercase s = map u8_to_ascii_lowercase s"

definition eq_ignore_ascii_case :: "bytes \<Rightarrow> bytes \<Rightarrow> bool" where
  [ascii_defs]: "eq_ignore_ascii_case a b \<longleftrightarrow> to_ascii_lowercase a = to_ascii_lowercase b"

lemma ord8_less_256 [simp]: "ord8 c < 256"
  by simp

lemma of_char_or_0x20:
  "is_ascii_uppercase c \<Longrightarrow> ord8 (or_0x20 c) = ord8 c + 32"
  by (cases c) (auto simp: is_ascii_uppercase_def of_bool_def split: if_splits)

lemma not_uppercase_lowercased [simp]:
  "\<not> is_ascii_uppercase (u8_to_ascii_lowercase c)"
  by (auto simp: u8_to_ascii_lowercase_def of_char_or_0x20)
     (auto simp: is_ascii_uppercase_def of_char_or_0x20)

lemma u8_to_ascii_lowercase_idem [simp]:
  "u8_to_ascii_lowercase (u8_to_ascii_lowercase c) = u8_to_ascii_lowercase c"
  using not_uppercase_lowercased [of c]
  by (simp add: u8_to_ascii_lowercase_def [of "u8_to_ascii_lowercase c"])

lemma u8_to_ascii_lowercase_id [simp]:
  "\<not> is_ascii_uppercase c \<Longrightarrow> u8_to_ascii_lowercase c = c"
  by (simp add: u8_to_ascii_lowercase_def)

lemma to_ascii_lowercase_Nil [simp]: "to_ascii_lowercase [] = []"
  by (simp add: to_ascii_lowercase_def)

lemma to_ascii_lowercase_Cons [simp]:
  "to_ascii_lowercase (c # s) = u8_to_ascii_lowercase c # to_ascii_lowercase s"
  by (simp add: to_ascii_lowercase_def)

lemma to_ascii_lowercase_append [simp]:
  "to_ascii_lowercase (a @ b) = to_ascii_lowercase a @ to_ascii_lowercase b"
  by (simp add: to_ascii_lowercase_def)

lemma length_to_ascii_lowercase [simp]: "length (to_ascii_lowercase s) = length s"
  by (simp add: to_ascii_lowercase_def)

lemma to_ascii_lowercase_idem [simp]:
  "to_ascii_lowercase (to_ascii_lowercase s) = to_ascii_lowercase s"
  by (simp add: to_ascii_lowercase_def)

lemma to_ascii_lowercase_id:
  "\<not> (\<exists>c \<in> set s. is_ascii_uppercase c) \<Longrightarrow> to_ascii_lowercase s = s"
  by (induction s) auto

lemma to_ascii_lowercase_eq_Nil [simp]: "to_ascii_lowercase s = [] \<longleftrightarrow> s = []"
  by (simp add: to_ascii_lowercase_def)

lemma eq_ignore_ascii_case_refl [simp]: "eq_ignore_ascii_case a a"
  by (simp add: eq_ignore_ascii_case_def)

lemma eq_ignore_ascii_case_sym: "eq_ignore_ascii_case a b \<longleftrightarrow> eq_ignore_ascii_case b a"
  by (auto simp: eq_ignore_ascii_case_def)

lemma eq_ignore_ascii_case_length:
  "eq_ignore_ascii_case a b \<Longrightarrow> length a = length b"
  by (metis eq_ignore_ascii_case_def length_to_ascii_lowercase)

lemma eq_ignore_ascii_case_lower [simp]:
  "eq_ignore_ascii_case (to_ascii_lowercase a) b \<longleftrightarrow> eq_ignore_ascii_case a b"
  "eq_ignore_ascii_case a (to_ascii_lowercase b) \<longleftrightarrow> eq_ignore_ascii_case a b"
  by (simp_all add: eq_ignore_ascii_case_def)

section \<open>Searching and splitting\<close>

text \<open>\<open>Iterator::position\<close>, and with it \<open>memchr\<close> and \<open>str::find\<close> of one character.\<close>

fun position :: "('a \<Rightarrow> bool) \<Rightarrow> 'a list \<Rightarrow> nat option" where
  "position p [] = None"
| "position p (x # xs) = (if p x then Some 0 else map_option Suc (position p xs))"

definition memchr :: "char \<Rightarrow> bytes \<Rightarrow> nat option" where
  "memchr b s = position (\<lambda>c. c = b) s"

lemma position_NoneD: "position p xs = None \<Longrightarrow> x \<in> set xs \<Longrightarrow> \<not> p x"
  by (induction xs) (auto split: if_splits)

lemma position_None_iff: "position p xs = None \<longleftrightarrow> (\<forall>x \<in> set xs. \<not> p x)"
  by (induction xs) auto

lemma position_SomeD:
  "position p xs = Some i \<Longrightarrow> i < length xs \<and> p (xs ! i) \<and> (\<forall>j<i. \<not> p (xs ! j))"
proof (induction xs arbitrary: i)
  case (Cons x xs)
  show ?case
  proof (cases "p x")
    case False
    with Cons.prems obtain k where k: "position p xs = Some k" "i = Suc k"
      by auto
    with Cons.IH [OF k(1)] False show ?thesis
      by (auto simp: less_Suc_eq_0_disj)
  qed (use Cons.prems in auto)
qed simp

lemma position_SomeI:
  "i < length xs \<Longrightarrow> p (xs ! i) \<Longrightarrow> (\<And>j. j < i \<Longrightarrow> \<not> p (xs ! j)) \<Longrightarrow> position p xs = Some i"
proof (induction xs arbitrary: i)
  case (Cons x xs)
  show ?case
  proof (cases i)
    case (Suc k)
    with Cons.prems(3) [of 0] have "\<not> p x" by simp
    moreover have "position p xs = Some k"
      using Cons.prems Suc by (intro Cons.IH) fastforce+
    ultimately show ?thesis using Suc by simp
  qed (use Cons.prems in auto)
qed simp

lemma position_append:
  "position p (xs @ ys) =
     (case position p xs of Some i \<Rightarrow> Some i | None \<Rightarrow> map_option ((+) (length xs)) (position p ys))"
  by (induction xs) (cases "position p ys", auto simp: option.map_comp comp_def split: option.splits)+

lemma position_split:
  assumes "position p xs = Some i"
  shows "xs = take i xs @ xs ! i # drop (Suc i) xs" "\<forall>x \<in> set (take i xs). \<not> p x"
  using position_SomeD [OF assms] by (auto simp: id_take_nth_drop [symmetric] in_set_conv_nth)

text \<open>\<open>[T]::split\<close> on one separator: always at least one piece, separators dropped.\<close>

lemma memchr_None: "b \<notin> set s \<Longrightarrow> memchr b s = None"
  by (auto simp: memchr_def position_None_iff)

lemma memchr_first: "b \<notin> set l \<Longrightarrow> memchr b (l @ b # r) = Some (length l)"
  using position_None_iff [of "\<lambda>c. c = b" l] by (auto simp: memchr_def position_append)

fun split_on :: "'a \<Rightarrow> 'a list \<Rightarrow> 'a list list" where
  "split_on b [] = [[]]"
| "split_on b (x # xs) =
     (if x = b then [] # split_on b xs
      else case split_on b xs of [] \<Rightarrow> [[x]] | p # ps \<Rightarrow> (x # p) # ps)"

lemma split_on_not_Nil [simp]: "split_on b xs \<noteq> []"
  by (induction xs) (auto split: list.splits)

lemma split_on_no_sep: "p \<in> set (split_on b xs) \<Longrightarrow> b \<notin> set p"
proof (induction xs arbitrary: p)
  case (Cons x xs)
  then show ?case
    by (auto split: if_splits list.splits)
qed simp

fun join_with :: "'a \<Rightarrow> 'a list list \<Rightarrow> 'a list" where
  "join_with b [] = []"
| "join_with b [p] = p"
| "join_with b (p # q # ps) = p @ b # join_with b (q # ps)"

lemma join_with_Cons: "ps \<noteq> [] \<Longrightarrow> join_with b (p # ps) = p @ b # join_with b ps"
  by (cases ps) auto

lemma join_with_split_on [simp]: "join_with b (split_on b xs) = xs"
proof (induction xs)
  case (Cons x xs)
  obtain p ps where p: "split_on b xs = p # ps"
    using split_on_not_Nil by (metis list.exhaust)
  with Cons have "join_with b (p # ps) = xs" by simp
  with p show ?case
    by (cases ps) (auto simp: join_with_Cons)
qed simp

lemma split_on_id: "b \<notin> set xs \<Longrightarrow> split_on b xs = [xs]"
  by (induction xs) auto

lemma split_on_append_sep: "split_on b (xs @ b # ys) = split_on b xs @ split_on b ys"
proof (induction xs)
  case (Cons x xs)
  then show ?case by (cases "split_on b xs") auto
qed simp

lemma split_on_join_with:
  "ps \<noteq> [] \<Longrightarrow> (\<And>p. p \<in> set ps \<Longrightarrow> b \<notin> set p) \<Longrightarrow> split_on b (join_with b ps) = ps"
proof (induction b ps rule: join_with.induct)
  case (3 b p q ps)
  then show ?case
    by (simp add: split_on_append_sep split_on_id)
qed (auto simp: split_on_id)

text \<open>\<open>str::split_once\<close> on one character.\<close>

definition split_once :: "char \<Rightarrow> bytes \<Rightarrow> (bytes \<times> bytes) option" where
  "split_once b s = (case memchr b s of
     None \<Rightarrow> None | Some i \<Rightarrow> Some (take i s, drop (Suc i) s))"

definition starts_with :: "bytes \<Rightarrow> bytes \<Rightarrow> bool" where
  "starts_with s p \<longleftrightarrow> take (length p) s = p"

definition ends_with :: "bytes \<Rightarrow> bytes \<Rightarrow> bool" where
  "ends_with s p \<longleftrightarrow> length p \<le> length s \<and> drop (length s - length p) s = p"

definition strip_prefix :: "bytes \<Rightarrow> bytes \<Rightarrow> bytes option" where
  "strip_prefix s p = (if starts_with s p then Some (drop (length p) s) else None)"

lemma starts_with_iff: "starts_with s p \<longleftrightarrow> (\<exists>r. s = p @ r)"
  by (metis append_eq_conv_conj append_take_drop_id starts_with_def)

lemma ends_with_iff: "ends_with s p \<longleftrightarrow> (\<exists>r. s = r @ p)"
proof
  assume "ends_with s p"
  then show "\<exists>r. s = r @ p"
    unfolding ends_with_def by (metis append_take_drop_id)
qed (auto simp: ends_with_def)

lemma strip_prefix_Some_iff [simp]: "strip_prefix s p = Some r \<longleftrightarrow> s = p @ r"
  by (auto simp: strip_prefix_def starts_with_iff)

lemma strip_prefix_None_iff: "strip_prefix s p = None \<longleftrightarrow> \<not> (\<exists>r. s = p @ r)"
  by (auto simp: strip_prefix_def starts_with_iff)

text \<open>\<open>slice::get\<close>.\<close>

definition get :: "'a list \<Rightarrow> nat \<Rightarrow> 'a option" where
  "get xs i = (if i < length xs then Some (xs ! i) else None)"

text \<open>\<open>&s[a..b]\<close>.\<close>

definition subslice :: "nat \<Rightarrow> nat \<Rightarrow> 'a list \<Rightarrow> 'a list" where
  "subslice a b xs = take (b - a) (drop a xs)"

lemma get_Some_iff [simp]: "get xs i = Some x \<longleftrightarrow> i < length xs \<and> xs ! i = x"
  by (auto simp: get_def)

lemma length_subslice: "b \<le> length xs \<Longrightarrow> length (subslice a b xs) = b - a"
  by (auto simp: subslice_def)

section \<open>UTF-8\<close>

text \<open>
  \<open>std::str::from_utf8(b).is_ok()\<close>: the well-formed byte sequences of the Unicode
  standard, which exclude overlong forms, surrogates and code points above U+10FFFF.
\<close>

definition in_range :: "nat \<Rightarrow> nat \<Rightarrow> char \<Rightarrow> bool" where
  "in_range lo hi c \<longleftrightarrow> lo \<le> ord8 c \<and> ord8 c \<le> hi"

fun is_utf8 :: "bytes \<Rightarrow> bool" where
  "is_utf8 [] = True"
| "is_utf8 (a # s) =
     (if ord8 a < 128 then is_utf8 s
      else (case s of
        [] \<Rightarrow> False
      | b # s1 \<Rightarrow>
          if in_range 194 223 a \<and> in_range 128 191 b then is_utf8 s1
          else (case s1 of
            [] \<Rightarrow> False
          | c # s2 \<Rightarrow>
              if in_range 128 191 c \<and>
                 (ord8 a = 224 \<and> in_range 160 191 b \<or> in_range 225 236 a \<and> in_range 128 191 b \<or>
                  ord8 a = 237 \<and> in_range 128 159 b \<or> in_range 238 239 a \<and> in_range 128 191 b)
              then is_utf8 s2
              else (case s2 of
                [] \<Rightarrow> False
              | d # s3 \<Rightarrow>
                  in_range 128 191 c \<and> in_range 128 191 d \<and>
                  (ord8 a = 240 \<and> in_range 144 191 b \<or> in_range 241 243 a \<and> in_range 128 191 b \<or>
                   ord8 a = 244 \<and> in_range 128 143 b) \<and> is_utf8 s3))))"

lemma is_utf8_ascii: "\<forall>c \<in> set s. ord8 c < 128 \<Longrightarrow> is_utf8 s"
  by (induction s) auto

text \<open>Valid text may be cut at an ASCII byte.\<close>

lemma ascii_not_continuation: "ord8 c < 128 \<Longrightarrow> 128 \<le> lo \<Longrightarrow> \<not> in_range lo hi c"
  by (simp add: in_range_def)

lemma is_utf8_wide:
  assumes "\<not> ord8 x < 128"
  shows "is_utf8 (x # y # z # w # r) =
    (if in_range 194 223 x \<and> in_range 128 191 y then is_utf8 (z # w # r)
     else if in_range 128 191 z \<and>
       (ord8 x = 224 \<and> in_range 160 191 y \<or> in_range 225 236 x \<and> in_range 128 191 y \<or>
        ord8 x = 237 \<and> in_range 128 159 y \<or> in_range 238 239 x \<and> in_range 128 191 y)
     then is_utf8 (w # r)
     else in_range 128 191 z \<and> in_range 128 191 w \<and>
       (ord8 x = 240 \<and> in_range 144 191 y \<or> in_range 241 243 x \<and> in_range 128 191 y \<or>
        ord8 x = 244 \<and> in_range 128 143 y) \<and> is_utf8 r)"
  by (subst is_utf8.simps(2)) (simp only: assms list.case if_False)

lemma if_bool: "(if Q then True else False) = Q"
  by simp

lemma is_utf8_three:
  assumes "\<not> ord8 x < 128"
  shows "is_utf8 [x, y, z] =
    (if in_range 194 223 x \<and> in_range 128 191 y then is_utf8 [z]
     else in_range 128 191 z \<and>
       (ord8 x = 224 \<and> in_range 160 191 y \<or> in_range 225 236 x \<and> in_range 128 191 y \<or>
        ord8 x = 237 \<and> in_range 128 159 y \<or> in_range 238 239 x \<and> in_range 128 191 y))"
  by (subst is_utf8.simps(2)) (simp only: assms list.case if_False is_utf8.simps(1) if_bool)

lemma if_conj3: "(if P then A \<and> B else if Q then B else False) = ((if P then A else Q) \<and> B)"
  by simp

lemma if_conj: "(if P then A \<and> B else if Q then C \<and> B else x \<and> y \<and> z \<and> D \<and> B) =
    ((if P then A else if Q then C else x \<and> y \<and> z \<and> D) \<and> B)"
  by simp

lemma is_utf8_cut:
  assumes c: "ord8 c < 128"
  shows "is_utf8 (a @ c # b) \<longleftrightarrow> is_utf8 a \<and> is_utf8 b"
proof (induction a rule: length_induct)
  case (1 a)
  note n = ascii_not_continuation [OF c]
  have IH: "is_utf8 (q @ c # b) \<longleftrightarrow> is_utf8 q \<and> is_utf8 b" if "length q < length a" for q
    using 1 that by blast
  show ?case
  proof (cases a)
    case (Cons x s)
    show ?thesis
    proof (cases "ord8 x < 128")
      case True
      then show ?thesis using 1 Cons by simp
    next
      case x: False
      consider "s = []" | y where "s = [y]" | y z where "s = [y, z]" | y z w r where "s = y # z # w # r"
        by (metis list.exhaust)
      then show ?thesis
      proof cases
        case 1
        consider "b = []" | d where "b = [d]" | d e r where "b = d # e # r" by (metis list.exhaust)
        then show ?thesis unfolding Cons 1 by cases (simp_all add: x n is_utf8_wide [OF x] del: is_utf8.simps(2), simp_all add: x n)
      next
        case (2 y)
        show ?thesis unfolding Cons 2 by (cases b) (simp_all add: x n is_utf8_wide [OF x] c)
      next
        case (3 y z)
        have "is_utf8 ([z] @ c # b) \<longleftrightarrow> is_utf8 [z] \<and> is_utf8 b" by (rule IH) (simp add: Cons 3)
        then have z: "is_utf8 (z # c # b) \<longleftrightarrow> is_utf8 [z] \<and> is_utf8 b" by (simp only: append_Cons append_Nil)
        have cb: "is_utf8 (c # b) = is_utf8 b" using c by simp
        have "\<not> in_range 128 191 c" by (simp add: n)
        then show ?thesis
          unfolding Cons 3 append_Cons append_Nil is_utf8_wide [OF x] is_utf8_three [OF x] z cb by (simp only: if_conj3 simp_thms)
      next
        case (4 y z w r)
        have l: "length (z # w # r) < length a" "length (w # r) < length a" "length r < length a"
          by (simp_all add: Cons 4)
        show ?thesis
          unfolding Cons 4 append_Cons is_utf8_wide [OF x]
            IH [OF l(1), unfolded append_Cons] IH [OF l(2), unfolded append_Cons] IH [OF l(3)]
          by (rule if_conj)
      qed
    qed
  qed (simp add: c)
qed

section \<open>Optional whitespace\<close>

definition is_ows :: "char \<Rightarrow> bool" where
  "is_ows b \<longleftrightarrow> b = CHR '' '' \<or> b = CHR 0x09"

definition trim_ows :: "bytes \<Rightarrow> bytes" where
  "trim_ows v = rev (dropWhile is_ows (rev (dropWhile is_ows v)))"

section \<open>Association lists\<close>

text \<open>\<open>entry(k).or_insert(d)\<close> followed by an update \<open>f\<close> of the entry.\<close>

fun upsert :: "'k \<Rightarrow> 'v \<Rightarrow> ('v \<Rightarrow> 'v) \<Rightarrow> ('k \<times> 'v) list \<Rightarrow> ('k \<times> 'v) list" where
  "upsert k d f [] = [(k, f d)]"
| "upsert k d f ((k', v) # al) = (if k' = k then (k', f v) # al else (k', v) # upsert k d f al)"

lemma map_of_upsert [simp]:
  "map_of (upsert k d f al) = (map_of al)(k \<mapsto> f (case map_of al k of Some v \<Rightarrow> v | None \<Rightarrow> d))"
  by (induction al) auto

lemma keys_upsert [simp]: "fst ` set (upsert k d f al) = insert k (fst ` set al)"
  by (simp flip: dom_map_of_conv_image_fst)

lemma distinct_upsert [simp]: "distinct (map fst al) \<Longrightarrow> distinct (map fst (upsert k d f al))"
proof (induction al)
  case (Cons x al)
  then show ?case by (cases x) auto
qed simp

definition map_values :: "('v \<Rightarrow> 'w) \<Rightarrow> ('k \<times> 'v) list \<Rightarrow> ('k \<times> 'w) list" where
  "map_values g al = map (\<lambda>(k, v). (k, g v)) al"

lemma map_values_upsert: "g (f d) = f' d' \<Longrightarrow> (\<And>v. g (f v) = f' (g v)) \<Longrightarrow>
    map_values g (upsert k d f al) = upsert k d' f' (map_values g al)"
  by (induction al) (auto simp: map_values_def)

section \<open>Orderings and stable sorting\<close>

datatype ordering = Less | Equal | Greater

definition cmp :: "'a :: linorder \<Rightarrow> 'a \<Rightarrow> ordering" where
  "cmp a b = (if a < b then Less else if a = b then Equal else Greater)"

fun then_with :: "ordering \<Rightarrow> ordering \<Rightarrow> ordering" where
  "then_with Equal o2 = o2"
| "then_with o1 o2 = o1"

text \<open>\<open>slice::sort_by\<close>: stable, so elements that compare equal keep their order.\<close>

fun insert_by :: "('a \<Rightarrow> 'a \<Rightarrow> ordering) \<Rightarrow> 'a \<Rightarrow> 'a list \<Rightarrow> 'a list" where
  "insert_by c x [] = [x]"
| "insert_by c x (y # ys) = (if c y x = Less then y # insert_by c x ys else x # y # ys)"

definition sort_by :: "('a \<Rightarrow> 'a \<Rightarrow> ordering) \<Rightarrow> 'a list \<Rightarrow> 'a list" where
  "sort_by c xs = foldr (insert_by c) xs []"

lemma sort_by_key:
  assumes "\<And>a b. c a b = cmp (k a) (k b)"
  shows "sort_by c xs = sort_key k xs"
proof -
  have "insert_by c x ys = insort_key k x ys" for x ys
    by (induction ys) (auto simp: assms cmp_def)
  then show ?thesis
    by (induction xs) (auto simp: sort_by_def sort_key_def)
qed

lemma then_with_cmp:
  "then_with (cmp (a :: 'a :: linorder) b) (cmp (c :: 'b :: linorder) d) = cmp (a, c) (b, d)"
  by (auto simp: cmp_def)

section \<open>Transition systems\<close>

text \<open>An invariant that holds initially and survives every step holds in every reachable state.\<close>

locale transition_system =
  fixes init :: "'s \<Rightarrow> bool" and step :: "'s \<Rightarrow> 's \<Rightarrow> bool" and inv :: "'s \<Rightarrow> bool"
  assumes init_inv: "init s \<Longrightarrow> inv s"
    and step_inv: "inv s \<Longrightarrow> step s t \<Longrightarrow> inv t"
begin

lemma steps_inv: "step\<^sup>*\<^sup>* s t \<Longrightarrow> inv s \<Longrightarrow> inv t"
  by (induction rule: rtranclp_induct) (auto intro: step_inv)

lemma reachable_inv: "init s \<Longrightarrow> step\<^sup>*\<^sup>* s t \<Longrightarrow> inv t"
  using steps_inv init_inv by blast

end

end
