(* ===== verification/Byte_Scan.thy ===== *)
theory Byte_Scan
  imports Portail_Prelude
begin

text \<open>
  The byte classes of the request-head grammar and the word-at-a-time scan over them
  (\<open>src/src/proxy/http_parser.rs\<close>: \<open>CLASS\<close>, \<open>is\<close>, \<open>scan\<close>). The main result is that
  the scan, which tests eight bytes at once with borrow arithmetic on a 64-bit word, stops
  exactly where a scan of one byte at a time stops.
\<close>

unbundle bit_operations_syntax

section \<open>Byte classes\<close>

type_synonym u8 = "8 word"

definition TCHAR :: u8 where "TCHAR = 1"
definition VALUE :: u8 where "VALUE = 2"
definition TARGET :: u8 where "TARGET = 4"
definition HOST :: u8 where "HOST = 8"

definition VALUE_HOLES :: "char list" where
  "VALUE_HOLES = [CHR 0x7F]"

definition TARGET_HOLES :: "char list" where
  "TARGET_HOLES = [CHR 0x7F, CHR ''#'', CHR 0x5C]"

definition any_of :: "char \<Rightarrow> char list \<Rightarrow> bool" where
  "any_of b s \<longleftrightarrow> b \<in> set s"

definition TCHAR_MARKS :: "char list" where
  "TCHAR_MARKS = [CHR ''!'', CHR ''#'', CHR ''$'', CHR ''%'', CHR ''&'', CHR 0x27, CHR ''*'',
     CHR ''+'', CHR ''-'', CHR ''.'', CHR ''^'', CHR ''_'', CHR 0x60, CHR ''|'', CHR ''~'']"

definition CLASS :: "char \<Rightarrow> u8" where
  "CLASS b =
     (if is_ascii_alphanumeric b \<or> any_of b TCHAR_MARKS then TCHAR else 0) OR
     (if b = CHR 0x09 \<or> (ord8 b \<ge> 0x20 \<and> \<not> any_of b VALUE_HOLES) then VALUE else 0) OR
     (if ord8 b > 0x20 \<and> \<not> any_of b TARGET_HOLES then TARGET else 0) OR
     (if is_ascii_alphanumeric b \<or> any_of b [CHR ''-'', CHR ''.'', CHR ''_''] then HOST else 0)"

definition is_class :: "char \<Rightarrow> u8 \<Rightarrow> bool" where
  "is_class b cls \<longleftrightarrow> CLASS b AND cls \<noteq> 0"

lemmas class_consts = TCHAR_def VALUE_def TARGET_def HOST_def

lemma is_TCHAR: "is_class b TCHAR \<longleftrightarrow> is_ascii_alphanumeric b \<or> any_of b TCHAR_MARKS"
  by (simp add: is_class_def CLASS_def class_consts)

lemma is_VALUE:
  "is_class b VALUE \<longleftrightarrow> b = CHR 0x09 \<or> (ord8 b \<ge> 0x20 \<and> \<not> any_of b VALUE_HOLES)"
  by (simp add: is_class_def CLASS_def class_consts)

lemma is_TARGET: "is_class b TARGET \<longleftrightarrow> ord8 b > 0x20 \<and> \<not> any_of b TARGET_HOLES"
  by (simp add: is_class_def CLASS_def class_consts)

lemma is_HOST:
  "is_class b HOST \<longleftrightarrow> is_ascii_alphanumeric b \<or> any_of b [CHR ''-'', CHR ''.'', CHR ''_'']"
  by (simp add: is_class_def CLASS_def class_consts)

lemmas class_iffs = is_TCHAR is_VALUE is_TARGET is_HOST

section \<open>The scan\<close>

text \<open>
  \<open>u64::from_ne_bytes\<close>, read as a little-endian machine reads it. On a big-endian one the
  bytes of the word are reversed, and the test below looks at all of them alike.
\<close>

fun le_val :: "int list \<Rightarrow> int" where
  "le_val [] = 0"
| "le_val (b # bs) = b + 256 * le_val bs"

definition from_ne_bytes :: "bytes \<Rightarrow> u64" where
  "from_ne_bytes bs = word_of_int (le_val (map (\<lambda>b. int (ord8 b)) bs))"

definition ONES :: u64 where "ONES = 0x0101010101010101"
definition HIGHS :: u64 where "HIGHS = 0x8080808080808080"

fun holes_stop :: "u64 \<Rightarrow> char list \<Rightarrow> u64 \<Rightarrow> u64" where
  "holes_stop w [] stop = stop"
| "holes_stop w (hole # holes) stop =
     (let x = w XOR (ONES * of_nat (ord8 hole))
      in holes_stop w holes (stop OR ((x - ONES) AND NOT x AND HIGHS)))"

definition word_stop :: "nat \<Rightarrow> char list \<Rightarrow> u64 \<Rightarrow> u64" where
  "word_stop floor holes w =
     holes_stop w holes ((w - ONES * of_nat floor) AND NOT w AND HIGHS)"

text \<open>The two loops of \<open>scan\<close>: whole words, then single bytes.\<close>

function scan_words :: "bytes \<Rightarrow> nat \<Rightarrow> nat \<Rightarrow> char list \<Rightarrow> nat" where
  "scan_words data pos floor holes =
     (if pos + 8 \<le> length data \<and>
         word_stop floor holes (from_ne_bytes (take 8 (drop pos data))) = 0
      then scan_words data (pos + 8) floor holes
      else pos)"
  by pat_completeness auto
termination
  by (relation "measure (\<lambda>(data, pos, floor, holes). length data - pos)") auto

function scan_bytes :: "bytes \<Rightarrow> nat \<Rightarrow> u8 \<Rightarrow> nat" where
  "scan_bytes data pos cls =
     (if pos < length data \<and> is_class (data ! pos) cls
      then scan_bytes data (Suc pos) cls else pos)"
  by pat_completeness auto
termination
  by (relation "measure (\<lambda>(data, pos, cls). length data - pos)") auto

declare scan_words.simps [simp del] scan_bytes.simps [simp del]

definition scan :: "bytes \<Rightarrow> nat \<Rightarrow> u8 \<Rightarrow> nat \<Rightarrow> char list \<Rightarrow> nat" where
  "scan data pos cls floor holes = scan_bytes data (scan_words data pos floor holes) cls"

section \<open>The word test\<close>

lemma bit_byte_append:
  assumes "0 \<le> x" "x < 256"
  shows "bit (x + 256 * y :: int) n \<longleftrightarrow> (if n < 8 then bit x n else bit y (n - 8))"
proof (cases "n < 8")
  case True
  then have "(2 :: int) ^ n * 2 ^ Suc (7 - n) = 2 ^ 8"
    by (subst power_add [symmetric]) simp
  then have "(256 :: int) = 2 ^ n * (2 * 2 ^ (7 - n))" by simp
  then have "x + 256 * y = x + 2 ^ n * (2 * 2 ^ (7 - n) * y)" by simp
  then have "(x + 256 * y) div 2 ^ n = x div 2 ^ n + 2 * (2 ^ (7 - n) * y)"
    by (simp only: div_mult_self2) simp
  with True show ?thesis by (simp add: bit_iff_odd)
next
  case False
  then obtain j where j: "n = 8 + j" using le_Suc_ex not_less by blast
  have "(x + 256 * y) div 2 ^ (8 + j) = ((x + 256 * y) div 256) div 2 ^ j"
    by (simp add: power_add zdiv_zmult2_eq)
  also have "(x + 256 * y) div 256 = y" using assms by simp
  finally show ?thesis using j by (simp add: bit_iff_odd)
qed

lemma bit_7_byte: "0 \<le> x \<Longrightarrow> x < 256 \<Longrightarrow> bit (x :: int) 7 \<longleftrightarrow> 128 \<le> x"
  unfolding bit_iff_odd by (simp, presburger)

lemma byte_below_floor_borrows:
  assumes "\<forall>b \<in> set bs. 0 \<le> b \<and> b < 256" "\<exists>b \<in> set bs. b < f" "0 \<le> f" "f \<le> 128"
  shows "\<exists>i < length bs. bit (le_val bs - le_val (replicate (length bs) f)) (8 * i + 7)
           \<and> \<not> bit (le_val bs) (8 * i + 7)"
  using assms(1,2)
proof (induction bs)
  case (Cons b bs)
  let ?d = "le_val bs - le_val (replicate (length bs) f)"
  let ?D = "le_val (b # bs) - le_val (replicate (length (b # bs)) f)"
  have b: "0 \<le> b" "b < 256" using Cons.prems(1) by auto
  show ?case
  proof (cases "b < f")
    case True
    have "?D = (b - f + 256) + 256 * (?d - 1)" by simp
    then have "bit ?D 7"
      using True b assms(3,4) by (simp only: bit_byte_append) (simp add: bit_7_byte)
    moreover have "\<not> bit (le_val (b # bs)) 7"
      using True b assms(4) by (simp add: bit_byte_append bit_7_byte)
    ultimately show ?thesis by (intro exI [of _ 0]) simp
  next
    case False
    with Cons obtain i where i: "i < length bs" "bit ?d (8 * i + 7)" "\<not> bit (le_val bs) (8 * i + 7)"
      by auto
    have "?D = (b - f) + 256 * ?d" by simp
    then have "bit ?D (8 * Suc i + 7)"
      using i False b assms(3) by (simp only: bit_byte_append) (simp add: add.commute)
    moreover have "\<not> bit (le_val (b # bs)) (8 * Suc i + 7)"
      using i b by (simp add: bit_byte_append add.commute)
    ultimately show ?thesis using i(1) by (intro exI [of _ "Suc i"]) simp
  qed
qed simp

lemma le_val_xor:
  assumes "length as = length bs" "\<forall>a \<in> set as. 0 \<le> a \<and> a < 256" "\<forall>b \<in> set bs. 0 \<le> b \<and> b < 256"
  shows "le_val as XOR le_val bs = le_val (map2 (XOR) as bs)"
  using assms
proof (induction as bs rule: list_induct2)
  case (Cons a as b bs)
  have ab: "0 \<le> a" "a < 256" "0 \<le> b" "b < 256" using Cons.prems by auto
  then have "0 \<le> a XOR b" "a XOR b < 256"
    using XOR_upper [of a 8 b] by auto
  then have "(a + 256 * le_val as) XOR (b + 256 * le_val bs)
      = (a XOR b) + 256 * (le_val as XOR le_val bs)"
    using ab by (intro bit_eqI) (simp add: bit_byte_append bit_xor_iff)
  with Cons show ?case by simp
qed simp

lemma HIGHS_bit: "i < 8 \<Longrightarrow> bit HIGHS (8 * i + 7)"
proof -
  assume "i < 8"
  then have "i \<in> {0, 1, 2, 3, 4, 5, 6, 7}" by auto
  then show ?thesis by (auto simp: HIGHS_def)
qed

lemma ONES_times: "ONES * of_nat f = word_of_int (le_val (replicate 8 (int f)))"
  by (simp add: ONES_def eval_nat_numeral)

text \<open>The borrow test fires on any byte below the floor.\<close>

lemma borrow_test:
  fixes bs :: "int list"
  assumes "length bs = 8" "\<forall>b \<in> set bs. 0 \<le> b \<and> b < 256" "\<exists>b \<in> set bs. b < int f" "f \<le> 128"
  defines "w \<equiv> word_of_int (le_val bs) :: u64"
  shows "(w - ONES * of_nat f) AND NOT w AND HIGHS \<noteq> 0"
proof -
  obtain i where i: "i < 8" "bit (le_val bs - le_val (replicate 8 (int f))) (8 * i + 7)"
      "\<not> bit (le_val bs) (8 * i + 7)"
    using byte_below_floor_borrows [of bs "int f"] assms by auto
  have "w - ONES * of_nat f = word_of_int (le_val bs - le_val (replicate 8 (int f)))"
    by (simp add: w_def ONES_times)
  then have "bit ((w - ONES * of_nat f) AND NOT w AND HIGHS) (8 * i + 7)"
    using i HIGHS_bit [OF i(1)]
    by (simp only:) (simp add: w_def bit_and_iff bit_not_iff bit_word_of_int_iff del: of_int_diff)
  then show ?thesis by (metis bit_0_eq bot_apply bot_bool_def)
qed

lemma holes_stop_0D:
  assumes "holes_stop w holes stop = 0"
  shows "stop = 0"
    and "hole \<in> set holes \<Longrightarrow>
      ((w XOR ONES * of_nat (ord8 hole)) - ONES) AND NOT (w XOR ONES * of_nat (ord8 hole)) AND HIGHS = 0"
  using assms
proof (induction holes arbitrary: stop)
  case (Cons h hs)
  let ?t = "((w XOR ONES * of_nat (ord8 h)) - ONES) AND NOT (w XOR ONES * of_nat (ord8 h)) AND HIGHS"
  {
    case 1
    then show ?case using Cons.IH(1) [of "stop OR ?t"] by (simp add: Let_def or_eq_0_iff)
  next
    case 2
    then have rest: "holes_stop w hs (stop OR ?t) = 0" by (simp add: Let_def)
    then have "?t = 0" using Cons.IH(1) [OF rest] by (simp add: or_eq_0_iff)
    then show ?case using 2 Cons.IH(2) [OF _ rest] by auto
  }
qed simp_all

lemma word_stop_0_bytes:
  assumes "word_stop floor holes (from_ne_bytes bs) = 0" "length bs = 8" "floor \<le> 128"
  shows "\<forall>b \<in> set bs. floor \<le> ord8 b \<and> b \<notin> set holes"
proof (intro ballI conjI)
  fix b assume b: "b \<in> set bs"
  let ?bs = "map (\<lambda>b. int (ord8 b)) bs" and ?w = "from_ne_bytes bs"
  have bytes: "\<forall>x \<in> set ?bs. 0 \<le> x \<and> x < 256" by auto
  note stop = assms(1) [unfolded word_stop_def]
  show "floor \<le> ord8 b"
  proof (rule ccontr)
    assume "\<not> floor \<le> ord8 b"
    then have "\<exists>x \<in> set ?bs. x < int floor"
      using b by (intro bexI [of _ "int (ord8 b)"]) auto
    with borrow_test [of ?bs floor] holes_stop_0D(1) [OF stop] assms(2,3) bytes
    show False by (simp add: from_ne_bytes_def)
  qed
  show "b \<notin> set holes"
  proof
    assume "b \<in> set holes"
    from holes_stop_0D(2) [OF stop this] have test:
      "((?w XOR ONES * of_nat (ord8 b)) - ONES) AND NOT (?w XOR ONES * of_nat (ord8 b)) AND HIGHS = 0" .
    let ?h = "replicate 8 (int (ord8 b))" and ?xs = "map2 (XOR) ?bs (replicate 8 (int (ord8 b)))"
    have "?w XOR ONES * of_nat (ord8 b) = word_of_int (le_val ?bs XOR le_val ?h)"
      unfolding ONES_times from_ne_bytes_def by (intro bit_word_eqI) (simp add: bit_xor_iff bit_word_of_int_iff)
    also have "le_val ?bs XOR le_val ?h = le_val ?xs"
      using bytes assms(2) by (intro le_val_xor) auto
    finally have x: "?w XOR ONES * of_nat (ord8 b) = word_of_int (le_val ?xs)" .
    have len: "length ?xs = 8" using assms(2) by simp
    have range: "\<forall>x \<in> set ?xs. 0 \<le> x \<and> x < 256"
    proof
      fix x assume "x \<in> set ?xs"
      then obtain c where "x = int (ord8 c) XOR int (ord8 b)" by (auto simp: set_zip)
      then show "0 \<le> x \<and> x < 256"
        using XOR_upper [of "int (ord8 c)" 8 "int (ord8 b)"] by auto
    qed
    obtain i where i: "i < 8" "bs ! i = b" using b assms(2) by (auto simp: in_set_conv_nth)
    then have "?xs ! i = 0" using assms(2) by simp
    then have "0 \<in> set ?xs" using i(1) len by (metis nth_mem)
    then have "\<exists>x \<in> set ?xs. x < int 1" by (intro bexI [of _ 0]) auto
    with borrow_test [of ?xs 1] len range test x show False by simp
  qed
qed

section \<open>Where a scan stops\<close>

lemma scan_bytes_takeWhile:
  "pos \<le> length data \<Longrightarrow>
     scan_bytes data pos cls = pos + length (takeWhile (\<lambda>b. is_class b cls) (drop pos data))"
proof (induction data pos cls rule: scan_bytes.induct)
  case (1 data pos cls)
  show ?case
  proof (cases "pos < length data")
    case True
    then have "drop pos data = data ! pos # drop (Suc pos) data"
      by (simp add: Cons_nth_drop_Suc)
    with 1 True show ?thesis by (simp add: scan_bytes.simps [of data pos])
  next
    case False
    with "1.prems" show ?thesis by (simp add: scan_bytes.simps [of data "length data"])
  qed
qed

lemma scan_bytes_beyond: "length data \<le> pos \<Longrightarrow> scan_bytes data pos cls = pos"
  by (simp add: scan_bytes.simps)

lemma scan_bytes_skip:
  "(\<And>i. i < n \<Longrightarrow> pos + i < length data \<and> is_class (data ! (pos + i)) cls) \<Longrightarrow>
     scan_bytes data (pos + n) cls = scan_bytes data pos cls"
proof (induction n)
  case (Suc n)
  then have "scan_bytes data (pos + n) cls = scan_bytes data (pos + Suc n) cls"
    by (subst scan_bytes.simps) simp
  with Suc show ?case by simp
qed simp

text \<open>
  The contract of \<open>scan\<close>: every byte at or above the floor, the holes apart, is in the
  class. Then skipping whole words skips class bytes only.
\<close>

lemma scan_eq_scan_bytes:
  assumes "floor \<le> 128" "\<And>b. floor \<le> ord8 b \<Longrightarrow> b \<notin> set holes \<Longrightarrow> is_class b cls"
  shows "scan data pos cls floor holes = scan_bytes data pos cls"
  unfolding scan_def using assms
proof (induction data pos floor holes rule: scan_words.induct)
  case (1 data pos floor holes)
  let ?bs = "take 8 (drop pos data)"
  show ?case
  proof (cases "pos + 8 \<le> length data \<and> word_stop floor holes (from_ne_bytes ?bs) = 0")
    case True
    then have len: "length ?bs = 8" by auto
    have "is_class (data ! (pos + i)) cls" if "i < 8" for i
    proof -
      have "data ! (pos + i) \<in> set ?bs"
        using that True len by (metis add_leD1 nth_drop nth_mem nth_take)
      then show ?thesis
        using word_stop_0_bytes [OF conjunct2 [OF True] len "1.prems"(1)] "1.prems"(2) by blast
    qed
    then have "scan_bytes data (pos + 8) cls = scan_bytes data pos cls"
      using True by (intro scan_bytes_skip) auto
    with 1 True show ?thesis by (simp add: scan_words.simps [of data pos])
  qed (simp add: scan_words.simps [of data pos], auto)
qed

definition is_field_value_byte :: "char \<Rightarrow> bool" where
  "is_field_value_byte b \<longleftrightarrow> is_class b VALUE"

definition is_target_byte :: "char \<Rightarrow> bool" where
  "is_target_byte b \<longleftrightarrow> is_class b TARGET"

definition is_tchar :: "char \<Rightarrow> bool" where
  "is_tchar b \<longleftrightarrow> is_class b TCHAR"

definition is_token :: "bytes \<Rightarrow> bool" where
  "is_token s \<longleftrightarrow> s \<noteq> [] \<and> (\<forall>b \<in> set s. is_class b TCHAR)"

definition field_value_end :: "bytes \<Rightarrow> nat \<Rightarrow> nat" where
  "field_value_end data pos = scan data pos VALUE 0x20 VALUE_HOLES"

definition scan_target :: "bytes \<Rightarrow> nat \<Rightarrow> nat" where
  "scan_target data pos = scan data pos TARGET 0x21 TARGET_HOLES"

lemma scan_value_bytes: "scan data pos VALUE 0x20 VALUE_HOLES = scan_bytes data pos VALUE"
  by (rule scan_eq_scan_bytes) (auto simp: is_VALUE any_of_def)

lemma scan_target_bytes: "scan data pos TARGET 0x21 TARGET_HOLES = scan_bytes data pos TARGET"
  by (rule scan_eq_scan_bytes) (auto simp: is_TARGET any_of_def)

text \<open>
  C5. The word-at-a-time scan ends where a byte-at-a-time reading of the grammar would: a field
  value runs over tabs and every byte from the space up except DEL, a request target over every
  byte above the space except DEL, \<open>#\<close> and \<open>\\<close>, whatever the alignment and length of the run.
\<close>

theorem scan_stops_exactly:
  "field_value_end (pre @ rest) (length pre) = length pre +
     length (takeWhile (\<lambda>b. b = CHR 0x09 \<or> (0x20 \<le> ord8 b \<and> b \<noteq> CHR 0x7F)) rest)
   \<and> scan_target (pre @ rest) (length pre) = length pre +
     length (takeWhile (\<lambda>b. 0x20 < ord8 b \<and> b \<notin> {CHR 0x7F, CHR ''#'', CHR 0x5C}) rest)"
  unfolding field_value_end_def scan_target_def scan_value_bytes scan_target_bytes
  by (simp add: scan_bytes_takeWhile is_VALUE is_TARGET any_of_def VALUE_HOLES_def TARGET_HOLES_def)

end
