(* ===== verification/Chunked.thy ===== *)
theory Chunked
  imports Byte_Scan
begin

text \<open>
  The observer of chunked transfer coding (\<open>src/src/proxy/chunked.rs\<close>): \<open>Phase\<close>,
  \<open>shift_hex\<close>, \<open>ChunkedStream::step\<close> and \<open>ChunkedStream::advance\<close>, with \<open>observe\<close>
  and \<open>decode_into\<close> on top of it. The state of a \<open>ChunkedStream\<close> is its phase.

  What is proved: the bulk skip over chunk data is a run of single-byte steps, so how the
  wire is cut into reads does not matter; the observer reaches \<open>Done\<close> exactly after a
  message of the chunked grammar, which it consumes and no byte more, and hands on exactly
  that message's payload.
\<close>

section \<open>The observer\<close>

datatype phase =
    Size u64 bool
  | SizeExt u64
  | SizeCrlf u64
  | Data u64
  | DataCrlf bool
  | TrailerLineStart
  | TrailerLine bool
  | TrailerCr bool
  | Done
  | Broken

definition chunked_new :: phase where
  "chunked_new = Size 0 False"

definition is_terminated :: "phase \<Rightarrow> bool" where
  "is_terminated p \<longleftrightarrow> p = Done"

definition is_broken :: "phase \<Rightarrow> bool" where
  "is_broken p \<longleftrightarrow> p = Broken"

definition shift_hex :: "u64 \<Rightarrow> nat \<Rightarrow> u64 option" where
  "shift_hex hex nibble =
     (if drop_bit 60 hex \<noteq> 0 then None else Some (push_bit 4 hex OR of_nat nibble))"

text \<open>The digit arms of the size line: the nibble a hex digit stands for.\<close>

definition hex_nibble :: "char \<Rightarrow> nat option" where
  "hex_nibble b =
     (if is_ascii_digit b then Some (ord8 b - 48)
      else if 97 \<le> ord8 b \<and> ord8 b \<le> 102 then Some (ord8 b - 97 + 10)
      else if 65 \<le> ord8 b \<and> ord8 b \<le> 70 then Some (ord8 b - 65 + 10)
      else None)"

fun step :: "phase \<Rightarrow> char \<Rightarrow> phase" where
  "step (Size hex has_digit) b =
     (case hex_nibble b of
        Some n \<Rightarrow> (case shift_hex hex n of Some h \<Rightarrow> Size h True | None \<Rightarrow> Broken)
      | None \<Rightarrow>
          if b = CHR '';'' \<and> has_digit then SizeExt hex
          else if b = CHR 0x0D \<and> has_digit then SizeCrlf hex
          else Broken)"
| "step (SizeExt sz) b =
     (if b = CHR 0x0D then SizeCrlf sz
      else if is_field_value_byte b then SizeExt sz
      else Broken)"
| "step (SizeCrlf sz) b =
     (if b = CHR 0x0A then (if sz = 0 then TrailerLineStart else Data sz) else Broken)"
| "step (Data remaining) b = Broken"
| "step (DataCrlf saw_cr) b =
     (if \<not> saw_cr \<and> b = CHR 0x0D then DataCrlf True
      else if saw_cr \<and> b = CHR 0x0A then Size 0 False
      else Broken)"
| "step TrailerLineStart b =
     (if b = CHR 0x0D then TrailerCr True
      else if b = CHR '' '' \<or> b = CHR 0x09 \<or> b = CHR '':'' then Broken
      else if \<not> is_field_value_byte b then Broken
      else TrailerLine False)"
| "step (TrailerLine saw_colon) b =
     (if b = CHR 0x0D \<and> saw_colon then TrailerCr False
      else if b = CHR '':'' then TrailerLine True
      else if b = CHR 0x09 then TrailerLine saw_colon
      else if \<not> is_field_value_byte b then Broken
      else TrailerLine saw_colon)"
| "step (TrailerCr blank) b =
     (if b = CHR 0x0A then (if blank then Done else TrailerLineStart) else Broken)"
| "step Done b = Broken"
| "step Broken b = Broken"

text \<open>
  \<open>advance\<close>: the loop over \<open>bytes\<close> from index \<open>i\<close>, returning the phase it leaves, the bytes
  consumed and what \<open>on_data\<close> was handed.
\<close>

fun data_remaining :: "phase \<Rightarrow> u64 option" where
  "data_remaining (Data remaining) = Some remaining"
| "data_remaining p = None"

lemma data_progress:
  fixes r :: u64
  assumes "i < len" "r \<noteq> word_of_nat (min (unat r) (len - i))"
  shows "len - (i + min (unat r) (len - i)) < len - i"
  using assms by (cases "unat r \<le> len - i") (auto simp: min_def split: if_splits)

function advance_from :: "phase \<Rightarrow> bytes \<Rightarrow> nat \<Rightarrow> bytes \<Rightarrow> phase \<times> nat \<times> bytes" where
  "advance_from p bs i out =
     (if i < length bs then
        if p = Done then (Done, i, out)
        else if p = Broken then (Broken, 0, out)
        else (case data_remaining p of
           Some remaining \<Rightarrow>
             (let n = min (unat remaining) (length bs - i);
                  left = remaining - of_nat n
              in advance_from (if left = 0 then DataCrlf False else Data left) bs (i + n)
                   (out @ subslice i (i + n) bs))
         | None \<Rightarrow>
             (let q = step p (bs ! i)
              in if q = Broken then (Broken, i, out) else advance_from q bs (Suc i) out))
      else (p, i, out))"
  by pat_completeness auto

termination
  by (relation "measures [\<lambda>(p, bs, i, out). length bs - i,
        \<lambda>(p, bs, i, out). if data_remaining p = None then 0 else 1]") (auto intro: data_progress)

declare advance_from.simps [simp del]

definition advance :: "phase \<Rightarrow> bytes \<Rightarrow> phase \<times> nat \<times> bytes" where
  "advance p bs = advance_from p bs 0 []"

definition observe :: "phase \<Rightarrow> bytes \<Rightarrow> phase \<times> nat" where
  "observe p bs = (case advance p bs of (q, k, _) \<Rightarrow> (q, k))"

definition decode_into :: "phase \<Rightarrow> bytes \<Rightarrow> bytes \<Rightarrow> phase \<times> nat \<times> bytes" where
  "decode_into p bs out = (case advance p bs of (q, k, d) \<Rightarrow> (q, k, out @ d))"


section \<open>One byte at a time\<close>

text \<open>The same machine with chunk data stepped byte by byte; \<open>emitted\<close> is what it hands on.\<close>

fun byte_step :: "phase \<Rightarrow> char \<Rightarrow> phase" where
  "byte_step (Data r) b = (if r = 1 then DataCrlf False else Data (r - 1))"
| "byte_step p b = step p b"

fun emitted :: "phase \<Rightarrow> char \<Rightarrow> bytes" where
  "emitted (Data r) b = [b]"
| "emitted p b = []"

fun byte_run :: "phase \<Rightarrow> bytes \<Rightarrow> phase \<times> nat \<times> bytes" where
  "byte_run p [] = (p, 0, [])"
| "byte_run p (b # bs) =
     (if p = Done \<or> p = Broken then (p, 0, [])
      else let q = byte_step p b in
        if q = Broken then (Broken, 0, [])
        else (case byte_run q bs of (r, k, out) \<Rightarrow> (r, Suc k, emitted p b @ out)))"

fun wf_phase :: "phase \<Rightarrow> bool" where
  "wf_phase (Data r) = (r \<noteq> 0)"
| "wf_phase (Size h has_digit) = (has_digit \<or> h = 0)"
| "wf_phase p = True"

lemma wf_byte_step: "wf_phase p \<Longrightarrow> wf_phase (byte_step p b)"
  by (cases p) (auto split: option.splits)

lemma byte_run_terminal [simp]: "p = Done \<or> p = Broken \<Longrightarrow> byte_run p bs = (p, 0, [])"
  by (cases bs) auto

lemma byte_run_Data:
  assumes "r \<noteq> 0"
  shows "byte_run (Data r) bs =
    (if unat r \<le> length bs
     then (case byte_run (DataCrlf False) (drop (unat r) bs) of
             (q, k, out) \<Rightarrow> (q, unat r + k, take (unat r) bs @ out))
     else (Data (r - of_nat (length bs)), length bs, bs))"
  using assms
proof (induction bs arbitrary: r)
  case (Cons b bs)
  show ?case
  proof (cases "r = 1")
    case False
    then have "1 < unat r" using Cons.prems by unat_arith
    with False have m: "unat (r - 1) = unat r - 1" "r - 1 \<noteq> 0" "1 < unat r"
      using Cons.prems unat_minus_one [of r] by simp_all
    have drop: "drop (unat r) (b # bs) = drop (unat r - 1) bs"
      "take (unat r) (b # bs) = b # take (unat r - 1) bs"
      using m(3) by (cases "unat r"; simp)+
    show ?thesis
      using False Cons.IH [OF m(2)] m by (auto simp: drop split: prod.splits)
  qed (simp split: prod.splits)
qed (simp add: unat_gt_0)

lemma data_remaining_Some [simp]: "data_remaining p = Some r \<longleftrightarrow> p = Data r"
  by (cases p) auto

lemma not_data_step: "data_remaining p = None \<Longrightarrow> byte_step p b = step p b \<and> emitted p b = []"
  by (cases p) auto

lemma advance_from_eq:
  assumes "wf_phase p" "p \<noteq> Broken" "i \<le> length bs"
  shows "advance_from p bs i out =
    (case byte_run p (drop i bs) of (q, k, d) \<Rightarrow> (q, i + k, out @ d))"
  using assms
proof (induction p bs i out rule: advance_from.induct)
  case (1 p bs i out)
  note unfold = advance_from.simps [of p bs i out]
  consider "i = length bs" | "i < length bs" "p = Done"
    | r where "i < length bs" "p = Data r" "r \<noteq> 0"
    | "i < length bs" "p \<noteq> Done" "data_remaining p = None"
    using "1.prems" by (cases "data_remaining p") (fastforce simp: le_less)+
  then show ?case
  proof cases
    case (3 r)
    let ?n = "min (unat r) (length bs - i)"
    let ?q = "if r - of_nat ?n = 0 then DataCrlf False else Data (r - of_nat ?n)"
    have IH: "advance_from ?q bs (i + ?n) (out @ subslice i (i + ?n) bs) =
       (case byte_run ?q (drop (i + ?n) bs) of
          (q, k, d) \<Rightarrow> (q, i + ?n + k, (out @ subslice i (i + ?n) bs) @ d))"
      using 3 by (intro "1.IH"(2)) auto
    show ?thesis
    proof (cases "unat r \<le> length bs - i")
      case True
      then show ?thesis
        using 3 IH unfolding 3(2)
        by (simp add: advance_from.simps [of "Data r" bs i out] byte_run_Data
            Let_def subslice_def add.commute add.left_commute min_def split: prod.splits)
    next
      case False
      then have "r \<noteq> word_of_nat (length bs - i)"
        by (auto simp: unsigned_of_nat take_bit_nat_less_eq_self)
      with False show ?thesis
        using 3 IH unfolding 3(2)
        by (simp add: advance_from.simps [of "Data r" bs i out] byte_run_Data
            Let_def subslice_def min_def)
    qed
  next
    case 4
    let ?q = "step p (bs ! i)"
    have ds: "drop i bs = bs ! i # drop (Suc i) bs" using 4 by (simp add: Cons_nth_drop_Suc)
    have wf: "wf_phase ?q"
      using wf_byte_step [OF "1.prems"(1), of "bs ! i"] 4 by (simp add: not_data_step)
    have IH: "?q \<noteq> Broken \<Longrightarrow> advance_from ?q bs (Suc i) out =
        (case byte_run ?q (drop (Suc i) bs) of (q, k, d) \<Rightarrow> (q, Suc i + k, out @ d))"
      using 4 wf "1.prems"(2) by (intro "1.IH"(1)) auto
    have "advance_from p bs i out =
        (if ?q = Broken then (Broken, i, out) else advance_from ?q bs (Suc i) out)"
      using 4 "1.prems"(2) unfolding unfold by (simp add: Let_def)
    then show ?thesis
      using 4 "1.prems"(2) IH by (simp add: ds not_data_step split: prod.splits)
  qed (simp_all add: advance_from.simps [of _ bs])
qed

lemma advance_eq: "wf_phase p \<Longrightarrow> advance p bs = byte_run p bs"
proof (cases "p = Broken")
  case True
  then show ?thesis by (simp add: advance_def advance_from.simps)
qed (simp add: advance_def advance_from_eq)

lemma byte_run_append:
  "byte_run p (xs @ ys) =
     (case byte_run p xs of (q, k, d) \<Rightarrow> case byte_run q ys of (r, l, e) \<Rightarrow> (r, k + l, d @ e))"
  by (induction xs arbitrary: p) (auto simp: Let_def split: prod.splits)

lemma wf_byte_run: "wf_phase p \<Longrightarrow> wf_phase (fst (byte_run p bs))"
proof (induction bs arbitrary: p)
  case (Cons b bs)
  then show ?case
    using Cons.IH [OF wf_byte_step [OF Cons.prems, of b]] by (auto simp: Let_def split: prod.splits)
qed simp

text \<open>A connection's reads in order, each handed to \<open>decode_into\<close> as it arrives.\<close>

fun advance_reads :: "phase \<Rightarrow> bytes list \<Rightarrow> phase \<times> nat \<times> bytes" where
  "advance_reads p [] = (p, 0, [])"
| "advance_reads p (r # rs) =
     (case advance p r of (q, k, d) \<Rightarrow> case advance_reads q rs of (s, l, e) \<Rightarrow> (s, k + l, d @ e))"

lemma advance_reads_eq: "wf_phase p \<Longrightarrow> advance_reads p rs = byte_run p (concat rs)"
proof (induction rs arbitrary: p)
  case (Cons r rs)
  then show ?case
    using wf_byte_run [OF Cons.prems, of r]
    by (auto simp: advance_eq byte_run_append split: prod.splits)
qed simp

section \<open>The chunked grammar\<close>

text \<open>
  RFC 9112 7.1 as the proxy accepts it: a size of at least one hex digit below \<open>2 ^ 64\<close>,
  an optional extension of field-value bytes, CRLF line ends only, trailer lines that are
  fields, and the blank line that ends the message.
\<close>

fun hex_value :: "nat \<Rightarrow> bytes \<Rightarrow> nat option" where
  "hex_value v [] = Some v"
| "hex_value v (b # bs) =
     (case hex_nibble b of None \<Rightarrow> None | Some n \<Rightarrow> hex_value (16 * v + n) bs)"

definition chunk_ext :: "bytes \<Rightarrow> bool" where
  "chunk_ext e \<longleftrightarrow> e = [] \<or> (\<exists>s. e = CHR '';'' # s \<and> (\<forall>b \<in> set s. is_field_value_byte b))"

definition size_line :: "bytes \<Rightarrow> nat \<Rightarrow> bool" where
  "size_line s n \<longleftrightarrow>
     (\<exists>h e. s = h @ e \<and> h \<noteq> [] \<and> hex_value 0 h = Some n \<and> n < 2 ^ 64 \<and> chunk_ext e)"

definition trailer_line :: "bytes \<Rightarrow> bool" where
  "trailer_line l \<longleftrightarrow> l \<noteq> [] \<and> hd l \<notin> {CHR '' '', CHR 0x09, CHR '':''} \<and>
     (\<forall>b \<in> set l. is_field_value_byte b) \<and> CHR '':'' \<in> set l"

inductive trailer_section :: "bytes \<Rightarrow> bool" where
  blank_line: "trailer_section CRLF"
| field_line: "trailer_line l \<Longrightarrow> trailer_section t \<Longrightarrow> trailer_section (l @ CRLF @ t)"

inductive chunked_msg :: "bytes \<Rightarrow> bytes \<Rightarrow> bool" where
  last_chunk: "size_line s 0 \<Longrightarrow> trailer_section t \<Longrightarrow> chunked_msg (s @ CRLF @ t) []"
| chunk: "size_line s (length d) \<Longrightarrow> d \<noteq> [] \<Longrightarrow> chunked_msg m p \<Longrightarrow>
     chunked_msg (s @ CRLF @ d @ CRLF @ m) (d @ p)"


subsection \<open>Every message of the grammar is taken\<close>

lemma hex_nibble_less: "hex_nibble b = Some n \<Longrightarrow> n < 16"
  by (auto simp: hex_nibble_def is_ascii_digit_def split: if_splits)

lemma shift_hex_Some_iff:
  assumes "n < 16"
  shows "shift_hex h n = Some h' \<longleftrightarrow> 16 * unat h + n < 2 ^ 64 \<and> h' = of_nat (16 * unat h + n)"
proof -
  have "drop_bit 60 h = 0 \<longleftrightarrow> unat (drop_bit 60 h) = 0" by (simp add: unat_eq_zero)
  also have "\<dots> \<longleftrightarrow> unat h div 2 ^ 60 = 0" by (simp add: drop_bit_eq_div unat_div)
  also have "\<dots> \<longleftrightarrow> 16 * unat h + n < 2 ^ 64" using assms by (auto simp: div_eq_0_iff)
  finally have guard: "drop_bit 60 h = 0 \<longleftrightarrow> 16 * unat h + n < 2 ^ 64" .
  have "take_bit 4 (word_of_nat n :: u64) = word_of_nat n"
    using assms by (simp add: take_bit_of_nat take_bit_nat_eq_self)
  then have "push_bit 4 h AND word_of_nat n = 0"
    by (intro bit_word_eqI) (metis bit_and_iff bit_push_bit_iff bit_take_bit_iff bit_0_eq bot_apply bot_bool_def not_le)
  then have "push_bit 4 h OR of_nat n = push_bit 4 h + of_nat n"
    by (rule disjunctive_add_eq_or [symmetric])
  also have "\<dots> = of_nat (16 * unat h + n)"
    by (simp add: push_bit_eq_mult mult.commute)
  finally show ?thesis using guard by (auto simp: shift_hex_def)
qed


lemma hex_value_mono: "hex_value v h = Some n \<Longrightarrow> v \<le> n"
  by (induction h arbitrary: v) (auto split: option.splits, fastforce)

text \<open>Where the observer stands in front of a wire: the grammar that remains in each phase.\<close>

definition body_rest :: "nat \<Rightarrow> bytes \<Rightarrow> bytes \<Rightarrow> bool" where
  "body_rest n w p \<longleftrightarrow>
     (if n = 0 then trailer_section w \<and> p = []
      else \<exists>d m q. w = d @ CRLF @ m \<and> length d = n \<and> chunked_msg m q \<and> p = d @ q)"

definition ext_rest :: "nat \<Rightarrow> bytes \<Rightarrow> bytes \<Rightarrow> bool" where
  "ext_rest n w p \<longleftrightarrow>
     (\<exists>e m. w = e @ CRLF @ m \<and> (\<forall>b \<in> set e. is_field_value_byte b) \<and> body_rest n m p)"

definition size_rest :: "nat \<Rightarrow> bool \<Rightarrow> bytes \<Rightarrow> bytes \<Rightarrow> bool" where
  "size_rest v has_digit w p \<longleftrightarrow>
     (\<exists>h e m n. w = h @ e @ CRLF @ m \<and> (has_digit \<or> h \<noteq> []) \<and> hex_value v h = Some n \<and>
        n < 2 ^ 64 \<and> chunk_ext e \<and> body_rest n m p)"

definition line_rest :: "bool \<Rightarrow> bytes \<Rightarrow> bool" where
  "line_rest saw_colon w \<longleftrightarrow>
     (\<exists>l t. w = l @ CRLF @ t \<and> (\<forall>b \<in> set l. is_field_value_byte b) \<and>
        (saw_colon \<or> CHR '':'' \<in> set l) \<and> trailer_section t)"

fun rest :: "phase \<Rightarrow> bytes \<Rightarrow> bytes \<Rightarrow> bool" where
  "rest (Size h d) w p = size_rest (unat h) d w p"
| "rest (SizeExt s) w p = ext_rest (unat s) w p"
| "rest (SizeCrlf s) w p = (\<exists>m. w = CHR 0x0A # m \<and> body_rest (unat s) m p)"
| "rest (Data r) w p = (unat r \<noteq> 0 \<and> body_rest (unat r) w p)"
| "rest (DataCrlf c) w p =
     (\<exists>m. w = (if c then [CHR 0x0A] else CRLF) @ m \<and> chunked_msg m p)"
| "rest TrailerLineStart w p = (trailer_section w \<and> p = [])"
| "rest (TrailerLine c) w p = (line_rest c w \<and> p = [])"
| "rest (TrailerCr blank) w p =
     (\<exists>t. w = CHR 0x0A # t \<and> (if blank then t = [] else trailer_section t) \<and> p = [])"
| "rest Done w p = (w = [] \<and> p = [])"
| "rest Broken w p = False"

lemma chunked_msg_size_rest: "chunked_msg w p \<longleftrightarrow> size_rest 0 False w p"
proof
  assume "chunked_msg w p"
  then show "size_rest 0 False w p"
    by cases (fastforce simp: size_rest_def size_line_def body_rest_def)+
next
  assume "size_rest 0 False w p"
  then obtain h e m n where w: "w = h @ e @ CRLF @ m" "h \<noteq> []" "hex_value 0 h = Some n"
      "n < 2 ^ 64" "chunk_ext e" and body: "body_rest n m p"
    by (auto simp: size_rest_def)
  then have size: "size_line (h @ e) n" by (auto simp: size_line_def)
  show "chunked_msg w p"
  proof (cases "n = 0")
    case True
    with size body w(1) chunked_msg.last_chunk [of "h @ e" m] show ?thesis
      by (simp add: body_rest_def)
  next
    case False
    with body obtain d m' q where "m = d @ CRLF @ m'" "length d = n" "chunked_msg m' q" "p = d @ q"
      by (auto simp: body_rest_def)
    with False size w(1) chunked_msg.chunk [of "h @ e" d m' q] show ?thesis
      by auto
  qed
qed

lemma CR_not_value [simp]: "\<not> is_field_value_byte (CHR 0x0D)"
  by (simp add: is_field_value_byte_def is_VALUE)

lemma colon_value [simp]: "is_field_value_byte (CHR '':'')"
  by (simp add: is_field_value_byte_def is_VALUE VALUE_HOLES_def any_of_def)

lemma HTAB_value [simp]: "is_field_value_byte (CHR 0x09)"
  by (simp add: is_field_value_byte_def is_VALUE)

lemma CR_not_hex [simp]: "hex_nibble (CHR 0x0D) = None"
  by (simp add: hex_nibble_def is_ascii_digit_def)

lemma semicolon_not_hex [simp]: "hex_nibble (CHR '';'') = None"
  by (simp add: hex_nibble_def is_ascii_digit_def)


lemma unat_u64_bound [simp]: "unat (h :: u64) < 18446744073709551616"
  using unsigned_less [of h, where ?'a = nat] by simp

lemma size_rest_digit:
  assumes "hex_nibble b = Some n"
  shows "size_rest v d (b # w) p \<longleftrightarrow> 16 * v + n < 2 ^ 64 \<and> size_rest (16 * v + n) True w p"
proof
  assume "size_rest v d (b # w) p"
  then obtain h e m k where w: "b # w = h @ e @ CRLF @ m" "hex_value v h = Some k" "k < 2 ^ 64"
      "chunk_ext e" "body_rest k m p"
    by (auto simp: size_rest_def)
  have "h \<noteq> []" using w(1,4) assms by (auto simp: chunk_ext_def)
  then obtain h' where h: "h = b # h'" using w(1) by (cases h) auto
  with w assms have k: "hex_value (16 * v + n) h' = Some k" by simp
  with w h hex_value_mono [OF k] show "16 * v + n < 2 ^ 64 \<and> size_rest (16 * v + n) True w p"
    by (auto simp: size_rest_def)
next
  assume "16 * v + n < 2 ^ 64 \<and> size_rest (16 * v + n) True w p"
  then obtain h e m k where "w = h @ e @ CRLF @ m" "hex_value (16 * v + n) h = Some k" "k < 2 ^ 64"
      "chunk_ext e" "body_rest k m p"
    by (auto simp: size_rest_def)
  with assms show "size_rest v d (b # w) p"
    unfolding size_rest_def
    by (intro exI [of _ "b # h"] exI [of _ e] exI [of _ m] exI [of _ k]) simp
qed

lemma size_rest_other:
  assumes "hex_nibble b = None" "v < 2 ^ 64"
  shows "size_rest v d (b # w) p \<longleftrightarrow>
    d \<and> (b = CHR '';'' \<and> ext_rest v w p
        \<or> b = CHR 0x0D \<and> (\<exists>m. w = CHR 0x0A # m \<and> body_rest v m p))"
    (is "_ \<longleftrightarrow> ?rhs")
proof
  assume "size_rest v d (b # w) p"
  then obtain h e m k where w: "b # w = h @ e @ CRLF @ m" "d \<or> h \<noteq> []" "hex_value v h = Some k"
      "chunk_ext e" "body_rest k m p"
    by (auto simp: size_rest_def)
  have h: "h = []" using w(1,3) assms by (cases h) auto
  with w have d: "d" "k = v" by auto
  from w(4) consider "e = []" | f where "e = CHR '';'' # f" "\<forall>c \<in> set f. is_field_value_byte c"
    by (auto simp: chunk_ext_def)
  then show ?rhs
  proof cases
    case (2 f)
    with w h d show ?thesis by (auto simp: ext_rest_def)
  qed (use w h d in auto)
next
  assume ?rhs
  then show "size_rest v d (b # w) p"
  proof (elim conjE disjE exE)
    assume d: "d" and b: "b = CHR '';''" and "ext_rest v w p"
    then obtain e m where "w = e @ CRLF @ m" "\<forall>c \<in> set e. is_field_value_byte c" "body_rest v m p"
      by (auto simp: ext_rest_def)
    with d b assms(2) show ?thesis
      unfolding size_rest_def chunk_ext_def
      by (intro exI [of _ "[]"] exI [of _ "CHR '';'' # e"] exI [of _ m] exI [of _ v]) simp
  next
    fix m assume "d" "b = CHR 0x0D" "w = CHR 0x0A # m" "body_rest v m p"
    with assms(2) show ?thesis
      unfolding size_rest_def chunk_ext_def
      by (intro exI [of _ "[]"] exI [of _ "[]"] exI [of _ m] exI [of _ v]) simp
  qed
qed

lemma ext_rest_Cons:
  "ext_rest n (b # w) p \<longleftrightarrow>
     (b = CHR 0x0D \<and> (\<exists>m. w = CHR 0x0A # m \<and> body_rest n m p) \<or>
      is_field_value_byte b \<and> ext_rest n w p)"
  (is "?lhs \<longleftrightarrow> ?rhs")
proof
  assume ?lhs
  then obtain e m where "b # w = e @ CRLF @ m" "\<forall>c \<in> set e. is_field_value_byte c" "body_rest n m p"
    by (auto simp: ext_rest_def)
  then show ?rhs by (cases e) (auto simp: ext_rest_def)
next
  assume ?rhs
  then show ?lhs
  proof (elim disjE conjE exE)
    fix m assume "b = CHR 0x0D" "w = CHR 0x0A # m" "body_rest n m p"
    then show ?lhs unfolding ext_rest_def by (intro exI [of _ "[]"] exI [of _ m]) simp
  next
    assume b: "is_field_value_byte b" and "ext_rest n w p"
    then obtain e m where "w = e @ CRLF @ m" "\<forall>c \<in> set e. is_field_value_byte c" "body_rest n m p"
      by (auto simp: ext_rest_def)
    with b show ?lhs unfolding ext_rest_def by (intro exI [of _ "b # e"] exI [of _ m]) simp
  qed
qed

lemma line_rest_Cons:
  "line_rest c (b # w) \<longleftrightarrow>
     (b = CHR 0x0D \<and> c \<and> (\<exists>t. w = CHR 0x0A # t \<and> trailer_section t) \<or>
      is_field_value_byte b \<and> line_rest (c \<or> b = CHR '':'') w)"
  (is "?lhs \<longleftrightarrow> ?rhs")
proof
  assume ?lhs
  then obtain l t where "b # w = l @ CRLF @ t" "\<forall>b \<in> set l. is_field_value_byte b"
      "c \<or> CHR '':'' \<in> set l" "trailer_section t"
    by (auto simp: line_rest_def)
  then show ?rhs by (cases l) (auto simp: line_rest_def)
next
  assume ?rhs
  then show ?lhs
  proof (elim disjE conjE exE)
    fix t assume "b = CHR 0x0D" "c" "w = CHR 0x0A # t" "trailer_section t"
    then show ?lhs unfolding line_rest_def by (intro exI [of _ "[]"] exI [of _ t]) simp
  next
    assume b: "is_field_value_byte b" and "line_rest (c \<or> b = CHR '':'') w"
    then obtain l t where "w = l @ CRLF @ t" "\<forall>b \<in> set l. is_field_value_byte b"
      "(c \<or> b = CHR '':'') \<or> CHR '':'' \<in> set l" "trailer_section t"
      unfolding line_rest_def by blast
    with b show ?lhs unfolding line_rest_def by (intro exI [of _ "b # l"] exI [of _ t]) auto
  qed
qed

lemma trailer_section_Cons:
  "trailer_section (b # w) \<longleftrightarrow>
     (b = CHR 0x0D \<and> w = [CHR 0x0A] \<or>
      b \<notin> {CHR '' '', CHR 0x09, CHR '':''} \<and> is_field_value_byte b \<and> line_rest False w)"
  (is "?lhs \<longleftrightarrow> ?rhs")
proof
  assume ?lhs
  then show ?rhs
  proof cases
    case (field_line l t)
    then show ?thesis by (cases l) (auto simp: trailer_line_def line_rest_def)
  qed auto
next
  assume ?rhs
  then show ?lhs
  proof (elim disjE conjE)
    assume b: "b \<notin> {CHR '' '', CHR 0x09, CHR '':''}" "is_field_value_byte b" and "line_rest False w"
    then obtain l t where "w = l @ CRLF @ t" "\<forall>b \<in> set l. is_field_value_byte b"
      "CHR '':'' \<in> set l" "trailer_section t"
      by (auto simp: line_rest_def)
    with b trailer_section.field_line [of "b # l" t] show ?lhs by (auto simp: trailer_line_def)
  qed (use trailer_section.blank_line in auto)
qed

lemma body_rest_Cons:
  assumes "n \<noteq> 0"
  shows "body_rest n (b # w) p \<longleftrightarrow>
    (\<exists>q. p = b # q \<and> (if n = 1 then (\<exists>m. w = CRLF @ m \<and> chunked_msg m q) else body_rest (n - 1) w q))"
  (is "?lhs \<longleftrightarrow> ?rhs")
proof
  assume ?lhs
  then obtain d m q where "b # w = d @ CRLF @ m" "length d = n" "chunked_msg m q" "p = d @ q"
    using assms by (auto simp: body_rest_def)
  with assms show ?rhs by (cases d) (auto simp: body_rest_def)
next
  assume ?rhs
  then obtain q where q: "p = b # q"
      "if n = 1 then (\<exists>m. w = CRLF @ m \<and> chunked_msg m q) else body_rest (n - 1) w q" by blast
  show ?lhs
  proof (cases "n = 1")
    case True
    with q obtain m where "b # w = [b] @ CRLF @ m" "chunked_msg m q" "p = [b] @ q" by auto
    with True show ?thesis unfolding body_rest_def by (metis One_nat_def length_Cons list.size(3) zero_neq_one)
  next
    case False
    with q assms obtain d m r where "w = d @ CRLF @ m" "length d = n - 1" "chunked_msg m r" "q = d @ r"
      by (auto simp: body_rest_def)
    with q False assms have "b # w = (b # d) @ CRLF @ m" "length (b # d) = n" "chunked_msg m r" "p = (b # d) @ r"
      by auto
    with assms show ?thesis unfolding body_rest_def by metis
  qed
qed


lemma rest_Nil: "rest p [] out \<longleftrightarrow> p = Done \<and> out = []"
  by (cases p) (auto simp: size_rest_def ext_rest_def line_rest_def body_rest_def elim: trailer_section.cases)

lemma rest_Cons:
  assumes "wf_phase p" "p \<noteq> Done" "p \<noteq> Broken"
  shows "rest p (b # w) out \<longleftrightarrow>
    byte_step p b \<noteq> Broken \<and> (\<exists>o'. out = emitted p b @ o' \<and> rest (byte_step p b) w o')"
proof (cases p)
  case (Size h d)
  show ?thesis
  proof (cases "hex_nibble b")
    case None
    then show ?thesis using Size by (cases d) (auto simp: size_rest_other)
  next
    case (Some n)
    have "shift_hex h n = (if 16 * unat h + n < 2 ^ 64 then Some (of_nat (16 * unat h + n)) else None)"
      using shift_hex_Some_iff [OF hex_nibble_less [OF Some], of h]
      by (cases "shift_hex h n") (auto split: if_splits)
    moreover have "16 * unat h + n < 2 ^ 64 \<Longrightarrow> unat (of_nat (16 * unat h + n) :: u64) = 16 * unat h + n"
      by (simp add: unsigned_of_nat take_bit_nat_eq_self del: of_nat_add of_nat_mult)
    ultimately show ?thesis using Size Some by (auto simp: size_rest_digit)
  qed
next
  case (SizeExt s)
  then show ?thesis by (auto simp: ext_rest_Cons)
next
  case (Data r)
  then have r: "unat r \<noteq> 0" using assms(1) by (simp add: unat_eq_zero)
  show ?thesis
  proof (cases "r = 1")
    case False
    then have "unat r \<noteq> 1" by unat_arith
    moreover have "unat (r - 1) = unat r - 1" using assms(1) Data by (simp add: unat_minus_one)
    ultimately show ?thesis using Data r False body_rest_Cons [OF r] by auto
  qed (use Data r body_rest_Cons [OF r] in auto)
next
  case (TrailerLine c)
  then show ?thesis by (auto simp: line_rest_Cons)
next
  case TrailerLineStart
  then show ?thesis by (auto simp: trailer_section_Cons)
qed (use assms in \<open>auto simp: unat_eq_zero body_rest_def chunked_msg_size_rest split: if_splits\<close>)

lemma byte_run_Done_iff:
  "wf_phase p \<Longrightarrow> p \<noteq> Broken \<Longrightarrow> byte_run p w = (Done, length w, out) \<longleftrightarrow> rest p w out"
proof (induction w arbitrary: p out)
  case Nil
  then show ?case by (auto simp: rest_Nil)
next
  case (Cons b w)
  show ?case
  proof (cases "p = Done")
    case False
    note rest = rest_Cons [OF Cons.prems(1) False Cons.prems(2), of b w out]
    show ?thesis
    proof (cases "byte_step p b = Broken")
      case step: False
      have "rest (byte_step p b) w d \<longleftrightarrow> byte_run (byte_step p b) w = (Done, length w, d)" for d
        using Cons.IH [OF wf_byte_step [OF Cons.prems(1)] step] by simp
      with rest step False Cons.prems show ?thesis
        by (cases "byte_run (byte_step p b) w") auto
    qed (use rest False Cons.prems in simp)
  qed simp
qed

lemma byte_run_take:
  "byte_run p bs = (q, k, out) \<Longrightarrow> q \<noteq> Broken \<Longrightarrow> k \<le> length bs \<and> byte_run p (take k bs) = (q, k, out)"
proof (induction bs arbitrary: p k out)
  case (Cons b bs)
  obtain r l d where run: "byte_run (byte_step p b) bs = (r, l, d)" by (cases "byte_run (byte_step p b) bs")
  with Cons.prems Cons.IH [of "byte_step p b" l d] show ?case
    by (auto simp: Let_def split: if_splits)
qed simp

lemma wf_chunked_new [simp]: "wf_phase chunked_new" "chunked_new \<noteq> Broken"
  by (simp_all add: chunked_new_def)

lemma byte_run_new_iff: "byte_run chunked_new w = (Done, length w, out) \<longleftrightarrow> chunked_msg w out"
  by (simp add: byte_run_Done_iff chunked_msg_size_rest) (simp add: chunked_new_def)


subsection \<open>A phase that is not broken can still end a message\<close>

lemma trailer_section_CRLF: "trailer_section CRLF"
  by (rule trailer_section.blank_line)

lemma empty_msg: "chunked_msg (CHR ''0'' # CRLF @ CRLF) []"
proof -
  have "size_line [CHR ''0''] 0"
    unfolding size_line_def chunk_ext_def
    by (intro exI [of _ "[CHR ''0'']"] exI [of _ "[]"]) (simp add: hex_nibble_def is_ascii_digit_def)
  from chunked_msg.last_chunk [OF this trailer_section_CRLF] show ?thesis by simp
qed

lemma body_rest_ex: "\<exists>w out. body_rest n w out"
proof (cases "n = 0")
  case True
  then show ?thesis using trailer_section_CRLF by (auto simp: body_rest_def)
next
  case False
  then have "body_rest n (replicate n (CHR ''x'') @ CRLF @ CHR ''0'' # CRLF @ CRLF) (replicate n (CHR ''x'') @ [])"
    unfolding body_rest_def using empty_msg by (metis length_replicate)
  then show ?thesis by blast
qed

lemma rest_ex:
  assumes "wf_phase p" "p \<noteq> Broken"
  shows "\<exists>w out. rest p w out"
proof (cases p)
  case (Size h d)
  obtain w out where body: "body_rest (unat h) w out" using body_rest_ex by blast
  show ?thesis
  proof (cases d)
    case True
    then have "size_rest (unat h) d (CRLF @ w) out"
      using body by (simp add: size_rest_other)
    then show ?thesis using Size by auto
  next
    case False
    then show ?thesis
      using Size assms empty_msg by (simp add: chunked_msg_size_rest) blast
  qed
next
  case (SizeExt s)
  obtain w out where "body_rest (unat s) w out" using body_rest_ex by blast
  then have "ext_rest (unat s) (CRLF @ w) out" by (simp add: ext_rest_Cons)
  with SizeExt show ?thesis by auto
next
  case (TrailerLine c)
  have "line_rest c (CHR '':'' # CRLF @ CRLF)"
    using trailer_section_CRLF by (simp add: line_rest_Cons)
  with TrailerLine show ?thesis by auto
next
  case (Data r)
  then show ?thesis using body_rest_ex [of "unat r"] assms by (auto simp: unat_eq_zero)
next
  case (SizeCrlf s)
  obtain w out where "body_rest (unat s) w out" using body_rest_ex by blast
  with SizeCrlf show ?thesis by auto
next
  case (TrailerCr b)
  then show ?thesis using trailer_section_CRLF by (cases b) auto
qed (use assms body_rest_ex empty_msg trailer_section_CRLF in auto)

lemma byte_run_live:
  "byte_run p bs = (q, k, out) \<Longrightarrow> q \<noteq> Broken \<Longrightarrow> q \<noteq> Done \<Longrightarrow> k = length bs"
proof (induction bs arbitrary: p k out)
  case (Cons b bs)
  obtain r l d where run: "byte_run (byte_step p b) bs = (r, l, d)" by (cases "byte_run (byte_step p b) bs")
  with Cons.prems Cons.IH [of "byte_step p b" l d] show ?case
    by (auto simp: Let_def split: if_splits)
qed simp

lemma advance_new: "advance chunked_new bs = byte_run chunked_new bs"
  by (simp add: advance_eq)

lemma byte_run_new_Done_iff:
  "byte_run chunked_new bs = (Done, k, out) \<longleftrightarrow> k \<le> length bs \<and> chunked_msg (take k bs) out"
proof
  assume "byte_run chunked_new bs = (Done, k, out)"
  then have "k \<le> length bs" "byte_run chunked_new (take k bs) = (Done, k, out)"
    using byte_run_take by blast+
  then show "k \<le> length bs \<and> chunked_msg (take k bs) out"
    using byte_run_new_iff [of "take k bs" out] by simp
next
  assume k: "k \<le> length bs \<and> chunked_msg (take k bs) out"
  then have "byte_run chunked_new (take k bs) = (Done, k, out)"
    using byte_run_new_iff [of "take k bs"] by simp
  then show "byte_run chunked_new bs = (Done, k, out)"
    using byte_run_append [of chunked_new "take k bs" "drop k bs"] by simp
qed

section \<open>Properties\<close>

text \<open>
  C1. The observer finds the end of a chunked message exactly: from a fresh stream it
  terminates having consumed \<open>k\<close> bytes and decoded \<open>out\<close> if and only if the first \<open>k\<close> bytes
  are a message of the chunked grammar whose payload is \<open>out\<close>. Bytes past the terminator
  (a pipelined next message) are never consumed, and a terminator look-alike inside chunk
  data never ends the stream.
\<close>

theorem chunked_message_boundary:
  "decode_into chunked_new bs [] = (Done, k, out) \<longleftrightarrow>
     k \<le> length bs \<and> chunked_msg (take k bs) out"
  by (simp add: decode_into_def advance_new byte_run_new_Done_iff split: prod.splits)

text \<open>
  C2. Where reads cut the wire does not matter: observing a list of reads one after the
  other leaves the same phase, consumed count and payload as observing their concatenation.
\<close>

theorem chunked_reads_compose: "advance_reads chunked_new rs = advance chunked_new (concat rs)"
  by (simp add: advance_reads_eq advance_new)

text \<open>
  C3. The stream turns \<open>Broken\<close> exactly when nothing can save it: if and only if neither a
  prefix of the bytes nor any continuation of them is a chunked message.
\<close>

theorem chunked_broken_iff:
  "is_broken (fst (observe chunked_new bs)) \<longleftrightarrow>
     \<not> (\<exists>w out. chunked_msg w out \<and> (prefix w bs \<or> prefix bs w))"
proof -
  obtain q k d where run: "byte_run chunked_new bs = (q, k, d)" by (cases "byte_run chunked_new bs")
  have "q = Broken \<longleftrightarrow> \<not> (\<exists>w out. chunked_msg w out \<and> (prefix w bs \<or> prefix bs w))"
  proof (cases "q = Broken \<or> q = Done")
    case False
    then have k: "k = length bs" and wf: "wf_phase q" "q \<noteq> Broken"
      using byte_run_live [OF run] wf_byte_run [of chunked_new bs] run by auto
    obtain w out where "rest q w out" using rest_ex [OF wf] by blast
    then have "byte_run chunked_new (bs @ w) = (Done, length (bs @ w), d @ out)"
      using run k by (simp add: byte_run_append byte_run_Done_iff [OF wf, symmetric])
    then have "chunked_msg (bs @ w) (d @ out)" by (simp only: byte_run_new_iff)
    with False show ?thesis by auto
  next
    case True
    then show ?thesis
    proof
      assume "q = Done"
      with run have "chunked_msg (take k bs) d" by (simp add: byte_run_new_Done_iff)
      with \<open>q = Done\<close> take_is_prefix show ?thesis by auto
    next
      assume q: "q = Broken"
      have "\<not> chunked_msg w out" if "prefix w bs" for w out
        using byte_run_new_Done_iff [of bs "length w" out] that run q by (auto simp: prefix_def)
      moreover have "\<not> chunked_msg w out" if "prefix bs w" for w out
        using byte_run_new_iff [of w out] that run q by (auto simp: prefix_def byte_run_append)
      ultimately show ?thesis using q by blast
    qed
  qed
  then show ?thesis by (simp add: observe_def advance_new run is_broken_def)
qed

end
