(* ===== verification/Http_Method.thy ===== *)
theory Http_Method
  imports Portail_Prelude
begin

text \<open>
  What an HTTP method looks like on the wire (\<open>src/src/proxy/method.rs\<close>), and the sniff that
  splits HTTP from opaque TCP on a shared port (\<open>is_http_request\<close> of
  \<open>src/src/proxy/request_processor.rs\<close>). The sniff and the validator of configured methods
  use one alphabet; that they agree is proved here.
\<close>

definition MAX_METHOD_LEN :: nat where "MAX_METHOD_LEN = 20"
definition MIN_METHOD_LEN :: nat where "MIN_METHOD_LEN = 3"

definition is_method_byte :: "char \<Rightarrow> bool" where
  "is_method_byte b \<longleftrightarrow> is_ascii_uppercase b \<or> b = CHR ''-''"

text \<open>The \<open>for\<close> loop of \<open>method_len\<close>, from index \<open>i\<close>; it looks at indices 1 to 20.\<close>

fun method_len_from :: "nat \<Rightarrow> bytes \<Rightarrow> nat option" where
  "method_len_from i [] = None"
| "method_len_from i (b # bs) =
     (if i > MAX_METHOD_LEN then None
      else if b = CHR '' '' then (if i \<ge> MIN_METHOD_LEN then Some i else None)
      else if \<not> is_method_byte b then None
      else method_len_from (Suc i) bs)"

definition method_len :: "bytes \<Rightarrow> nat option" where
  "method_len data =
     (case data of [] \<Rightarrow> None
      | b # bs \<Rightarrow> if is_ascii_uppercase b then method_len_from 1 bs else None)"

definition is_idempotent :: "bytes \<Rightarrow> bool" where
  "is_idempotent m \<longleftrightarrow> m \<in> {''GET'', ''HEAD'', ''OPTIONS'', ''TRACE'', ''PUT'', ''DELETE''}"

definition is_valid_method :: "bytes \<Rightarrow> bool" where
  "is_valid_method m \<longleftrightarrow>
     MIN_METHOD_LEN \<le> length m \<and> length m \<le> MAX_METHOD_LEN \<and> is_ascii_alphabetic (m ! 0) \<and>
     (\<forall>b \<in> set m. is_method_byte (u8_to_ascii_uppercase b))"

definition is_http_request :: "bytes \<Rightarrow> bool" where
  "is_http_request data \<longleftrightarrow>
     length data \<ge> 4 \<and>
     (take 4 data \<in> {''GET '', ''POST'', ''PUT '', ''DELE'', ''HEAD'', ''OPTI'', ''PATC''}
      \<or> method_len data \<noteq> None)"

lemma space_not_method_byte [simp]: "\<not> is_method_byte (CHR '' '')"
  by (simp add: is_method_byte_def is_ascii_uppercase_def)

lemma method_len_from_Some_iff:
  "method_len_from i bs = Some n \<longleftrightarrow>
     i \<le> n \<and> MIN_METHOD_LEN \<le> n \<and> n \<le> MAX_METHOD_LEN \<and> n - i < length bs \<and>
     bs ! (n - i) = CHR '' '' \<and> (\<forall>j < n - i. is_method_byte (bs ! j))"
proof (induction i bs rule: method_len_from.induct)
  case (2 i b bs)
  consider "n < i" | "n = i" | m where "n = Suc (i + m)"
    by (metis add_Suc_right less_iff_Suc_add linorder_neqE_nat)
  then show ?case
  proof cases
    case (3 m)
    have "(\<forall>j < Suc m. is_method_byte ((b # bs) ! j)) \<longleftrightarrow>
        is_method_byte b \<and> (\<forall>j < m. is_method_byte (bs ! j))"
      by (auto simp: less_Suc_eq_0_disj)
    with 3 2 show ?thesis by auto
  qed (use 2 in auto)
qed simp

lemma method_len_Some_iff:
  "method_len data = Some n \<longleftrightarrow>
     MIN_METHOD_LEN \<le> n \<and> n \<le> MAX_METHOD_LEN \<and> n < length data \<and> data ! n = CHR '' '' \<and>
     is_ascii_uppercase (data ! 0) \<and> (\<forall>j < n. is_method_byte (data ! j))"
proof (cases data)
  case (Cons b bs)
  have "n - 1 < length bs \<longleftrightarrow> n < length data" if "1 \<le> n" using Cons that by auto
  moreover have "bs ! (n - 1) = data ! n" if "1 \<le> n" using Cons that by (cases n) auto
  moreover have "(\<forall>j < n. is_method_byte (data ! j)) \<longleftrightarrow> is_method_byte b \<and> (\<forall>j < n - 1. is_method_byte (bs ! j))"
    if "1 \<le> n" using Cons that by (cases n) (auto simp: All_less_Suc2)
  ultimately show ?thesis
    using Cons by (auto simp: method_len_def method_len_from_Some_iff is_method_byte_def MIN_METHOD_LEN_def)
qed (simp add: method_len_def)


text \<open>Uppercasing a configured method gives its wire form.\<close>

lemma alphabetic_uppercased:
  "is_ascii_alphabetic c \<Longrightarrow> is_ascii_uppercase (u8_to_ascii_uppercase c)"
  by (cases c) (auto simp: ascii_defs of_bool_def split: if_splits)

lemma uppercase_alphabetic:
  "is_ascii_uppercase (u8_to_ascii_uppercase c) \<Longrightarrow> is_ascii_alphabetic c"
  by (auto simp: u8_to_ascii_uppercase_def is_ascii_alphabetic_def split: if_splits)

lemma valid_method_iff_method_len:
  "is_valid_method m \<longleftrightarrow> method_len (map u8_to_ascii_uppercase m @ CHR '' '' # rest) = Some (length m)"
proof (cases "m = []")
  case False
  then show ?thesis
    by (auto simp: is_valid_method_def method_len_Some_iff nth_append all_set_conv_all_nth
        alphabetic_uppercased uppercase_alphabetic)
qed (simp add: is_valid_method_def method_len_Some_iff MIN_METHOD_LEN_def)

text \<open>
  C4. The sniff and the validator of configured methods agree: a method is valid in a route
  exactly when its wire form, followed by the space of the request line, is read by the
  sniff as a method of that length. Such a request is never taken for opaque TCP.
\<close>

theorem sniff_agrees_with_validator:
  "(is_valid_method m \<longleftrightarrow>
      method_len (map u8_to_ascii_uppercase m @ CHR '' '' # rest) = Some (length m)) \<and>
   (is_valid_method m \<longrightarrow> is_http_request (map u8_to_ascii_uppercase m @ CHR '' '' # rest))"
  using valid_method_iff_method_len [of m rest]
  by (auto simp: is_http_request_def is_valid_method_def MIN_METHOD_LEN_def)

theorem sniff_agrees_with_validator_witness:
  "is_valid_method ''propfind'' \<and> is_http_request ''PROPFIND / HTTP/1.1''"
proof -
  have "is_valid_method ''propfind''" by code_simp
  moreover have "map u8_to_ascii_uppercase ''propfind'' @ CHR '' '' # ''/ HTTP/1.1'' = ''PROPFIND / HTTP/1.1''"
    by code_simp
  ultimately show ?thesis
    using sniff_agrees_with_validator [of "''propfind''" "''/ HTTP/1.1''"] by metis
qed

text \<open>
  The fast path of the sniff compares four bytes, and only its three-letter tags carry the
  space: a token that merely starts like a four-letter method passes too.
\<close>

lemma sniff_takes_prefixes: "is_http_request ''HEADLESS'' \<and> is_http_request ''POSTGRES''"
  by code_simp

end
