(* ===== verification/Rate_Limit.thy ===== *)
theory Rate_Limit
  imports Portail_Prelude
begin

text \<open>
  The per-client token bucket (\<open>src/src/rate_limit.rs\<close>): the packed bucket word, refill and
  consumption, \<open>Limiter::check_at\<close>, \<open>sweep_at\<close>, \<open>client_key\<close> and the process-wide registry.
  Integers keep their widths: a bucket is one 64-bit word of a 32-bit millisecond stamp and
  32-bit millitokens, and clock differences wrap.

  The compare-and-swap loop of \<open>consume\<close> is modelled by what its failed attempts observed:
  only the last, successful attempt writes, and it writes what \<open>consume_step\<close> computes from
  the value the cell then holds. Concurrent requests therefore act one after the other, and
  the bounds below hold for any order in which they win.
\<close>

unbundle bit_operations_syntax

section \<open>Buckets\<close>

definition MILLITOKENS_PER_REQUEST :: u32 where "MILLITOKENS_PER_REQUEST = 1000"
definition MAX_BURST :: u32 where "MAX_BURST = (- 1) div MILLITOKENS_PER_REQUEST"
definition BACKWARDS_MS :: u32 where "BACKWARDS_MS = push_bit 31 1"
definition STALE_MS :: u32 where "STALE_MS = push_bit 30 1"

definition pack :: "u32 \<Rightarrow> u32 \<Rightarrow> u64" where
  "pack now_ms tokens = push_bit 32 (ucast now_ms) OR ucast tokens"

definition unpack :: "u64 \<Rightarrow> u32 \<times> u32" where
  "unpack state = (ucast (drop_bit 32 state), ucast state)"

definition elapsed :: "u32 \<Rightarrow> u32 \<Rightarrow> u32 option" where
  "elapsed now last_ms = (let dt = now - last_ms in if dt < BACKWARDS_MS then Some dt else None)"

definition refill :: "u32 \<Rightarrow> u32 \<Rightarrow> u32 \<Rightarrow> u32 \<Rightarrow> u32" where
  "refill tokens dt_ms rate burst =
     ucast (min (ucast tokens + ucast dt_ms * ucast rate :: u64) (ucast burst))"

definition saturating_mul :: "u32 \<Rightarrow> u32 \<Rightarrow> u32" where
  "saturating_mul a b = (if unat a * unat b < 2 ^ 32 then a * b else - 1)"

text \<open>One pass of the loop of \<open>consume\<close>: what it would store over \<open>cur\<close>, and whether it grants.\<close>

definition consume_step :: "u64 \<Rightarrow> u32 \<Rightarrow> u32 \<Rightarrow> u32 \<Rightarrow> u64 \<times> bool" where
  "consume_step cur now_ms rate burst =
     (case unpack cur of (last_ms, tokens) \<Rightarrow>
        case (case elapsed now_ms last_ms of
                Some dt \<Rightarrow> (now_ms, refill tokens dt rate burst)
              | None \<Rightarrow> (last_ms, tokens)) of (stamp, filled) \<Rightarrow>
          if filled \<ge> MILLITOKENS_PER_REQUEST
          then (pack stamp (filled - MILLITOKENS_PER_REQUEST), True)
          else (pack stamp filled, False))"

text \<open>
  The loop: \<open>observed\<close> are the values its failed exchanges returned, in order. The exchange that
  succeeds finds the cell holding the last value the loop has seen.
\<close>

fun consume :: "u64 \<Rightarrow> u64 list \<Rightarrow> u32 \<Rightarrow> u32 \<Rightarrow> u32 \<Rightarrow> u64 \<times> bool" where
  "consume cur [] now_ms rate burst = consume_step cur now_ms rate burst"
| "consume cur (v # observed) now_ms rate burst = consume v observed now_ms rate burst"

section \<open>The limiter\<close>

record limiter =
  rate :: u32
  burst_mt :: u32
  buckets :: "u128 \<rightharpoonup> u64"

definition limiter_new :: "u32 \<Rightarrow> u32 \<Rightarrow> limiter" where
  "limiter_new rps burst =
     \<lparr>rate = rps, burst_mt = saturating_mul burst MILLITOKENS_PER_REQUEST, buckets = Map.empty\<rparr>"

definition reconfigure :: "u32 \<Rightarrow> u32 \<Rightarrow> limiter \<Rightarrow> limiter" where
  "reconfigure rps burst l =
     l\<lparr>rate := rps, burst_mt := saturating_mul burst MILLITOKENS_PER_REQUEST\<rparr>"

definition check_at :: "u128 \<Rightarrow> u32 \<Rightarrow> limiter \<Rightarrow> limiter \<times> bool" where
  "check_at key now_ms l =
     (case buckets l key of
        Some cell \<Rightarrow>
          (case consume_step cell now_ms (rate l) (burst_mt l) of
             (cell', granted) \<Rightarrow> (l\<lparr>buckets := (buckets l)(key \<mapsto> cell')\<rparr>, granted))
      | None \<Rightarrow>
          (let burst = burst_mt l;
               granted = burst \<ge> MILLITOKENS_PER_REQUEST;
               tokens = (if granted then burst - MILLITOKENS_PER_REQUEST else burst)
           in (l\<lparr>buckets := (buckets l)(key \<mapsto> pack now_ms tokens)\<rparr>, granted)))"

text \<open>The closure \<open>sweep_at\<close> retains a bucket by.\<close>

definition sweep_keeps :: "u32 \<Rightarrow> u32 \<Rightarrow> u32 \<Rightarrow> u64 \<Rightarrow> bool" where
  "sweep_keeps now rt burst cell =
     (case unpack cell of (last_ms, tokens) \<Rightarrow>
        (case elapsed now last_ms of
           None \<Rightarrow> True
         | Some dt \<Rightarrow> dt < STALE_MS \<and> refill tokens dt rt burst < burst))"

definition sweep_at :: "u32 \<Rightarrow> limiter \<Rightarrow> limiter" where
  "sweep_at now l =
     l\<lparr>buckets := (\<lambda>key. case buckets l key of
        Some cell \<Rightarrow> if sweep_keeps now (rate l) (burst_mt l) cell then Some cell else None
      | None \<Rightarrow> None)\<rparr>"

section \<open>Client keys\<close>

text \<open>\<open>IpAddr::to_canonical\<close>: an IPv4-mapped address \<open>::ffff:a.b.c.d\<close> is its IPv4 address.\<close>

definition to_canonical :: "ip_addr \<Rightarrow> ip_addr" where
  "to_canonical ip = (case ip of
     V4 a \<Rightarrow> V4 a
   | V6 a \<Rightarrow> if drop_bit 32 a = 0xFFFF then V4 (ucast a) else V6 a)"

definition client_key :: "ip_addr \<Rightarrow> u128" where
  "client_key peer = (case to_canonical peer of
     V4 a \<Rightarrow> ucast a
   | V6 a \<Rightarrow> a AND push_bit 64 (NOT 0))"

section \<open>The registry\<close>

type_synonym registry = "u16 \<times> bytes \<rightharpoonup> limiter"

definition limiter_for :: "u16 \<Rightarrow> bytes \<Rightarrow> u32 \<Rightarrow> u32 \<Rightarrow> registry \<Rightarrow> registry \<times> limiter" where
  "limiter_for port listener rps burst reg =
     (let l = (case reg (port, listener) of Some l \<Rightarrow> l | None \<Rightarrow> limiter_new rps burst);
          l' = reconfigure rps burst l
      in (reg((port, listener) \<mapsto> l'), l'))"

text \<open>One tick of \<open>spawn_sweeper\<close>; \<open>strong_count\<close> is the reference count of a limiter's \<open>Arc\<close>.\<close>

definition sweeper_tick :: "u32 \<Rightarrow> (u16 \<times> bytes \<Rightarrow> nat) \<Rightarrow> registry \<Rightarrow> registry" where
  "sweeper_tick now strong_count reg =
     (\<lambda>k. case reg k of
        Some l \<Rightarrow> if strong_count k > 1 then Some (sweep_at now l) else None
      | None \<Rightarrow> None)"

section \<open>Bucket lemmas\<close>

lemma unpack_pack [simp]: "unpack (pack now tokens) = (now, tokens)"
proof -
  have "ucast (drop_bit 32 (pack now tokens)) = now"
    by (intro bit_word_eqI)
      (auto simp: pack_def bit_simps dest: bit_imp_le_length)
  moreover have "ucast (pack now tokens) = tokens"
    by (intro bit_word_eqI) (auto simp: pack_def bit_simps)
  ultimately show ?thesis by (simp add: unpack_def)
qed

lemma pack_unpack: "unpack s = (a, b) \<Longrightarrow> pack a b = s"
  by (intro bit_word_eqI) (auto simp: pack_def unpack_def bit_simps)

lemma unat_refill:
  "unat (refill tokens dt r burst) = min (unat tokens + unat dt * unat r) (unat burst)"
proof -
  have b: "unat x < 4294967296" for x :: u32
    using unsigned_less [of x, where ?'a = nat] by simp
  have "unat dt * unat r \<le> 4294967295 * 4294967295"
    using b [of dt] b [of r] by (intro mult_le_mono) auto
  then have sum: "unat tokens + unat dt * unat r < 2 ^ 64"
    using b [of tokens] by simp
  have "unat (ucast tokens + ucast dt * ucast r :: u64) = unat tokens + unat dt * unat r"
    using sum b [of tokens] b [of dt] b [of r]
    by (simp add: unat_word_ariths unsigned_ucast_eq take_bit_nat_eq_self) 
  moreover have "unat (min x y) = min (unat x) (unat y)" for x y :: u64
    by (simp add: min_def word_le_nat_alt)
  moreover have "unat (ucast burst :: u64) = unat burst"
    using b [of burst] by (simp add: unsigned_ucast_eq take_bit_nat_eq_self)
  ultimately have m: "unat (min (ucast tokens + ucast dt * ucast r :: u64) (ucast burst))
      = min (unat tokens + unat dt * unat r) (unat burst)"
    by simp
  show ?thesis unfolding refill_def using b [of burst]
    by (subst unsigned_ucast_eq) (simp add: m take_bit_nat_eq_self)
qed

lemma unat_of_nat_u32: "n < 4294967296 \<Longrightarrow> unat (word_of_nat n :: u32) = n"
  by (simp add: unsigned_of_nat take_bit_nat_eq_self)

lemma elapsed_forward:
  assumes "last_t \<le> t" "t - last_t < 2147483648"
  shows "elapsed (word_of_nat t) (word_of_nat last_t) = Some (word_of_nat (t - last_t))"
proof -
  have "word_of_nat t - word_of_nat last_t = (word_of_nat (t - last_t) :: u32)"
    using assms by (simp add: of_nat_diff)
  moreover have "(word_of_nat (t - last_t) :: u32) < BACKWARDS_MS"
    using assms
    by (simp add: word_less_nat_alt unat_of_nat_u32 BACKWARDS_MS_def del: of_nat_diff)
  ultimately show ?thesis by (simp add: elapsed_def)
qed

lemma elapsed_backward:
  assumes "t < last_t" "last_t - t \<le> 2147483648"
  shows "elapsed (word_of_nat t) (word_of_nat last_t) = None"
proof -
  have "word_of_nat t - word_of_nat last_t = - (word_of_nat (last_t - t) :: u32)"
    using assms by (simp add: of_nat_diff)
  also have "\<dots> = (word_of_nat (4294967296 - (last_t - t)) :: u32)"
    using assms by (simp add: of_nat_diff)
  finally have "unat (word_of_nat t - word_of_nat last_t :: u32) = 4294967296 - (last_t - t)"
    using assms by (simp add: unat_of_nat_u32 del: of_nat_diff)
  then show ?thesis
    using assms by (simp add: elapsed_def word_less_nat_alt BACKWARDS_MS_def)
qed

lemma le_word_iff: "(a :: u32) \<le> b \<longleftrightarrow> unat a \<le> unat b"
  by (rule word_le_nat_alt)

lemma unat_spend: "MILLITOKENS_PER_REQUEST \<le> a \<Longrightarrow> unat (a - MILLITOKENS_PER_REQUEST) + 1000 = unat a"
  by (simp add: MILLITOKENS_PER_REQUEST_def unat_sub le_word_iff)

lemma refill_twice:
  "unat d1 + unat d2 < 4294967296 \<Longrightarrow>
     refill (refill tok d1 r b) d2 r b = refill tok (d1 + d2) r b"
  by (rule unsigned_word_eqI [where ?'a = nat])
    (simp add: unat_refill unat_word_ariths add_mult_distrib min_def)

lemma consume_step_pack:
  "consume_step (pack last_ms tok) now r b =
     (case (case elapsed now last_ms of
              Some dt \<Rightarrow> (now, refill tok dt r b) | None \<Rightarrow> (last_ms, tok)) of (stamp, filled) \<Rightarrow>
        if filled \<ge> MILLITOKENS_PER_REQUEST
        then (pack stamp (filled - MILLITOKENS_PER_REQUEST), True)
        else (pack stamp filled, False))"
  by (simp add: consume_step_def)

lemma check_at_other [simp]: "k' \<noteq> k \<Longrightarrow> buckets (fst (check_at k t l)) k' = buckets l k'"
  by (simp add: check_at_def Let_def split: option.split prod.split)

lemma check_at_config [simp]:
  "rate (fst (check_at k t l)) = rate l" "burst_mt (fst (check_at k t l)) = burst_mt l"
  by (simp_all add: check_at_def Let_def split: option.split prod.split)

lemma sweep_at_config [simp]: "rate (sweep_at t l) = rate l" "burst_mt (sweep_at t l) = burst_mt l"
  by (simp_all add: sweep_at_def)

lemma consume_last: "consume cur observed now r b = consume_step (last (cur # observed)) now r b"
  by (induction cur observed now r b rule: consume.induct) simp_all

section \<open>The budget of a client\<close>

text \<open>
  A history of one limiter on an unbounded millisecond clock; the code sees each time reduced to
  32 bits. Requests may carry times out of order, as threads read the clock before they race for
  the bucket.
\<close>

datatype event = Request u128 nat | Sweep nat

fun event_time :: "event \<Rightarrow> nat" where
  "event_time (Request k t) = t"
| "event_time (Sweep t) = t"

fun granted :: "u128 \<Rightarrow> limiter \<Rightarrow> event list \<Rightarrow> nat" where
  "granted k l [] = 0"
| "granted k l (Request k' t # es) =
     (case check_at k' (word_of_nat t) l of
        (l', g) \<Rightarrow> (if g \<and> k' = k then 1 else 0) + granted k l' es)"
| "granted k l (Sweep t # es) = granted k (sweep_at (word_of_nat t) l) es"

text \<open>No request that follows a sweep in the history carries an earlier time.\<close>

fun sweeps_ordered :: "event list \<Rightarrow> bool" where
  "sweeps_ordered [] = True"
| "sweeps_ordered (Request k t # es) = sweeps_ordered es"
| "sweeps_ordered (Sweep t # es) = ((\<forall>e \<in> set es. t \<le> event_time e) \<and> sweeps_ordered es)"

text \<open>What a bucket can still pay out before time \<open>E\<close>; \<open>S\<close> is when a missing bucket may start.\<close>

definition potential :: "nat \<Rightarrow> nat \<Rightarrow> u128 \<Rightarrow> limiter \<Rightarrow> nat \<Rightarrow> bool" where
  "potential S E k l n \<longleftrightarrow>
     (case buckets l k of
        None \<Rightarrow> n = unat (burst_mt l) + unat (rate l) * (E - S)
      | Some c \<Rightarrow> \<exists>L tok. c = pack (word_of_nat L) tok \<and> S \<le> L \<and> L \<le> E \<and>
          n = unat tok + unat (rate l) * (E - L))"

lemma potential_SomeI:
  "buckets l k = Some (pack (word_of_nat L) tok) \<Longrightarrow> S \<le> L \<Longrightarrow> L \<le> E \<Longrightarrow>
     n = unat tok + unat (rate l) * (E - L) \<Longrightarrow> potential S E k l n"
  by (auto simp: potential_def)

lemma potential_check:
  assumes "potential S E k l n" "S \<le> t" "t \<le> E" "E - S < 2147483648"
  obtains n' where "potential S E k (fst (check_at k (word_of_nat t) l)) n'"
    "n' + (if snd (check_at k (word_of_nat t) l) then 1000 else 0) \<le> n"
proof (cases "buckets l k")
  case None
  let ?tok = "if burst_mt l \<ge> MILLITOKENS_PER_REQUEST then burst_mt l - MILLITOKENS_PER_REQUEST
              else burst_mt l"
  have "unat (rate l) * (t - S) + unat (rate l) * (E - t) = unat (rate l) * (E - S)"
    using assms by (simp flip: add_mult_distrib2)
  then show ?thesis using assms None unat_spend [of "burst_mt l"]
    by (intro that [of "unat ?tok + unat (rate l) * (E - t)"])
      (auto simp: potential_def check_at_def Let_def)
next
  case (Some c)
  then obtain L tok where c: "c = pack (word_of_nat L) tok" "S \<le> L" "L \<le> E"
      "n = unat tok + unat (rate l) * (E - L)"
    using assms(1) by (auto simp: potential_def)
  show ?thesis
  proof (cases "L \<le> t")
    case True
    define f where "f = refill tok (word_of_nat (t - L)) (rate l) (burst_mt l)"
    have el: "elapsed (word_of_nat t) (word_of_nat L) = Some (word_of_nat (t - L))"
      using assms c True by (intro elapsed_forward) auto
    have "unat (word_of_nat (t - L) :: u32) = t - L"
      using assms c by (intro unat_of_nat_u32) linarith
    then have "unat f \<le> unat tok + unat (rate l) * (t - L)"
      by (simp add: f_def unat_refill mult.commute del: of_nat_diff)
    moreover have "unat (rate l) * (t - L) + unat (rate l) * (E - t) = unat (rate l) * (E - L)"
      using assms c True by (simp flip: add_mult_distrib2)
    ultimately show ?thesis
      using Some c el assms(2-4) unat_spend [of f]
      by (intro that [of "unat (if f \<ge> MILLITOKENS_PER_REQUEST then f - MILLITOKENS_PER_REQUEST
              else f) + unat (rate l) * (E - t)"])
        (auto intro!: potential_SomeI simp: check_at_def consume_step_pack simp flip: f_def
          simp del: of_nat_diff)
  next
    case False
    have el: "elapsed (word_of_nat t) (word_of_nat L) = None"
      using assms c False by (intro elapsed_backward) auto
    show ?thesis using Some c el unat_spend [of tok]
      by (intro that [of "unat (if tok \<ge> MILLITOKENS_PER_REQUEST then tok - MILLITOKENS_PER_REQUEST
              else tok) + unat (rate l) * (E - L)"])
        (auto intro!: potential_SomeI simp: check_at_def consume_step_pack)
  qed
qed

lemma potential_sweep:
  assumes "potential S E k l n" "S \<le> t" "t \<le> E" "E - S < 1073741824"
  obtains S' n' where "potential S' E k (sweep_at (word_of_nat t) l) n'" "n' \<le> n" "S' = S \<or> S' = t"
proof (cases "buckets l k")
  case None
  then show ?thesis using assms(1)
    by (intro that [of S n]) (auto simp: potential_def sweep_at_def)
next
  case (Some c)
  then obtain L tok where c: "c = pack (word_of_nat L) tok" "S \<le> L" "L \<le> E"
      "n = unat tok + unat (rate l) * (E - L)"
    using assms(1) by (auto simp: potential_def)
  show ?thesis
  proof (cases "sweep_keeps (word_of_nat t) (rate l) (burst_mt l) c")
    case True
    then show ?thesis using c Some
      by (intro that [of S n]) (auto intro!: potential_SomeI simp: sweep_at_def)
  next
    case False
    have "L \<le> t"
      using False c assms elapsed_backward [of t L]
      by (cases "L \<le> t") (auto simp: sweep_keeps_def)
    have dt: "unat (word_of_nat (t - L) :: u32) = t - L"
      using assms c by (intro unat_of_nat_u32) linarith
    then have "(word_of_nat (t - L) :: u32) < STALE_MS"
      using assms c by (simp add: word_less_nat_alt STALE_MS_def del: of_nat_diff)
    then have "burst_mt l \<le> refill tok (word_of_nat (t - L)) (rate l) (burst_mt l)"
      using False c assms \<open>L \<le> t\<close> elapsed_forward [of L t]
      by (auto simp: sweep_keeps_def simp del: of_nat_diff)
    then have "unat (burst_mt l) \<le> unat tok + unat (rate l) * (t - L)"
      by (simp add: le_word_iff unat_refill dt mult.commute del: of_nat_diff)
    moreover have "unat (rate l) * (t - L) + unat (rate l) * (E - t) = unat (rate l) * (E - L)"
      using assms c \<open>L \<le> t\<close> by (simp flip: add_mult_distrib2)
    ultimately show ?thesis using c Some False
      by (intro that [of t "unat (burst_mt l) + unat (rate l) * (E - t)"])
        (auto simp: potential_def sweep_at_def)
  qed
qed

lemma potential_other: "k' \<noteq> k \<Longrightarrow>
    potential S E k (fst (check_at k' t l)) n \<longleftrightarrow> potential S E k l n"
  by (simp add: potential_def split: option.split)

lemma granted_potential:
  assumes "potential S E k l n" "\<forall>e \<in> set es. S \<le> event_time e \<and> event_time e \<le> E"
    "E - S < 1073741824" "sweeps_ordered es"
  shows "1000 * granted k l es \<le> n"
  using assms
proof (induction es arbitrary: S l n)
  case (Cons e es)
  show ?case
  proof (cases e)
    case (Request k' t)
    let ?l = "fst (check_at k' (word_of_nat t) l)"
    show ?thesis
    proof (cases "k' = k")
      case True
      obtain n' where n': "potential S E k ?l n'"
          "n' + (if snd (check_at k (word_of_nat t) l) then 1000 else 0) \<le> n"
        using potential_check [OF Cons.prems(1), of t] Cons.prems Request True by auto
      have "1000 * granted k ?l es \<le> n'"
        using Cons.prems Request n'(1) by (intro Cons.IH) auto
      then show ?thesis using n'(2) Request True
        by (auto split: prod.split if_splits)
    next
      case False
      have "1000 * granted k ?l es \<le> n"
        using Cons.prems Request False by (intro Cons.IH) (auto simp: potential_other)
      then show ?thesis using Request False by (auto split: prod.split)
    qed
  next
    case (Sweep t)
    obtain S' n' where S': "potential S' E k (sweep_at (word_of_nat t) l) n'" "n' \<le> n"
        "S' = S \<or> S' = t"
      using potential_sweep [OF Cons.prems(1), of t] Cons.prems Sweep by auto
    have "1000 * granted k (sweep_at (word_of_nat t) l) es \<le> n'"
      using Cons.prems Sweep S' by (intro Cons.IH [OF S'(1)]) auto
    then show ?thesis using Sweep S'(2) by simp
  qed
qed simp



lemma check_at_pack:
  assumes "buckets l k = Some (pack (word_of_nat L) tok)" "L \<le> t" "t - L < 2147483648"
  shows "check_at k (word_of_nat t) l =
    (let f = refill tok (word_of_nat (t - L)) (rate l) (burst_mt l); g = f \<ge> MILLITOKENS_PER_REQUEST
     in (l\<lparr>buckets := (buckets l)(k \<mapsto>
           pack (word_of_nat t) (if g then f - MILLITOKENS_PER_REQUEST else f))\<rparr>, g))"
  using assms elapsed_forward [of L t]
  by (auto simp: check_at_def consume_step_pack Let_def simp del: of_nat_diff)


definition sample_limiter :: limiter where
  "sample_limiter = \<lparr>rate = 1, burst_mt = 1000, buckets = [7 \<mapsto> pack 100 0]\<rparr>"


text \<open>
  C8. Sweeping is invisible to clients: a request after a sweep is answered as it would have
  been without it, and leaves the client the same bucket.
\<close>

theorem sweep_is_invisible:
  assumes "buckets l k = Some (pack (word_of_nat L) tok)" "L \<le> t1" "t1 - L < 1073741824"
    and "t1 \<le> t2" "t2 - L < 2147483648"
  shows "snd (check_at k (word_of_nat t2) (sweep_at (word_of_nat t1) l)) = snd (check_at k (word_of_nat t2) l)
    \<and> buckets (fst (check_at k (word_of_nat t2) (sweep_at (word_of_nat t1) l))) k
      = buckets (fst (check_at k (word_of_nat t2) l)) k"
proof (cases "sweep_keeps (word_of_nat t1) (rate l) (burst_mt l) (pack (word_of_nat L) tok)")
  case True
  then have "buckets (sweep_at (word_of_nat t1) l) k = Some (pack (word_of_nat L) tok)"
    using assms by (simp add: sweep_at_def)
  then show ?thesis using assms check_at_pack [of l k L tok t2]
      check_at_pack [of "sweep_at (word_of_nat t1) l" k L tok t2]
    by (simp add: Let_def del: of_nat_diff)
next
  case False
  then have dropped: "buckets (sweep_at (word_of_nat t1) l) k = None"
    using assms by (simp add: sweep_at_def)
  have dt: "unat (word_of_nat (t1 - L) :: u32) = t1 - L" "unat (word_of_nat (t2 - L) :: u32) = t2 - L"
    using assms by (auto simp: unat_of_nat_u32 simp del: of_nat_diff)
  then have "(word_of_nat (t1 - L) :: u32) < STALE_MS"
    using assms by (simp add: word_less_nat_alt STALE_MS_def del: of_nat_diff)
  then have "burst_mt l \<le> refill tok (word_of_nat (t1 - L)) (rate l) (burst_mt l)"
    using False assms elapsed_forward [of L t1]
    by (auto simp: sweep_keeps_def simp del: of_nat_diff)
  then have "unat (burst_mt l) \<le> unat tok + (t1 - L) * unat (rate l)"
    by (simp add: le_word_iff unat_refill dt del: of_nat_diff)
  also have "\<dots> \<le> unat tok + (t2 - L) * unat (rate l)"
    using assms by (intro add_left_mono mult_right_mono) auto
  finally have "refill tok (word_of_nat (t2 - L)) (rate l) (burst_mt l) = burst_mt l"
    by (intro unsigned_word_eqI [where ?'a = nat]) (simp add: unat_refill dt del: of_nat_diff)
  then show ?thesis
    using assms dropped check_at_pack [of l k L tok t2]
    by (simp add: check_at_def Let_def del: of_nat_diff)
qed

theorem sweep_is_invisible_witness:
  "snd (check_at 7 2000 (sweep_at 1500 sample_limiter)) = snd (check_at 7 2000 sample_limiter)
    \<and> buckets (fst (check_at 7 2000 (sweep_at 1500 sample_limiter))) 7
      = buckets (fst (check_at 7 2000 sample_limiter)) 7"
  using sweep_is_invisible [of sample_limiter 7 100 0 1500 2000] by (simp add: sample_limiter_def)

lemma upper_bits_eq:
  "drop_bit m a = drop_bit m b \<longleftrightarrow> (\<forall>n. bit a (m + n) = bit b (m + n))"
  for a b :: "'a :: len word"
proof
  assume eq: "drop_bit m a = drop_bit m b"
  show "\<forall>n. bit a (m + n) = bit b (m + n)"
  proof
    fix n
    have "bit (drop_bit m a) n = bit (drop_bit m b) n" using eq by simp
    then show "bit a (m + n) = bit b (m + n)" by (simp add: bit_drop_bit_eq)
  qed
qed (auto intro!: bit_word_eqI simp: bit_drop_bit_eq)

lemma mapped_bits:
  "drop_bit 32 (push_bit 32 0xFFFF OR ucast x :: u128) = 0xFFFF"
  "ucast (push_bit 32 c OR ucast x :: u128) = (x :: u32)"
proof -
  have "drop_bit 32 (ucast x :: u128) = 0"
    by (intro bit_word_eqI) (auto simp: bit_simps dest: bit_imp_le_length)
  then show "drop_bit 32 (push_bit 32 0xFFFF OR ucast x :: u128) = 0xFFFF"
    by (simp add: drop_bit_or)
  show "ucast (push_bit 32 c OR ucast x :: u128) = (x :: u32)"
    by (intro bit_word_eqI) (auto simp: bit_simps)
qed



end
