(* ===== verification/Hostnames.thy ===== *)
theory Hostnames
  imports Portail_Prelude
begin

text \<open>
  Hostname patterns, and header and query lookup (\<open>src/src/routing/mod.rs\<close>): the wildcard
  test, the walk up the parent domains of a host, the intersection of two patterns, and the
  first value of a header or a query parameter in raw request bytes.
\<close>

section \<open>Wildcards\<close>

definition wildcard_covers :: "bytes \<Rightarrow> bytes \<Rightarrow> bool" where
  "wildcard_covers parent host \<longleftrightarrow>
     ends_with host parent \<and> length host > length parent \<and>
     host ! (length host - length parent - 1) = CHR ''.''"

definition hostnames_intersect :: "bytes \<Rightarrow> bytes \<Rightarrow> bool" where
  "hostnames_intersect a b =
     (case (strip_prefix a ''*.'', strip_prefix b ''*.'') of
        (None, None) \<Rightarrow> a = b
      | (Some pa, None) \<Rightarrow> wildcard_covers pa b
      | (None, Some pb) \<Rightarrow> wildcard_covers pb a
      | (Some pa, Some pb) \<Rightarrow> pa = pb \<or> wildcard_covers pa b \<or> wildcard_covers pb a)"

function parent_domains :: "bytes \<Rightarrow> bytes list" where
  "parent_domains host =
     (case memchr (CHR ''.'') host of
        None \<Rightarrow> []
      | Some dot \<Rightarrow> (let rest = drop (dot + 1) host in rest # parent_domains rest))"
  by pat_completeness auto
termination
  by (relation "measure length") (auto simp: memchr_def dest: position_SomeD)

declare parent_domains.simps [simp del]

lemma wildcard_covers_iff: "wildcard_covers parent host \<longleftrightarrow> (\<exists>r. host = r @ CHR ''.'' # parent)"
proof
  assume "wildcard_covers parent host"
  then obtain r where r: "host = r @ parent" "r \<noteq> []" "host ! (length r - 1) = CHR ''.''"
    by (auto simp: wildcard_covers_def ends_with_iff)
  then have "last r = CHR ''.''" by (simp add: nth_append last_conv_nth)
  with r have "host = butlast r @ CHR ''.'' # parent"
    by (metis append.assoc append_Cons append_Nil append_butlast_last_id)
  then show "\<exists>r. host = r @ CHR ''.'' # parent" by blast
qed (auto simp: wildcard_covers_def ends_with_iff nth_append)

lemma parent_domains_no_dot: "CHR ''.'' \<notin> set host \<Longrightarrow> parent_domains host = []"
  by (subst parent_domains.simps) (simp add: memchr_None)

lemma parent_domains_dot:
  "CHR ''.'' \<notin> set l \<Longrightarrow> parent_domains (l @ CHR ''.'' # rest) = rest # parent_domains rest"
  by (subst parent_domains.simps) (simp add: memchr_first)

lemma host_cases [case_names label dot]:
  assumes "CHR ''.'' \<notin> set host \<Longrightarrow> P"
    and "\<And>l rest. host = l @ CHR ''.'' # rest \<Longrightarrow> CHR ''.'' \<notin> set l \<Longrightarrow> P"
  shows P
  using assms split_list_first [of "CHR ''.''" host] by blast

lemma parent_domains_induct [case_names label dot]:
  assumes "\<And>host. CHR ''.'' \<notin> set host \<Longrightarrow> P host"
    and "\<And>l rest. CHR ''.'' \<notin> set l \<Longrightarrow> P rest \<Longrightarrow> P (l @ CHR ''.'' # rest)"
  shows "P host"
proof (induction host rule: length_induct)
  case (1 host)
  then show ?case using assms by (cases host rule: host_cases) auto
qed

lemma wildcard_covers_parent: "wildcard_covers p host \<longleftrightarrow> p \<in> set (parent_domains host)"
proof (induction host rule: parent_domains_induct)
  case (label host)
  then show ?case by (auto simp: wildcard_covers_iff parent_domains_no_dot)
next
  case (dot l rest)
  have "(\<exists>r. l @ CHR ''.'' # rest = r @ CHR ''.'' # p) \<longleftrightarrow>
      p = rest \<or> (\<exists>r. rest = r @ CHR ''.'' # p)"
    using dot(1) by (auto simp: append_eq_append_conv2 Cons_eq_append_conv append_eq_Cons_conv)
  then show ?case using dot by (simp add: wildcard_covers_iff parent_domains_dot) 
qed

lemma parent_domains_decreasing: "sorted_wrt (\<lambda>a b. length b < length a) (host # parent_domains host)"
proof (induction host rule: parent_domains_induct)
  case (dot l rest)
  then show ?case by (auto simp: parent_domains_dot)
qed (simp add: parent_domains_no_dot)

text \<open>The hosts a pattern stands for.\<close>

definition pattern_covers :: "bytes \<Rightarrow> bytes \<Rightarrow> bool" where
  "pattern_covers pat host =
     (case strip_prefix pat ''*.'' of Some p \<Rightarrow> wildcard_covers p host | None \<Rightarrow> host = pat)"

lemma covers_same_host:
  assumes "wildcard_covers pa h" "wildcard_covers pb h"
  shows "pa = pb \<or> wildcard_covers pa pb \<or> wildcard_covers pb pa"
  using assms
  by (auto simp: wildcard_covers_iff append_eq_append_conv2 Cons_eq_append_conv append_eq_Cons_conv)

lemma covers_wildcard_pattern:
  "wildcard_covers pa (''*.'' @ pb) \<longleftrightarrow> pa = pb \<or> wildcard_covers pa pb"
  by (auto simp: wildcard_covers_iff Cons_eq_append_conv append_eq_Cons_conv)

text \<open>
  C14. Two hostname patterns intersect, for attaching a route to a listener, exactly when some
  host is matched by both.
\<close>

theorem hostnames_intersect_iff:
  "hostnames_intersect a b \<longleftrightarrow> (\<exists>h. pattern_covers a h \<and> pattern_covers b h)"
proof (cases "strip_prefix a ''*.''"; cases "strip_prefix b ''*.''")
  fix pa pb assume p: "strip_prefix a ''*.'' = Some pa" "strip_prefix b ''*.'' = Some pb"
  then have ab: "a = ''*.'' @ pa" "b = ''*.'' @ pb" by simp_all
  have "hostnames_intersect a b \<longleftrightarrow> pa = pb \<or> wildcard_covers pa b \<or> wildcard_covers pb a"
    using p by (simp add: hostnames_intersect_def del: strip_prefix_Some_iff)
  also have "\<dots> \<longleftrightarrow> pa = pb \<or> wildcard_covers pa pb \<or> wildcard_covers pb pa"
    unfolding ab covers_wildcard_pattern by blast
  also have "\<dots> \<longleftrightarrow> (\<exists>h. wildcard_covers pa h \<and> wildcard_covers pb h)"
    by (metis covers_wildcard_pattern covers_same_host)
  finally show ?thesis
    using p by (simp add: pattern_covers_def del: strip_prefix_Some_iff)
qed (auto simp: hostnames_intersect_def pattern_covers_def simp del: strip_prefix_Some_iff)


section \<open>Header and query lookup\<close>

definition is_eol :: "char \<Rightarrow> bool" where
  "is_eol b \<longleftrightarrow> b = CHR 0x0D \<or> b = CHR 0x0A"

text \<open>Past one CRLF, CR or LF.\<close>

definition skip_eol :: "bytes \<Rightarrow> bytes" where
  "skip_eol s = (let s1 = (case s of b # r \<Rightarrow> if b = CHR 0x0D then r else s | [] \<Rightarrow> [])
     in case s1 of b # r \<Rightarrow> if b = CHR 0x0A then r else s1 | [] \<Rightarrow> [])"

lemma length_skip_eol: "length (skip_eol s) \<le> length s"
  by (auto simp: skip_eol_def split: list.split)

lemma skip_eol_progress:
  assumes "s \<noteq> []"
  shows "length (skip_eol (dropWhile (\<lambda>b. \<not> is_eol b) s)) < length s"
proof (cases "dropWhile (\<lambda>b. \<not> is_eol b) s")
  case (Cons b r)
  have "is_eol b" using Cons by (metis dropWhile_eq_Cons_conv)
  then have "length (skip_eol (b # r)) < length (b # r)"
    by (auto simp: skip_eol_def is_eol_def split: list.split)
  then show ?thesis using Cons length_dropWhile_le [of "\<lambda>b. \<not> is_eol b" s] by simp
next
  case Nil
  have "skip_eol [] = []" by (simp add: skip_eol_def)
  then show ?thesis using assms by (simp only: Nil) simp
qed

text \<open>The test of one line for \<open>name:\<close>, and its value without the surrounding blanks.\<close>

definition line_value :: "bytes \<Rightarrow> bytes \<Rightarrow> bytes option" where
  "line_value name line =
     (if length line > length name \<and> line ! length name = CHR '':'' \<and>
         eq_ignore_ascii_case (take (length name) line) name
      then Some (trim_ows (drop (length name + 1) line)) else None)"

function find_header_value :: "bytes \<Rightarrow> bytes \<Rightarrow> bytes option" where
  "find_header_value header_data name =
     (if header_data = [] then None
      else (let line = takeWhile (\<lambda>b. \<not> is_eol b) header_data
            in case line_value name line of
                 Some v \<Rightarrow> if is_utf8 v then Some v else None
               | None \<Rightarrow> find_header_value (skip_eol (dropWhile (\<lambda>b. \<not> is_eol b) header_data)) name))"
  by pat_completeness auto
termination
  by (relation "measure (\<lambda>(d, n). length d)") (simp_all add: skip_eol_progress)

declare find_header_value.simps [simp del]

fun find_pair :: "bytes \<Rightarrow> bytes list \<Rightarrow> bytes option" where
  "find_pair name [] = None"
| "find_pair name (pair # pairs) =
     (case memchr (CHR ''='') pair of
        Some eq_pos \<Rightarrow> if take eq_pos pair = name then Some (drop (eq_pos + 1) pair)
                      else find_pair name pairs
      | None \<Rightarrow> find_pair name pairs)"

definition find_query_param_value :: "bytes \<Rightarrow> bytes \<Rightarrow> bytes option" where
  "find_query_param_value query name =
     (if query = [] then None else find_pair name (split_on (CHR ''&'') query))"

text \<open>
  C15. A header lookup over a head's lines is the first line with that name, in any case,
  trimmed, and only that line decides: a later one of the same name is never consulted.
\<close>

theorem find_header_value_first:
  assumes "\<forall>l \<in> set ls. \<forall>b \<in> set l. \<not> is_eol b"
  shows "find_header_value (concat (map (\<lambda>l. l @ [CHR 0x0D, CHR 0x0A]) ls)) name =
    (case List.find (\<lambda>l. line_value name l \<noteq> None) ls of
       None \<Rightarrow> None
     | Some l \<Rightarrow> (case line_value name l of
         Some v \<Rightarrow> if is_utf8 v then Some v else None | None \<Rightarrow> None))"
  using assms
proof (induction ls)
  case Nil
  show ?case by (simp add: find_header_value.simps)
next
  case (Cons l ls)
  let ?rest = "concat (map (\<lambda>l. l @ [CHR 0x0D, CHR 0x0A]) ls)"
  have tw: "takeWhile (\<lambda>b. \<not> is_eol b) (l @ CHR 0x0D # r) = l"
    "dropWhile (\<lambda>b. \<not> is_eol b) (l @ CHR 0x0D # r) = CHR 0x0D # r" for r
    using Cons.prems by (auto simp: takeWhile_append dropWhile_append is_eol_def)
  have sk: "skip_eol (CHR 0x0D # CHR 0x0A # r) = r" for r by (simp add: skip_eol_def)
  show ?case
    using Cons by (subst find_header_value.simps) (auto simp: tw sk Let_def split: option.split)
qed

theorem find_header_value_first_witness:
  "find_header_value (concat (map (\<lambda>l. l @ [CHR 0x0D, CHR 0x0A])
     [''Host: a'', ''X-Id:  7 '', ''x-id: 8''])) ''x-ID'' = Some ''7''"
proof -
  have "\<forall>l \<in> set [''Host: a'', ''X-Id:  7 '', ''x-id: 8'']. \<forall>b \<in> set l. \<not> is_eol b" by code_simp
  note find_header_value_first [OF this, of "''x-ID''"]
  also have "(case List.find (\<lambda>l. line_value ''x-ID'' l \<noteq> None) [''Host: a'', ''X-Id:  7 '', ''x-id: 8''] of
       None \<Rightarrow> None
     | Some l \<Rightarrow> (case line_value ''x-ID'' l of
         Some v \<Rightarrow> if is_utf8 v then Some v else None | None \<Rightarrow> None)) = Some ''7''" by code_simp
  finally show ?thesis .
qed

end
