(* ===== verification/Route_Table.thy ===== *)
theory Route_Table
  imports Hostnames
begin

text \<open>
  The route table and its lookups (\<open>src/src/routing/mod.rs\<close>): the compiled rule, backend,
  filter and scope types, rule matching, the choice of listener scope for an HTTP request, and
  the choice of a TLS passthrough route.

  A hash map is an association list with distinct keys, read with \<open>map_of\<close>. A compiled regular
  expression is the test it performs. The counters a rule shares with its clones are passed to
  the operations that use them and are not fields here.
\<close>

section \<open>Compiled types\<close>

datatype path_match_type = Prefix | Exact | RegularExpression

type_synonym regex = "bytes \<Rightarrow> bool"

datatype value_matcher = ExactValue bytes | RegexValue regex

fun is_match :: "value_matcher \<Rightarrow> bytes \<Rightarrow> bool" where
  "is_match (ExactValue expected) v = (v = expected)"
| "is_match (RegexValue re) v = re v"

record header_match =
  hm_name :: bytes
  hm_matcher :: value_matcher

record query_param_match =
  qm_name :: bytes
  qm_matcher :: value_matcher

record http_header =
  h_name :: bytes
  h_value :: bytes

record fraction =
  numerator :: nat
  denominator :: nat

definition FRACTION_ALL :: fraction where "FRACTION_ALL = \<lparr>numerator = 1, denominator = 1\<rparr>"

text \<open>The loop of \<open>Fraction::new\<close>.\<close>

function gcd_loop :: "nat \<Rightarrow> nat \<Rightarrow> nat" where
  "gcd_loop g rest = (if rest \<noteq> 0 then gcd_loop rest (g mod rest) else g)"
  by pat_completeness auto
termination by (relation "measure snd") auto

declare gcd_loop.simps [simp del]

definition fraction_new :: "nat \<Rightarrow> nat \<Rightarrow> fraction option" where
  "fraction_new n d =
     (if d = 0 \<or> n > d then None
      else (let g = gcd_loop n d in Some \<lparr>numerator = n div g, denominator = d div g\<rparr>))"

text \<open>\<open>draw\<close> is the uniform number below the denominator that the random source returns.\<close>

definition sample :: "fraction \<Rightarrow> nat \<Rightarrow> bool" where
  "sample f draw \<longleftrightarrow> numerator f = denominator f \<or> (numerator f > 0 \<and> draw < numerator f)"

record path_value =
  pv_path :: bytes
  pv_query :: "bytes option"

definition path_value_from :: "bytes \<Rightarrow> path_value" where
  "path_value_from v = (case split_once (CHR ''?'') v of
     Some (p, q) \<Rightarrow> \<lparr>pv_path = p, pv_query = Some q\<rparr>
   | None \<Rightarrow> \<lparr>pv_path = v, pv_query = None\<rparr>)"

datatype url_rewrite_path = ReplaceFullPath path_value | ReplacePrefixMatch path_value

datatype http_filter =
    RequestHeaderModifier (hf_add: "http_header list") (hf_set: "http_header list") (hf_remove: "bytes list")
  | ResponseHeaderModifier (hf_add: "http_header list") (hf_set: "http_header list") (hf_remove: "bytes list")
  | RequestRedirect (rd_scheme: "bytes option") (rd_hostname: "bytes option") (rd_port: "u16 option")
      (rd_path: "url_rewrite_path option") (rd_status: u16)
  | URLRewrite (rw_hostname: "bytes option") (rw_path: "url_rewrite_path option")
  | RequestMirror (mr_addr: socket_addr) (mr_fraction: fraction)

datatype backend_action = Forward | Reject

record backend =
  b_addr :: socket_addr
  b_weight :: nat
  b_filters :: "http_filter list"
  b_use_tls :: bool
  b_server_name :: bytes
  b_action :: backend_action

record http_route_rule =
  method_match :: "bytes option"
  r_path_match_type :: path_match_type
  r_path :: bytes
  r_path_regex :: "regex option"
  header_matches :: "header_match list"
  query_param_matches :: "query_param_match list"
  r_filters :: "http_filter list"
  r_backends :: "backend list"
  request_timeout :: "nat option"
  backend_request_timeout :: "nat option"
  has_filters :: bool
  total_weight :: nat
  cumulative_weights :: "nat list"
  r_limiter :: "(u16 \<times> bytes) option"
  route_index :: nat

definition rule_new :: "path_match_type \<Rightarrow> bytes \<Rightarrow> header_match list \<Rightarrow> query_param_match list \<Rightarrow>
    http_filter list \<Rightarrow> backend list \<Rightarrow> http_route_rule" where
  "rule_new pmt p hms qms fs bs =
     \<lparr>method_match = None, r_path_match_type = pmt, r_path = p, r_path_regex = None,
      header_matches = hms, query_param_matches = qms, r_filters = fs, r_backends = bs,
      request_timeout = None, backend_request_timeout = None, has_filters = False,
      total_weight = 0, cumulative_weights = [], r_limiter = None, route_index = 0\<rparr>"

definition with_method :: "bytes option \<Rightarrow> http_route_rule \<Rightarrow> http_route_rule" where
  "with_method m r = r\<lparr>method_match := m\<rparr>"

type_synonym host_entry = "http_route_rule list"

record listener_scope =
  ls_port :: u16
  ls_hostname :: "bytes option"
  http_routes :: "(bytes \<times> host_entry) list"
  wildcard_http_routes :: "(bytes \<times> host_entry) list"
  catch_all_http_routes :: "host_entry option"

record port_scopes =
  scopes :: "listener_scope list"
  shared :: bool

record tls_scope =
  ts_hostname :: "bytes option"
  ts_exact :: "(bytes \<times> backend list) list"
  ts_wildcard :: "(bytes \<times> backend list) list"
  ts_catch_all :: "backend list option"

definition tls_scope_backends :: "tls_scope \<Rightarrow> backend list list" where
  "tls_scope_backends s = map snd (ts_exact s) @ map snd (ts_wildcard s) @
     (case ts_catch_all s of Some bs \<Rightarrow> [bs] | None \<Rightarrow> [])"

record route_table =
  listener_scopes :: "(u16 \<times> port_scopes) list"
  shared_scopes :: "listener_scope list"
  shared_on_every_port :: bool
  tcp_routes :: "(u16 \<times> backend list) list"
  udp_routes :: "(u16 \<times> backend list) list"
  tls_scopes :: "(u16 \<times> tls_scope list) list"

section \<open>Rule matching\<close>

record request =
  q_method :: bytes
  q_path :: bytes
  q_header_data :: bytes
  q_query :: bytes

definition path_matches :: "http_route_rule \<Rightarrow> bytes \<Rightarrow> bool" where
  "path_matches rule p = (case r_path_match_type rule of
     Exact \<Rightarrow> p = r_path rule
   | RegularExpression \<Rightarrow> (case r_path_regex rule of Some re \<Rightarrow> re p | None \<Rightarrow> False)
   | Prefix \<Rightarrow> (let pre = r_path rule; n = length pre in
       pre = [] \<or>
       (length p \<ge> n \<and> take n p = pre \<and>
        (length p = n \<or> p ! n = CHR ''/'' \<or> pre ! (n - 1) = CHR ''/''))))"

text \<open>One iteration of \<open>find_best_rule_match\<close>: whether it returns the rule.\<close>

definition rule_matches :: "request \<Rightarrow> http_route_rule \<Rightarrow> bool" where
  "rule_matches q rule \<longleftrightarrow>
     (case method_match rule of Some required \<Rightarrow> eq_ignore_ascii_case required (q_method q) | None \<Rightarrow> True) \<and>
     path_matches rule (q_path q) \<and>
     (header_matches rule = [] \<or>
       (q_header_data q \<noteq> [] \<and>
        list_all (\<lambda>hm. case find_header_value (q_header_data q) (hm_name hm) of
            Some v \<Rightarrow> is_match (hm_matcher hm) v | None \<Rightarrow> False) (header_matches rule))) \<and>
     (query_param_matches rule = [] \<or>
       list_all (\<lambda>qm. case find_query_param_value (q_query q) (qm_name qm) of
            Some v \<Rightarrow> is_match (qm_matcher qm) v | None \<Rightarrow> False) (query_param_matches rule))"

fun find_best_rule_match :: "http_route_rule list \<Rightarrow> request \<Rightarrow> http_route_rule option" where
  "find_best_rule_match [] q = None"
| "find_best_rule_match (rule # rules) q =
     (if rule_matches q rule then Some rule else find_best_rule_match rules q)"

section \<open>Precedence\<close>

fun rank :: "path_match_type \<Rightarrow> nat" where
  "rank Exact = 0"
| "rank RegularExpression = 1"
| "rank Prefix = 2"

definition match_precedence :: "http_route_rule \<Rightarrow> http_route_rule \<Rightarrow> ordering" where
  "match_precedence a b =
     then_with (cmp (rank (r_path_match_type a)) (rank (r_path_match_type b)))
    (then_with (cmp (length (r_path b)) (length (r_path a)))
    (then_with (cmp (method_match b \<noteq> None) (method_match a \<noteq> None))
    (then_with (cmp (length (header_matches b)) (length (header_matches a)))
               (cmp (length (query_param_matches b)) (length (query_param_matches a))))))"

definition outranks :: "nat \<times> http_route_rule \<Rightarrow> nat \<times> http_route_rule \<Rightarrow> bool" where
  "outranks a b \<longleftrightarrow>
     then_with (cmp (fst b) (fst a))
       (then_with (match_precedence (snd a) (snd b))
          (cmp (route_index (snd a)) (route_index (snd b)))) = Less"

section \<open>Scopes\<close>

definition u32_MAX :: nat where "u32_MAX = 4294967295"

definition hostname_match_priority :: "listener_scope \<Rightarrow> bytes \<Rightarrow> nat option" where
  "hostname_match_priority s request_host =
     (case ls_hostname s of
        None \<Rightarrow> Some 0
      | Some lh \<Rightarrow>
          (case strip_prefix lh ''*.'' of
             Some parent \<Rightarrow>
               if wildcard_covers parent request_host then Some (1 + length parent) else None
           | None \<Rightarrow> if request_host = lh then Some u32_MAX else None))"

text \<open>The walk over the parent domains of a host.\<close>

fun lookup_wildcard :: "(bytes \<times> host_entry) list \<Rightarrow> bytes list \<Rightarrow> request \<Rightarrow> (nat \<times> http_route_rule) option" where
  "lookup_wildcard routes [] q = None"
| "lookup_wildcard routes (parent # parents) q =
     (case (case map_of routes parent of
              Some entry \<Rightarrow> find_best_rule_match entry q | None \<Rightarrow> None) of
        Some rule \<Rightarrow> Some (1 + length parent, rule)
      | None \<Rightarrow> lookup_wildcard routes parents q)"

definition lookup_http_route :: "listener_scope \<Rightarrow> bytes \<Rightarrow> request \<Rightarrow> (nat \<times> http_route_rule) option" where
  "lookup_http_route s host q =
     (case (case map_of (http_routes s) host of
              Some entry \<Rightarrow> find_best_rule_match entry q | None \<Rightarrow> None) of
        Some rule \<Rightarrow> Some (u32_MAX, rule)
      | None \<Rightarrow>
          (case lookup_wildcard (wildcard_http_routes s) (parent_domains host) q of
             Some found \<Rightarrow> Some found
           | None \<Rightarrow>
               (case (case catch_all_http_routes s of
                        Some entry \<Rightarrow> find_best_rule_match entry q | None \<Rightarrow> None) of
                  Some rule \<Rightarrow> Some (0, rule)
                | None \<Rightarrow> None)))"

section \<open>HTTP lookup\<close>

definition host_key :: "bytes \<Rightarrow> bytes" where
  "host_key host =
     (if \<not> list_ex is_ascii_uppercase host then host
      else (let len = min (length host) 256;
                lowered = to_ascii_lowercase (take len host)
            in if is_utf8 lowered then lowered else host))"

definition shared_scopes_of :: "route_table \<Rightarrow> port_scopes option \<Rightarrow> listener_scope list" where
  "shared_scopes_of t port =
     (if shared_scopes t = [] \<or> \<not> (shared_on_every_port t \<or>
          (case port of Some p \<Rightarrow> shared p | None \<Rightarrow> False))
      then [] else shared_scopes t)"

text \<open>Phase one: the highest listener priority among the scopes that take the host.\<close>

fun highest_priority :: "nat option \<Rightarrow> listener_scope list \<Rightarrow> bytes \<Rightarrow> nat option" where
  "highest_priority held [] host = held"
| "highest_priority held (s # ss) host =
     (case hostname_match_priority s host of
        Some priority \<Rightarrow>
          highest_priority (case held of
              None \<Rightarrow> Some priority
            | Some h \<Rightarrow> if priority > h then Some priority else Some h) ss host
      | None \<Rightarrow> highest_priority held ss host)"

text \<open>Phase two: the search of the scopes at that priority.\<close>

fun search_scopes :: "bool \<Rightarrow> nat \<Rightarrow> (nat \<times> http_route_rule) option \<Rightarrow> listener_scope list \<Rightarrow>
    bytes \<Rightarrow> request \<Rightarrow> (nat \<times> http_route_rule) option" where
  "search_scopes compare highest best [] host q = best"
| "search_scopes compare highest best (s # ss) host q =
     (case hostname_match_priority s host of
        Some priority \<Rightarrow>
          if priority < highest then search_scopes compare highest best ss host q
          else (case lookup_http_route s host q of
                  Some found \<Rightarrow>
                    if \<not> compare then Some found
                    else search_scopes compare highest
                      (case best of
                         None \<Rightarrow> Some found
                       | Some held \<Rightarrow> if outranks found held then Some found else Some held) ss host q
                | None \<Rightarrow> search_scopes compare highest best ss host q)
      | None \<Rightarrow> search_scopes compare highest best ss host q)"

definition find_http_route :: "route_table \<Rightarrow> bytes \<Rightarrow> request \<Rightarrow> u16 \<Rightarrow> http_route_rule option" where
  "find_http_route t host q server_port =
     (let host_key = host_key host;
          port = map_of (listener_scopes t) server_port;
          shared = shared_scopes_of t port;
          own = (case port of Some p \<Rightarrow> scopes p | None \<Rightarrow> [])
      in case highest_priority None (own @ shared) host_key of
           None \<Rightarrow> None
         | Some highest \<Rightarrow>
             map_option snd
               (search_scopes (own \<noteq> [] \<and> shared \<noteq> []) highest None (own @ shared) host_key q))"

definition has_http_routes :: "route_table \<Rightarrow> u16 \<Rightarrow> bool" where
  "has_http_routes t server_port =
     (let port = map_of (listener_scopes t) server_port
      in (case port of Some p \<Rightarrow> scopes p \<noteq> [] | None \<Rightarrow> False) \<or> shared_scopes_of t port \<noteq> [])"

definition http_scopes :: "route_table \<Rightarrow> listener_scope list" where
  "http_scopes t = concat (map (scopes \<circ> snd) (listener_scopes t)) @ shared_scopes t"

definition has_tcp_route :: "route_table \<Rightarrow> u16 \<Rightarrow> bool" where
  "has_tcp_route t server_port \<longleftrightarrow> map_of (tcp_routes t) server_port \<noteq> None"

definition find_tcp_backends :: "route_table \<Rightarrow> u16 \<Rightarrow> backend list option" where
  "find_tcp_backends t server_port = map_of (tcp_routes t) server_port"

definition find_udp_backends :: "route_table \<Rightarrow> u16 \<Rightarrow> backend list option" where
  "find_udp_backends t server_port = map_of (udp_routes t) server_port"

section \<open>TLS passthrough\<close>

text \<open>
  The route a hello selects, with what its round-robin key is hashed from: the port and listener
  of the scope, the kind of match and the configured name.
\<close>

type_synonym tls_key = "u16 \<times> bytes \<times> char \<times> bytes"

definition tls_key :: "u16 \<Rightarrow> tls_scope \<Rightarrow> char \<Rightarrow> bytes \<Rightarrow> tls_key" where
  "tls_key port s kind nm = (port, case ts_hostname s of Some h \<Rightarrow> h | None \<Rightarrow> [], kind, nm)"

fun tls_find :: "(tls_scope \<Rightarrow> backend list option) \<Rightarrow> char \<Rightarrow> bytes \<Rightarrow> (u16 \<times> tls_scope) list \<Rightarrow>
    (backend list \<times> tls_key) option" where
  "tls_find sel kind nm [] = None"
| "tls_find sel kind nm ((port, s) # ss) =
     (case sel s of Some bs \<Rightarrow> Some (bs, tls_key port s kind nm) | None \<Rightarrow> tls_find sel kind nm ss)"

fun tls_find_wildcard :: "bytes list \<Rightarrow> (u16 \<times> tls_scope) list \<Rightarrow> (backend list \<times> tls_key) option" where
  "tls_find_wildcard [] ss = None"
| "tls_find_wildcard (parent # parents) ss =
     (case tls_find (\<lambda>s. map_of (ts_wildcard s) parent) (CHR ''*'') parent ss of
        Some r \<Rightarrow> Some r | None \<Rightarrow> tls_find_wildcard parents ss)"

definition tls_route :: "route_table \<Rightarrow> bytes option \<Rightarrow> u16 \<Rightarrow> bytes option \<Rightarrow> (backend list \<times> tls_key) option" where
  "tls_route t sni server_port listener =
     (let own = (case map_of (tls_scopes t) server_port of
                   Some ss \<Rightarrow> List.find (\<lambda>s. ts_hostname s = listener) ss | None \<Rightarrow> None);
          shared = (if server_port = 0 then []
                    else case map_of (tls_scopes t) 0 of Some ss \<Rightarrow> ss | None \<Rightarrow> []);
          ss = (case own of Some s \<Rightarrow> [(server_port, s)] | None \<Rightarrow> []) @ map (Pair 0) shared;
          named = (case sni of
             None \<Rightarrow> None
           | Some name \<Rightarrow>
               (case tls_find (\<lambda>s. map_of (ts_exact s) name) (CHR ''='') name ss of
                  Some r \<Rightarrow> Some r
                | None \<Rightarrow> tls_find_wildcard (parent_domains name) ss))
      in case named of Some r \<Rightarrow> Some r | None \<Rightarrow> tls_find ts_catch_all (CHR ''.'') [] ss)"

datatype passthrough_miss = NoRoute | NoBackends | NoWeight | Rejected

section \<open>Fractions\<close>

lemma gcd_loop_gcd: "gcd_loop g rest = gcd g rest"
proof (induction g rest rule: gcd_loop.induct)
  case (1 g rest)
  then show ?case
    by (subst gcd_loop.simps) (auto simp: gcd_red_nat [of g rest])
qed

lemma fraction_new_Some:
  "0 < d \<Longrightarrow> n \<le> d \<Longrightarrow>
     fraction_new n d = Some \<lparr>numerator = n div gcd n d, denominator = d div gcd n d\<rparr>"
  by (simp add: fraction_new_def gcd_loop_gcd Let_def)

text \<open>
  C16. A mirror fraction copies exactly the share it was configured with: \<open>n/d\<close> is accepted
  if and only if \<open>d\<close> is positive and \<open>n\<close> at most \<open>d\<close>, and of the equally likely draws below
  the reduced denominator exactly the share \<open>n/d\<close> mirrors.
\<close>

theorem fraction_exact:
  "(fraction_new n d = None \<longleftrightarrow> d = 0 \<or> d < n) \<and>
   (0 < d \<and> n \<le> d \<longrightarrow> (\<exists>f. fraction_new n d = Some f \<and> 0 < denominator f \<and>
      card {draw. draw < denominator f \<and> sample f draw} * d = n * denominator f))"
proof -
  have "\<exists>f. fraction_new n d = Some f \<and> 0 < denominator f \<and>
      card {draw. draw < denominator f \<and> sample f draw} * d = n * denominator f"
    if "0 < d" "n \<le> d"
  proof -
    let ?g = "gcd n d" let ?f = "\<lparr>numerator = n div ?g, denominator = d div ?g\<rparr>"
    have g: "0 < ?g" "?g dvd n" "?g dvd d" using that by auto
    have le: "n div ?g \<le> d div ?g" using that(2) by (simp add: div_le_mono)
    have "{draw. draw < denominator ?f \<and> sample ?f draw} = {..< n div ?g}"
      using le by (auto simp: sample_def)
    moreover have "n div ?g * d = n * (d div ?g)"
      using g by (metis div_mult_swap dvd_div_mult mult.commute)
    moreover have "0 < d div ?g" using that g by (simp add: dvd_imp_le div_greater_zero_iff)
    ultimately show ?thesis using fraction_new_Some [OF that] by simp
  qed
  then show ?thesis by (auto simp: fraction_new_def Let_def)
qed

theorem fraction_exact_witness:
  "\<exists>f. fraction_new 5 1000 = Some f \<and> 0 < denominator f \<and>
      card {draw. draw < denominator f \<and> sample f draw} * 1000 = 5 * denominator f"
  using fraction_exact [of 5 1000] by simp

section \<open>Listener isolation\<close>

definition own_scopes :: "route_table \<Rightarrow> u16 \<Rightarrow> listener_scope list" where
  "own_scopes t port = (case map_of (listener_scopes t) port of Some p \<Rightarrow> scopes p | None \<Rightarrow> [])"

definition borrowed_scopes :: "route_table \<Rightarrow> u16 \<Rightarrow> listener_scope list" where
  "borrowed_scopes t port = shared_scopes_of t (map_of (listener_scopes t) port)"

text \<open>A listener scope among those searched that no other one's hostname beats.\<close>

definition top_scope :: "listener_scope list \<Rightarrow> bytes \<Rightarrow> listener_scope \<Rightarrow> bool" where
  "top_scope ss host s \<longleftrightarrow> s \<in> set ss \<and> (\<exists>p. hostname_match_priority s host = Some p \<and>
     (\<forall>s' \<in> set ss. \<forall>p'. hostname_match_priority s' host = Some p' \<longrightarrow> p' \<le> p))"

lemma highest_priority_mono: "highest_priority (Some h) ss host = Some p \<Longrightarrow> h \<le> p"
  by (induction ss arbitrary: h) (fastforce split: option.splits if_splits)+

lemma highest_priority_None:
  "highest_priority held ss host = None \<longleftrightarrow>
     held = None \<and> (\<forall>s \<in> set ss. hostname_match_priority s host = None)"
  by (induction ss arbitrary: held) (auto split: option.splits)

lemma highest_priority_Some:
  "highest_priority held ss host = Some p \<Longrightarrow>
     (held = Some p \<or> (\<exists>s \<in> set ss. hostname_match_priority s host = Some p)) \<and>
     (\<forall>s \<in> set ss. \<forall>p'. hostname_match_priority s host = Some p' \<longrightarrow> p' \<le> p)"
proof (induction ss arbitrary: held)
  case (Cons s ss)
  show ?case
  proof (cases "hostname_match_priority s host")
    case None
    then show ?thesis using Cons by auto
  next
    case (Some ps)
    define h where "h = (case held of None \<Rightarrow> ps | Some h \<Rightarrow> if ps > h then ps else h)"
    have h: "highest_priority (Some h) ss host = Some p"
      using Cons.prems Some by (auto simp: h_def split: option.splits if_splits)
    then have "ps \<le> p"
      using highest_priority_mono [OF h] by (auto simp: h_def split: option.splits if_splits)
    moreover have "h = ps \<or> held = Some h" by (auto simp: h_def split: option.splits if_splits)
    ultimately show ?thesis using Cons.IH [OF h] Some by auto
  qed
qed simp

lemma top_scope_iff:
  assumes "highest_priority None ss host = Some p"
  shows "top_scope ss host s \<longleftrightarrow> s \<in> set ss \<and> hostname_match_priority s host = Some p"
  using highest_priority_Some [OF assms] unfolding top_scope_def by auto (metis order_antisym)

text \<open>The orders behind the comparisons: rules by specificity, candidates by host first.\<close>

definition precedence_key :: "http_route_rule \<Rightarrow> nat \<times> int \<times> int \<times> int \<times> int" where
  "precedence_key r = (rank (r_path_match_type r), - int (length (r_path r)),
     (if method_match r = None then 0 else - 1), - int (length (header_matches r)),
     - int (length (query_param_matches r)))"

lemma match_precedence_key: "match_precedence a b = cmp (precedence_key a) (precedence_key b)"
proof -
  have swap: "cmp (x :: nat) y = cmp (- int y) (- int x)" for x y by (auto simp: cmp_def)
  have meth: "cmp (method_match b \<noteq> None) (method_match a \<noteq> None) =
      cmp (if method_match a = None then 0 else - 1 :: int) (if method_match b = None then 0 else - 1)"
    by (auto simp: cmp_def)
  show ?thesis
    unfolding match_precedence_def precedence_key_def meth
      swap [of "length (r_path b)"] swap [of "length (header_matches b)"]
      swap [of "length (query_param_matches b)"]
    by (simp only: then_with_cmp)
qed

definition candidate_key :: "nat \<times> http_route_rule \<Rightarrow> int \<times> (nat \<times> int \<times> int \<times> int \<times> int) \<times> nat" where
  "candidate_key c = (- int (fst c), precedence_key (snd c), route_index (snd c))"

lemma outranks_key: "outranks a b \<longleftrightarrow> candidate_key a < candidate_key b"
proof -
  have "cmp (fst b) (fst a) = cmp (- int (fst a)) (- int (fst b))" by (auto simp: cmp_def)
  then show ?thesis
    unfolding outranks_def match_precedence_key candidate_key_def
    by (simp add: then_with_cmp) (simp add: cmp_def)
qed

definition at_least :: "nat \<Rightarrow> bytes \<Rightarrow> listener_scope \<Rightarrow> bool" where
  "at_least h host s = (case hostname_match_priority s host of Some p \<Rightarrow> h \<le> p | None \<Rightarrow> False)"

definition better :: "nat \<times> http_route_rule \<Rightarrow> (nat \<times> http_route_rule) option \<Rightarrow> nat \<times> http_route_rule" where
  "better found best = (case best of None \<Rightarrow> found | Some held \<Rightarrow> if outranks found held then found else held)"

lemma search_scopes_Cons:
  "search_scopes c h best (s # ss) host q =
     (if at_least h host s
      then (case lookup_http_route s host q of
              Some found \<Rightarrow> if \<not> c then Some found
                else search_scopes c h (Some (better found best)) ss host q
            | None \<Rightarrow> search_scopes c h best ss host q)
      else search_scopes c h best ss host q)"
  by (simp add: at_least_def better_def split: option.split)

lemma search_scopes_sound:
  "search_scopes c h best ss host q = Some f \<Longrightarrow> best = Some f \<or>
     (\<exists>s \<in> set ss. at_least h host s \<and> lookup_http_route s host q = Some f)"
proof (induction ss arbitrary: best)
  case (Cons s ss)
  show ?case
  proof (cases "lookup_http_route s host q")
    case (Some g)
    have "better g best = g \<or> best = Some (better g best)"
      by (auto simp: better_def split: option.split)
    then show ?thesis
      using Cons.prems Cons.IH [of best] Cons.IH [of "Some (better g best)"] Some
      by (auto simp: search_scopes_Cons simp del: search_scopes.simps(2) split: if_splits)
  qed (use Cons in \<open>auto simp: search_scopes_Cons simp del: search_scopes.simps(2) split: if_splits\<close>)
qed simp

lemma search_scopes_None:
  "search_scopes c h best ss host q = None \<longleftrightarrow> best = None \<and>
     (\<forall>s \<in> set ss. at_least h host s \<longrightarrow> lookup_http_route s host q = None)"
proof (induction ss arbitrary: best)
  case (Cons s ss)
  then show ?case
    by (cases "lookup_http_route s host q"; cases c)
      (simp_all add: search_scopes_Cons del: search_scopes.simps(2) not_None_eq)
qed simp

lemma better_key:
  "candidate_key (better g best) \<le> candidate_key g"
  "candidate_key (better g (Some b)) \<le> candidate_key b"
  by (auto simp: better_def outranks_key split: option.split)

lemma search_scopes_best:
  "search_scopes True h best ss host q = Some f \<Longrightarrow>
     (\<forall>b. best = Some b \<longrightarrow> candidate_key f \<le> candidate_key b) \<and>
     (\<forall>s \<in> set ss. \<forall>g. at_least h host s \<longrightarrow> lookup_http_route s host q = Some g \<longrightarrow>
        candidate_key f \<le> candidate_key g)"
proof (induction ss arbitrary: best)
  case (Cons s ss)
  show ?case
  proof (cases "at_least h host s \<and> lookup_http_route s host q \<noteq> None")
    case True
    then obtain g where g: "at_least h host s" "lookup_http_route s host q = Some g" by auto
    have "search_scopes True h (Some (better g best)) ss host q = Some f"
      using Cons.prems g by (simp add: search_scopes_Cons del: search_scopes.simps(2))
    note IH = Cons.IH [OF this]
    have "candidate_key f \<le> candidate_key b" if "best = Some b" for b
      using IH better_key(2) [of g b] that by (auto intro: order_trans)
    moreover have "candidate_key f \<le> candidate_key g"
      using IH better_key(1) [of g best] by (auto intro: order_trans)
    ultimately show ?thesis using IH g by auto
  next
    case False
    then have "search_scopes True h best ss host q = Some f"
      using Cons.prems
      by (cases "lookup_http_route s host q")
        (auto simp: search_scopes_Cons simp del: search_scopes.simps(2) split: if_splits)
    then show ?thesis using Cons.IH [of best] False by auto
  qed
qed simp

lemma find_http_route_unfold:
  "find_http_route t host q port =
     (case highest_priority None (own_scopes t port @ borrowed_scopes t port) (host_key host) of
        None \<Rightarrow> None
      | Some highest \<Rightarrow> map_option snd (search_scopes
          (own_scopes t port \<noteq> [] \<and> borrowed_scopes t port \<noteq> []) highest None
          (own_scopes t port @ borrowed_scopes t port) (host_key host) q))"
  unfolding find_http_route_def own_scopes_def borrowed_scopes_def Let_def by (rule refl)

lemma top_scope_at_least:
  assumes "highest_priority None ss host = Some p"
  shows "top_scope ss host s \<longleftrightarrow> s \<in> set ss \<and> at_least p host s"
  using highest_priority_Some [OF assms] top_scope_iff [OF assms, of s]
  by (auto simp: at_least_def split: option.splits intro: order_antisym)

text \<open>
  C17. Listeners are isolated. A request is answered only out of the listener scopes whose
  hostname matches its host best on its port: the rule found is what one of those finds, and
  none is found exactly when all of those miss, whatever less specific listeners would serve.
\<close>

theorem listener_isolation:
  "(find_http_route t host q port = Some rule \<longrightarrow>
      (\<exists>s prec. top_scope (own_scopes t port @ borrowed_scopes t port) (host_key host) s \<and>
         lookup_http_route s (host_key host) q = Some (prec, rule)))
   \<and> (find_http_route t host q port = None \<longleftrightarrow>
      (\<forall>s. top_scope (own_scopes t port @ borrowed_scopes t port) (host_key host) s \<longrightarrow>
         lookup_http_route s (host_key host) q = None))"
proof -
  let ?ss = "own_scopes t port @ borrowed_scopes t port" and ?h = "host_key host"
  let ?c = "own_scopes t port \<noteq> [] \<and> borrowed_scopes t port \<noteq> []"
  note unf = find_http_route_unfold [of t host q port]
  show ?thesis
  proof (cases "highest_priority None ?ss ?h")
    case None
    then have "\<not> top_scope ?ss ?h s" for s
      by (auto simp: highest_priority_None top_scope_def)
    then show ?thesis using None by (simp add: unf)
  next
    case (Some p)
    note top = top_scope_at_least [OF Some]
    have "\<exists>s prec. top_scope ?ss ?h s \<and> lookup_http_route s ?h q = Some (prec, rule)"
      if found: "find_http_route t host q port = Some rule"
    proof -
      obtain prec where "search_scopes ?c p None ?ss ?h q = Some (prec, rule)"
        using found by (auto simp: unf Some)
      then show ?thesis using search_scopes_sound top by blast
    qed
    moreover have "find_http_route t host q port = None \<longleftrightarrow>
        (\<forall>s. top_scope ?ss ?h s \<longrightarrow> lookup_http_route s ?h q = None)"
      using search_scopes_None [of ?c p None ?ss ?h q] by (simp add: unf Some top) blast
    ultimately show ?thesis by blast
  qed
qed

text \<open>
  One port holds one scope per listener hostname, so at most one of its scopes takes a host at
  any priority.
\<close>

definition distinct_listeners :: "listener_scope list \<Rightarrow> bool" where
  "distinct_listeners ss \<longleftrightarrow> distinct (map ls_hostname ss) \<and>
     (\<forall>s \<in> set ss. \<forall>h. ls_hostname s = Some h \<longrightarrow> length h < u32_MAX)"

lemma same_priority_hostname:
  assumes "hostname_match_priority s host = Some p" "hostname_match_priority s' host = Some p"
    and "\<forall>h. ls_hostname s = Some h \<longrightarrow> length h < u32_MAX"
    and "\<forall>h. ls_hostname s' = Some h \<longrightarrow> length h < u32_MAX"
  shows "ls_hostname s = ls_hostname s'"
  using assms
  by (auto simp: hostname_match_priority_def wildcard_covers_iff u32_MAX_def
      split: option.splits if_splits)

lemma distinct_map_eqD: "distinct (map f xs) \<Longrightarrow> x \<in> set xs \<Longrightarrow> y \<in> set xs \<Longrightarrow> f x = f y \<Longrightarrow> x = y"
  by (auto simp: distinct_map inj_on_def)

lemma distinct_listeners_unique:
  assumes "distinct_listeners ss" "s \<in> set ss" "s' \<in> set ss"
    and "hostname_match_priority s host = Some p" "hostname_match_priority s' host = Some p"
  shows "s' = s"
proof -
  have "ls_hostname s' = ls_hostname s"
    using assms by (intro same_priority_hostname [of s' host p s]) (auto simp: distinct_listeners_def)
  then show ?thesis using assms distinct_map_eqD [of ls_hostname ss s' s]
    by (auto simp: distinct_listeners_def)
qed


definition sample_scope :: "bytes option \<Rightarrow> nat \<Rightarrow> listener_scope" where
  "sample_scope h i = \<lparr>ls_port = 80, ls_hostname = h, http_routes = [], wildcard_http_routes = [],
     catch_all_http_routes = Some [(rule_new Prefix ''/'' [] [] [] [])\<lparr>route_index := i\<rparr>]\<rparr>"

definition sample_table :: route_table where
  "sample_table = \<lparr>listener_scopes = [(80, \<lparr>scopes = [sample_scope None 1, sample_scope (Some ''*.a.io'') 2],
       shared = True\<rparr>)], shared_scopes = [sample_scope None 0, sample_scope (Some ''*.a.io'') 3],
     shared_on_every_port = False, tcp_routes = [], udp_routes = [], tls_scopes = []\<rparr>"

definition sample_request :: request where
  "sample_request = \<lparr>q_method = ''GET'', q_path = ''/x'', q_header_data = [], q_query = []\<rparr>"

lemma sample_found:
  "map_option route_index (find_http_route sample_table ''B.A.io'' sample_request 80) = Some 2"
  by code_simp

theorem listener_isolation_witness:
  "\<exists>s prec rule. route_index rule = 2 \<and>
     top_scope (own_scopes sample_table 80 @ borrowed_scopes sample_table 80) (host_key ''B.A.io'') s \<and>
     lookup_http_route s (host_key ''B.A.io'') sample_request = Some (prec, rule)"
proof -
  obtain rule where "find_http_route sample_table ''B.A.io'' sample_request 80 = Some rule"
      "route_index rule = 2"
    using sample_found by auto
  then show ?thesis
    using listener_isolation [of sample_table "''B.A.io''" sample_request 80 rule] by blast
qed


section \<open>Host case\<close>

lemma host_key_lower:
  "is_utf8 (to_ascii_lowercase host) \<Longrightarrow> length host \<le> 256 \<Longrightarrow> host_key host = to_ascii_lowercase host"
  by (auto simp: host_key_def list_ex_iff Let_def to_ascii_lowercase_id)

lemma no_uppercase_lowered: "\<not> list_ex is_ascii_uppercase (to_ascii_lowercase host)"
  by (auto simp: list_ex_iff to_ascii_lowercase_def)



definition wildcard_table :: route_table where
  "wildcard_table = \<lparr>listener_scopes = [(80, \<lparr>scopes = [sample_scope (Some ''*.a.io'') 2], shared = False\<rparr>)],
     shared_scopes = [], shared_on_every_port = False, tcp_routes = [], udp_routes = [], tls_scopes = []\<rparr>"

definition long_host :: bytes where
  "long_host = CHR ''A'' # replicate 250 (CHR ''a'') @ ''.a.io.evil.org''"


section \<open>TLS route ranking\<close>

definition tls_searched :: "route_table \<Rightarrow> u16 \<Rightarrow> bytes option \<Rightarrow> (u16 \<times> tls_scope) list" where
  "tls_searched t port listener =
     (case (case map_of (tls_scopes t) port of
              Some ss \<Rightarrow> List.find (\<lambda>s. ts_hostname s = listener) ss | None \<Rightarrow> None) of
        Some s \<Rightarrow> [(port, s)] | None \<Rightarrow> []) @
     map (Pair 0) (if port = 0 then [] else case map_of (tls_scopes t) 0 of Some ss \<Rightarrow> ss | None \<Rightarrow> [])"

lemma tls_route_unfold:
  "tls_route t (Some sni) port listener =
     (case tls_find (\<lambda>s. map_of (ts_exact s) sni) (CHR ''='') sni (tls_searched t port listener) of
        Some r \<Rightarrow> Some r
      | None \<Rightarrow>
          (case tls_find_wildcard (parent_domains sni) (tls_searched t port listener) of
             Some r \<Rightarrow> Some r
           | None \<Rightarrow> tls_find ts_catch_all (CHR ''.'') [] (tls_searched t port listener)))"
  unfolding tls_route_def tls_searched_def Let_def by (auto split: option.split)

lemma tls_find_None: "tls_find sel kind nm ss = None \<longleftrightarrow> (\<forall>s \<in> snd ` set ss. sel s = None)"
proof (induction ss)
  case (Cons x ss)
  then show ?case by (cases x; cases "sel (snd x)") auto
qed simp

lemma tls_find_Some:
  "tls_find sel kind nm ss = Some (bs, p, h, k, n) \<Longrightarrow>
     k = kind \<and> n = nm \<and> (\<exists>s. (p, s) \<in> set ss \<and> sel s = Some bs)"
proof (induction ss)
  case (Cons x ss)
  then show ?case by (cases x; cases "sel (snd x)") (auto simp: tls_key_def)
qed simp

lemma tls_find_wildcard_None:
  "tls_find_wildcard ps ss = None \<longleftrightarrow> (\<forall>d \<in> set ps. \<forall>s \<in> snd ` set ss. map_of (ts_wildcard s) d = None)"
proof (induction ps)
  case (Cons d ps)
  then show ?case
    using tls_find_None [of "\<lambda>s. map_of (ts_wildcard s) d" "CHR ''*''" d ss]
    by (cases "tls_find (\<lambda>s. map_of (ts_wildcard s) d) (CHR ''*'') d ss") (simp_all del: not_None_eq)
qed simp

lemma tls_find_wildcard_Some:
  "tls_find_wildcard ps ss = Some (bs, p, h, k, n) \<Longrightarrow> sorted_wrt (\<lambda>a b. length b < length a) ps \<Longrightarrow>
     k = CHR ''*'' \<and> n \<in> set ps \<and> (\<exists>s. (p, s) \<in> set ss \<and> map_of (ts_wildcard s) n = Some bs) \<and>
     (\<forall>d \<in> set ps. length n < length d \<longrightarrow> (\<forall>s \<in> snd ` set ss. map_of (ts_wildcard s) d = None))"
proof (induction ps)
  case (Cons d ps)
  show ?case
  proof (cases "tls_find (\<lambda>s. map_of (ts_wildcard s) d) (CHR ''*'') d ss")
    case None
    then have "\<forall>s \<in> snd ` set ss. map_of (ts_wildcard s) d = None" by (simp only: tls_find_None)
    moreover have "tls_find_wildcard ps ss = Some (bs, p, h, k, n)" using Cons.prems None by simp
    ultimately show ?thesis using Cons.IH Cons.prems by simp
  next
    case (Some r)
    then have "tls_find (\<lambda>s. map_of (ts_wildcard s) d) (CHR ''*'') d ss = Some (bs, p, h, k, n)"
      using Cons.prems by simp
    from tls_find_Some [OF this] show ?thesis using Cons.prems by auto
  qed
qed simp

text \<open>
  C21. A TLS passthrough connection goes to the most specific route for its SNI among its
  listener's and the shared ones: an exact name beats every wildcard, a longer wildcard beats a
  shorter, any of them beats a catch-all, and it is dropped exactly when none of them is
  configured. The round-robin key names the configured route, never more than the SNI matched.
\<close>

theorem tls_route_most_specific:
  "(tls_route t (Some sni) port listener = None \<longleftrightarrow>
      (\<forall>s \<in> snd ` set (tls_searched t port listener). map_of (ts_exact s) sni = None \<and> ts_catch_all s = None \<and>
         (\<forall>d. wildcard_covers d sni \<longrightarrow> map_of (ts_wildcard s) d = None)))
   \<and> (tls_route t (Some sni) port listener = Some (bs, p, h, k, n) \<longrightarrow>
      (\<exists>s. (p, s) \<in> set (tls_searched t port listener) \<and>
         (k = CHR ''='' \<and> n = sni \<and> map_of (ts_exact s) n = Some bs
          \<or> k = CHR ''*'' \<and> wildcard_covers n sni \<and> map_of (ts_wildcard s) n = Some bs
          \<or> k = CHR ''.'' \<and> n = [] \<and> ts_catch_all s = Some bs)) \<and>
      (\<forall>s' \<in> snd ` set (tls_searched t port listener). k \<noteq> CHR ''='' \<longrightarrow> map_of (ts_exact s') sni = None \<and>
         (\<forall>d. wildcard_covers d sni \<and> (k = CHR ''*'' \<longrightarrow> length n < length d) \<longrightarrow>
            map_of (ts_wildcard s') d = None)))"
proof -
  let ?ss = "tls_searched t port listener"
  let ?e = "tls_find (\<lambda>s. map_of (ts_exact s) sni) (CHR ''='') sni ?ss"
  let ?w = "tls_find_wildcard (parent_domains sni) ?ss"
  have dec: "sorted_wrt (\<lambda>a b. length b < length a) (parent_domains sni)"
    using parent_domains_decreasing [of sni] by simp
  note eN = tls_find_None [of "\<lambda>s. map_of (ts_exact s) sni" "CHR ''=''" sni ?ss]
  note wN = tls_find_wildcard_None [of "parent_domains sni" ?ss]
  note cN = tls_find_None [of ts_catch_all "CHR ''.''" "[]" ?ss]
  show ?thesis
  proof (cases ?e)
    case e: None
    then have ex: "\<forall>s \<in> snd ` set ?ss. map_of (ts_exact s) sni = None" by (simp only: eN)
    show ?thesis
    proof (cases ?w)
      case None
      then have "\<forall>d \<in> set (parent_domains sni). \<forall>s \<in> snd ` set ?ss. map_of (ts_wildcard s) d = None"
        by (simp only: wN)
      then have wi: "\<forall>s \<in> snd ` set ?ss. \<forall>d. wildcard_covers d sni \<longrightarrow> map_of (ts_wildcard s) d = None"
        by (simp add: wildcard_covers_parent)
      have "tls_route t (Some sni) port listener = tls_find ts_catch_all (CHR ''.'') [] ?ss"
        using e None by (simp add: tls_route_unfold)
      then show ?thesis using ex wi cN tls_find_Some [of ts_catch_all "CHR ''.''" "[]" ?ss] by fastforce
    next
      case (Some r)
      then have r: "tls_route t (Some sni) port listener = Some r" using e by (simp add: tls_route_unfold)
      have "\<exists>s \<in> snd ` set ?ss. \<exists>d. wildcard_covers d sni \<and> map_of (ts_wildcard s) d \<noteq> None"
        using Some wN wildcard_covers_parent by auto
      then show ?thesis
        using r ex tls_find_wildcard_Some [OF _ dec, of ?ss bs p h k n] Some wildcard_covers_parent
        by fastforce
    qed
  next
    case (Some r)
    then have r: "tls_route t (Some sni) port listener = Some r" by (simp add: tls_route_unfold)
    have "\<exists>s \<in> snd ` set ?ss. map_of (ts_exact s) sni \<noteq> None" using Some eN by auto
    then show ?thesis
      using r tls_find_Some [of "\<lambda>s. map_of (ts_exact s) sni" "CHR ''=''" sni ?ss bs p h k n] Some
      by fastforce
  qed
qed

definition sample_tls_table :: route_table where
  "sample_tls_table = wildcard_table\<lparr>tls_scopes :=
     [(443, [\<lparr>ts_hostname = None, ts_exact = [(''y.b.io'', [])], ts_wildcard = [(''b.io'', []), (''io'', [])],
        ts_catch_all = Some []\<rparr>])]\<rparr>"

theorem tls_route_most_specific_witness:
  "tls_route sample_tls_table (Some ''x.b.io'') 443 None = Some ([], 443, [], CHR ''*'', ''b.io'') \<and>
   (\<exists>s. (443, s) \<in> set (tls_searched sample_tls_table 443 None) \<and> wildcard_covers ''b.io'' ''x.b.io'' \<and>
      map_of (ts_wildcard s) ''b.io'' = Some [])"
proof -
  have "tls_route sample_tls_table (Some ''x.b.io'') 443 None = Some ([], 443, [], CHR ''*'', ''b.io'')"
    by code_simp
  then show ?thesis
    using tls_route_most_specific [of sample_tls_table "''x.b.io''" 443 None "[]" 443 "[]" "CHR ''*''" "''b.io''"]
    by auto
qed

end
