(* ===== verification/Route_Build.thy ===== *)
theory Route_Build
  imports Route_Table "HOL-Library.Multiset"
begin

text \<open>
  Building the route table (\<open>src/src/routing/build.rs\<close>) and the addresses it routes to
  (\<open>routed_addrs\<close> of \<open>src/src/proxy/health.rs\<close>). Where the code returns a mutable reference
  into the table, the model takes what the caller does with it as an argument: \<open>push_route\<close>
  takes the update of the entry it returns, \<open>scope_mut\<close> that of the scope.
  Address resolution and the hash of an address are parameters.
\<close>

section \<open>Listener scopes\<close>

definition listener_scope_new :: "u16 \<Rightarrow> bytes option \<Rightarrow> listener_scope" where
  "listener_scope_new port listener_hostname =
     \<lparr>ls_port = port, ls_hostname = map_option to_ascii_lowercase listener_hostname,
      http_routes = [], wildcard_http_routes = [], catch_all_http_routes = None\<rparr>"

fun prefix_sums :: "nat \<Rightarrow> nat list \<Rightarrow> nat list" where
  "prefix_sums acc [] = []"
| "prefix_sums acc (w # ws) = (acc + w) # prefix_sums (acc + w) ws"

definition rule_metadata :: "http_route_rule \<Rightarrow> http_route_rule" where
  "rule_metadata rule =
     (let cumulative = prefix_sums 0 (map b_weight (r_backends rule))
      in rule\<lparr>has_filters := r_filters rule \<noteq> [] \<or> list_ex (\<lambda>b. b_filters b \<noteq> []) (r_backends rule),
              cumulative_weights := cumulative,
              total_weight := (if cumulative = [] then 0 else last cumulative)\<rparr>)"

definition push_route :: "(host_entry \<Rightarrow> host_entry) \<Rightarrow> bytes \<Rightarrow> http_route_rule \<Rightarrow> listener_scope \<Rightarrow> listener_scope" where
  "push_route finish route_host rule s =
     (let rule = rule_metadata rule;
          host_lower = to_ascii_lowercase route_host;
          push = (\<lambda>entry. finish (entry @ [rule]))
      in if host_lower = ''*''
         then s\<lparr>catch_all_http_routes :=
                Some (push (case catch_all_http_routes s of Some e \<Rightarrow> e | None \<Rightarrow> []))\<rparr>
         else (case strip_prefix host_lower ''*.'' of
                 Some stripped \<Rightarrow> s\<lparr>wildcard_http_routes := upsert stripped [] push (wildcard_http_routes s)\<rparr>
               | None \<Rightarrow> s\<lparr>http_routes := upsert host_lower [] push (http_routes s)\<rparr>))"

definition map_host_entries :: "(host_entry \<Rightarrow> host_entry) \<Rightarrow> listener_scope \<Rightarrow> listener_scope" where
  "map_host_entries f s =
     s\<lparr>http_routes := map_values f (http_routes s),
       wildcard_http_routes := map_values f (wildcard_http_routes s),
       catch_all_http_routes := map_option f (catch_all_http_routes s)\<rparr>"

section \<open>The table\<close>

definition route_table_new :: route_table where
  "route_table_new = \<lparr>listener_scopes = [], shared_scopes = [], shared_on_every_port = True,
     tcp_routes = [], udp_routes = [], tls_scopes = []\<rparr>"

definition sort_rules :: "http_route_rule list \<Rightarrow> http_route_rule list" where
  "sort_rules rules = sort_by match_precedence rules"

text \<open>The first scope with the hostname is updated, or a new one appended.\<close>

fun update_scope :: "u16 \<Rightarrow> bytes option \<Rightarrow> (listener_scope \<Rightarrow> listener_scope) \<Rightarrow> listener_scope list \<Rightarrow>
    listener_scope list" where
  "update_scope port h f [] = [f (listener_scope_new port h)]"
| "update_scope port h f (s # ss) = (if ls_hostname s = h then f s # ss else s # update_scope port h f ss)"

definition scope_mut :: "u16 \<Rightarrow> bytes option \<Rightarrow> (listener_scope \<Rightarrow> listener_scope) \<Rightarrow> route_table \<Rightarrow> route_table" where
  "scope_mut listener_port listener_hostname f t =
     (let normalized = map_option to_ascii_lowercase listener_hostname
      in if listener_port = 0
         then t\<lparr>shared_scopes := update_scope listener_port normalized f (shared_scopes t)\<rparr>
         else t\<lparr>listener_scopes := upsert listener_port \<lparr>scopes = [], shared = False\<rparr>
                (\<lambda>p. p\<lparr>scopes := update_scope listener_port normalized f (scopes p)\<rparr>) (listener_scopes t)\<rparr>)"

definition add_http_route_for_listener :: "u16 \<Rightarrow> bytes option \<Rightarrow> bytes \<Rightarrow> http_route_rule \<Rightarrow> route_table \<Rightarrow> route_table" where
  "add_http_route_for_listener port lh route_host rule t =
     scope_mut port lh (push_route sort_rules route_host rule) t"

definition push_http_route_for_listener :: "u16 \<Rightarrow> bytes option \<Rightarrow> bytes \<Rightarrow> http_route_rule \<Rightarrow> route_table \<Rightarrow> route_table" where
  "push_http_route_for_listener port lh route_host rule t =
     scope_mut port lh (push_route (\<lambda>e. e) route_host rule) t"

definition sort_http_routes :: "route_table \<Rightarrow> route_table" where
  "sort_http_routes t =
     t\<lparr>listener_scopes := map_values
          (\<lambda>p. p\<lparr>scopes := map (map_host_entries sort_rules) (scopes p)\<rparr>) (listener_scopes t),
       shared_scopes := map (map_host_entries sort_rules) (shared_scopes t)\<rparr>"

definition share_any_port_scopes_on :: "u16 list \<Rightarrow> route_table \<Rightarrow> route_table" where
  "share_any_port_scopes_on ports t =
     fold (\<lambda>port t. t\<lparr>listener_scopes :=
         upsert port \<lparr>scopes = [], shared = False\<rparr> (\<lambda>p. p\<lparr>shared := True\<rparr>) (listener_scopes t)\<rparr>)
       ports (t\<lparr>shared_on_every_port := False\<rparr>)"

definition add_http_route :: "bytes \<Rightarrow> http_route_rule \<Rightarrow> route_table \<Rightarrow> route_table" where
  "add_http_route host rule t = add_http_route_for_listener 0 None host rule t"

definition insert_first :: "'k \<Rightarrow> backend list \<Rightarrow> ('k \<times> backend list) list \<Rightarrow> ('k \<times> backend list) list \<times> bool" where
  "insert_first k bs m = (case map_of m k of
     None \<Rightarrow> (upsert k bs (\<lambda>v. v) m, True)
   | Some _ \<Rightarrow> (m, False))"

definition add_tcp_route :: "u16 \<Rightarrow> backend list \<Rightarrow> route_table \<Rightarrow> route_table \<times> bool" where
  "add_tcp_route port bs t = (case insert_first port bs (tcp_routes t) of (m, ok) \<Rightarrow> (t\<lparr>tcp_routes := m\<rparr>, ok))"

definition add_udp_route :: "u16 \<Rightarrow> backend list \<Rightarrow> route_table \<Rightarrow> route_table \<times> bool" where
  "add_udp_route port bs t = (case insert_first port bs (udp_routes t) of (m, ok) \<Rightarrow> (t\<lparr>udp_routes := m\<rparr>, ok))"

text \<open>The registration within one TLS scope, and the search for the scope.\<close>

definition tls_scope_add :: "bytes \<Rightarrow> backend list \<Rightarrow> tls_scope \<Rightarrow> tls_scope \<times> bool" where
  "tls_scope_add route_host bs s =
     (let host_lower = to_ascii_lowercase route_host
      in if host_lower = ''*''
         then (case ts_catch_all s of
                 Some _ \<Rightarrow> (s, False)
               | None \<Rightarrow> (s\<lparr>ts_catch_all := Some bs\<rparr>, True))
         else (case strip_prefix host_lower ''*.'' of
                 Some parent \<Rightarrow> (case insert_first parent bs (ts_wildcard s) of
                     (m, ok) \<Rightarrow> (s\<lparr>ts_wildcard := m\<rparr>, ok))
               | None \<Rightarrow> (case insert_first host_lower bs (ts_exact s) of
                     (m, ok) \<Rightarrow> (s\<lparr>ts_exact := m\<rparr>, ok))))"

fun update_tls_scope :: "bytes option \<Rightarrow> (tls_scope \<Rightarrow> tls_scope \<times> bool) \<Rightarrow> tls_scope list \<Rightarrow> tls_scope list \<times> bool" where
  "update_tls_scope h f [] =
     (case f \<lparr>ts_hostname = h, ts_exact = [], ts_wildcard = [], ts_catch_all = None\<rparr> of (s, ok) \<Rightarrow> ([s], ok))"
| "update_tls_scope h f (s # ss) =
     (if ts_hostname s = h then (case f s of (s', ok) \<Rightarrow> (s' # ss, ok))
      else (case update_tls_scope h f ss of (ss', ok) \<Rightarrow> (s # ss', ok)))"

definition add_tls_route_for_listener :: "u16 \<Rightarrow> bytes option \<Rightarrow> bytes \<Rightarrow> backend list \<Rightarrow> route_table \<Rightarrow> route_table \<times> bool" where
  "add_tls_route_for_listener port lh route_host bs t =
     (let ss = (case map_of (tls_scopes t) port of Some ss \<Rightarrow> ss | None \<Rightarrow> [])
      in case update_tls_scope (map_option to_ascii_lowercase lh) (tls_scope_add route_host bs) ss of
           (ss', ok) \<Rightarrow> (t\<lparr>tls_scopes := upsert port [] (\<lambda>_. ss') (tls_scopes t)\<rparr>, ok))"

definition add_tls_route :: "u16 \<Rightarrow> bytes \<Rightarrow> backend list \<Rightarrow> route_table \<Rightarrow> route_table \<times> bool" where
  "add_tls_route port hostname bs t = add_tls_route_for_listener port None hostname bs t"

section \<open>Addresses\<close>

definition scope_entries :: "listener_scope \<Rightarrow> host_entry list" where
  "scope_entries s = map snd (http_routes s) @ map snd (wildcard_http_routes s) @
     (case catch_all_http_routes s of Some e \<Rightarrow> [e] | None \<Rightarrow> [])"

definition table_rules :: "route_table \<Rightarrow> http_route_rule list" where
  "table_rules t = concat (concat (map scope_entries (http_scopes t)))"

definition mirror_addrs :: "http_filter list \<Rightarrow> socket_addr list" where
  "mirror_addrs fs = List.map_filter (\<lambda>f. case f of RequestMirror a _ \<Rightarrow> Some a | _ \<Rightarrow> None) fs"

definition l4_backends :: "route_table \<Rightarrow> backend list" where
  "l4_backends t = concat (map snd (tcp_routes t) @ map snd (udp_routes t) @
     concat (map tls_scope_backends (concat (map snd (tls_scopes t)))))"

definition signature_addrs :: "route_table \<Rightarrow> socket_addr list" where
  "signature_addrs t =
     concat (map (\<lambda>rule. map b_addr (r_backends rule) @ mirror_addrs (r_filters rule)) (table_rules t)) @
     map b_addr (l4_backends t)"

definition dns_signature :: "(socket_addr \<Rightarrow> u64) \<Rightarrow> route_table \<Rightarrow> u64" where
  "dns_signature backend_addr_hash t =
     fold (\<lambda>h acc. acc + h) (map backend_addr_hash (signature_addrs t)) 0"

definition routed_addrs :: "route_table \<Rightarrow> socket_addr set" where
  "routed_addrs t = set (map b_addr (concat (map r_backends (table_rules t)) @ l4_backends t))"

section \<open>Backends\<close>

text \<open>
  \<open>parse_ip\<close> is the textual form of an IP literal and \<open>lookup\<close> what the resolver returns for a
  name and port, or nothing when it fails.
\<close>

definition resolve_socket_addrs :: "(bytes \<Rightarrow> ip_addr option) \<Rightarrow> (bytes \<Rightarrow> u16 \<Rightarrow> socket_addr list option) \<Rightarrow>
    bytes \<Rightarrow> u16 \<Rightarrow> socket_addr list option" where
  "resolve_socket_addrs parse_ip lookup address port =
     (case parse_ip address of
        Some ip \<Rightarrow> Some [SocketAddr ip port]
      | None \<Rightarrow>
          (case lookup address port of
             None \<Rightarrow> None
           | Some addrs \<Rightarrow>
               (let addrs = rev (remdups (rev addrs)) in if addrs = [] then None else Some addrs)))"

definition backend_with_weight :: "(bytes \<Rightarrow> u16 \<Rightarrow> socket_addr list option) \<Rightarrow> bytes \<Rightarrow> u16 \<Rightarrow> nat \<Rightarrow> backend option" where
  "backend_with_weight resolve address port weight =
     map_option (\<lambda>addrs. \<lparr>b_addr = addrs ! 0, b_weight = weight, b_filters = [], b_use_tls = False,
       b_server_name = address, b_action = Forward\<rparr>) (resolve address port)"

definition backend_new :: "(bytes \<Rightarrow> u16 \<Rightarrow> socket_addr list option) \<Rightarrow> bytes \<Rightarrow> u16 \<Rightarrow> backend option" where
  "backend_new resolve address port = backend_with_weight resolve address port 1"

definition backend_rejecting :: "nat \<Rightarrow> backend" where
  "backend_rejecting weight = \<lparr>b_addr = SocketAddr (V4 0) 0, b_weight = weight, b_filters = [],
     b_use_tls = False, b_server_name = [], b_action = Reject\<rparr>"

definition all_with_weight :: "(bytes \<Rightarrow> u16 \<Rightarrow> socket_addr list option) \<Rightarrow> bytes \<Rightarrow> u16 \<Rightarrow> nat \<Rightarrow> backend list option" where
  "all_with_weight resolve address port weight =
     map_option (map (\<lambda>a. \<lparr>b_addr = a, b_weight = weight, b_filters = [], b_use_tls = False,
       b_server_name = address, b_action = Forward\<rparr>)) (resolve address port)"

section \<open>Rule order\<close>

lemma sort_rules_key: "sort_rules rules = sort_key precedence_key rules"
  unfolding sort_rules_def by (rule sort_by_key) (rule match_precedence_key)

lemma find_best_rule_match_find: "find_best_rule_match rules q = List.find (rule_matches q) rules"
  by (induction rules) auto

lemma find_split:
  "List.find P xs = Some r \<Longrightarrow> \<exists>ys zs. xs = ys @ r # zs \<and> (\<forall>y \<in> set ys. \<not> P y) \<and> P r"
proof (induction xs)
  case (Cons x xs)
  show ?case
  proof (cases "P x")
    case False
    then obtain ys zs where "xs = ys @ r # zs" "\<forall>y \<in> set ys. \<not> P y" "P r" using Cons by auto
    then show ?thesis using False by (intro exI [of _ "x # ys"] exI [of _ zs]) auto
  next
    case True
    then show ?thesis using Cons.prems by (intro exI [of _ "[]"] exI [of _ xs]) auto
  qed
qed simp

lemma sort_key_stable': "filter (\<lambda>x. c = k x) (sort_key k xs) = filter (\<lambda>x. c = k x) xs"
  by (simp add: eq_commute [of c] sort_key_stable)

lemma find_sort_key:
  assumes "List.find P (sort_key k xs) = Some r"
  shows "P r \<and> (\<forall>x \<in> set xs. P x \<longrightarrow> k r \<le> k x) \<and>
    (\<exists>pre post. xs = pre @ r # post \<and> (\<forall>x \<in> set pre. P x \<longrightarrow> k r < k x))"
proof -
  obtain ys zs where split: "sort_key k xs = ys @ r # zs" "\<forall>y \<in> set ys. \<not> P y" "P r"
    using find_split [OF assms] by blast
  have sorted: "sorted (map k (ys @ r # zs))" using sorted_sort_key [of k xs] split(1) by simp
  have min: "k r \<le> k x" if "x \<in> set xs" "P x" for x
  proof -
    have "x \<in> set (ys @ r # zs)" using that(1) by (metis set_sort split(1))
    then show ?thesis using that(2) split(2) sorted by (auto simp: sorted_append)
  qed
  have "filter (\<lambda>x. k x = k r \<and> P x) xs = filter P (filter (\<lambda>x. k x = k r) (sort_key k xs))"
    by (simp add: sort_key_stable)
  also have "\<dots> = r # filter (\<lambda>x. k x = k r \<and> P x) zs"
    using split by (auto simp: filter_empty_conv)
  finally obtain pre post where "xs = pre @ r # post" "\<forall>x \<in> set pre. \<not> (k x = k r \<and> P x)"
    by (auto simp: filter_eq_Cons_iff)
  moreover from this have "k r < k x" if "x \<in> set pre" "P x" for x
    using min [of x] that by (auto simp: order_le_less)
  ultimately show ?thesis using split(3) min by blast
qed


definition sample_rules :: "http_route_rule list" where
  "sample_rules = [(rule_new Prefix ''/a'' [] [] [] [])\<lparr>route_index := 1\<rparr>,
     (rule_new Prefix ''/a/b'' [] [] [] [])\<lparr>route_index := 2\<rparr>,
     (rule_new Prefix ''/a/c'' [] [] [] [])\<lparr>route_index := 3\<rparr>,
     (rule_new Prefix ''/a/b'' [] [] [] [])\<lparr>route_index := 4\<rparr>]"


section \<open>Batch building\<close>

lemma sort_key_append: "sort_key k (sort_key k xs @ ys) = sort_key k (xs @ ys)"
  by (rule properties_for_sort_key) (auto simp: sort_key_stable')

lemma sort_rules_push: "sort_rules (sort_rules e @ [r]) = sort_rules (e @ [r])"
  by (simp add: sort_rules_key sort_key_append)

lemma sort_scope_push:
  "map_host_entries sort_rules (push_route (\<lambda>e. e) h r s) =
     push_route sort_rules h r (map_host_entries sort_rules s)"
proof -
  have up: "map_values sort_rules (upsert k [] (\<lambda>e. e @ [x]) al) =
      upsert k [] (\<lambda>e. sort_rules (e @ [x])) (map_values sort_rules al)" for k x al
    by (rule map_values_upsert) (simp_all add: sort_rules_push)
  show ?thesis
    by (cases "strip_prefix (to_ascii_lowercase h) ''*.''"; cases "catch_all_http_routes s")
      (simp_all add: push_route_def map_host_entries_def Let_def up sort_rules_push
        del: strip_prefix_Some_iff)
qed

lemma map_host_entries_hostname [simp]: "ls_hostname (map_host_entries f s) = ls_hostname s"
  by (simp add: map_host_entries_def)

lemma map_host_entries_new [simp]:
  "map_host_entries f (listener_scope_new p h) = listener_scope_new p h"
  by (simp add: map_host_entries_def listener_scope_new_def map_values_def)

lemma sort_update_scope:
  "(\<And>s. g (f s) = f' (g s)) \<Longrightarrow> (\<And>s. ls_hostname (g s) = ls_hostname s) \<Longrightarrow>
     (\<And>p h. g (listener_scope_new p h) = listener_scope_new p h) \<Longrightarrow>
     map g (update_scope p h f ss) = update_scope p h f' (map g ss)"
  by (induction ss) auto

lemma sort_push:
  "sort_http_routes (push_http_route_for_listener p lh h r t) =
     add_http_route_for_listener p lh h r (sort_http_routes t)"
proof -
  let ?g = "map_host_entries sort_rules"
  have us: "map ?g (update_scope p' h' (push_route (\<lambda>e. e) h r) ss) =
      update_scope p' h' (push_route sort_rules h r) (map ?g ss)" for p' h' ss
    by (rule sort_update_scope) (simp_all add: sort_scope_push)
  have al: "map_values (\<lambda>p. p\<lparr>scopes := map ?g (scopes p)\<rparr>)
        (upsert k \<lparr>scopes = [], shared = False\<rparr> (\<lambda>p. p\<lparr>scopes := update_scope p' h' (push_route (\<lambda>e. e) h r) (scopes p)\<rparr>) al) =
      upsert k \<lparr>scopes = [], shared = False\<rparr> (\<lambda>p. p\<lparr>scopes := update_scope p' h' (push_route sort_rules h r) (scopes p)\<rparr>)
        (map_values (\<lambda>p. p\<lparr>scopes := map ?g (scopes p)\<rparr>) al)" for k p' h' al
    by (rule map_values_upsert) (simp_all add: us sort_scope_push)
  show ?thesis
    by (simp add: sort_http_routes_def push_http_route_for_listener_def
        add_http_route_for_listener_def scope_mut_def Let_def us al)
qed

text \<open>
  C23. A table built in a batch, every rule pushed unordered and each host entry sorted once at
  the end, is the table that sorting after every insertion would have built.
\<close>

theorem batch_build:
  "sort_http_routes (fold (\<lambda>(p, lh, h, r) t. push_http_route_for_listener p lh h r t) routes route_table_new)
     = fold (\<lambda>(p, lh, h, r) t. add_http_route_for_listener p lh h r t) routes route_table_new"
proof -
  have "sort_http_routes (fold (\<lambda>(p, lh, h, r) t. push_http_route_for_listener p lh h r t) routes t)
     = fold (\<lambda>(p, lh, h, r) t. add_http_route_for_listener p lh h r t) routes (sort_http_routes t)" for t
    by (induction routes arbitrary: t) (auto simp: sort_push)
  moreover have "sort_http_routes route_table_new = route_table_new"
    by (simp add: sort_http_routes_def route_table_new_def map_values_def)
  ultimately show ?thesis by metis
qed

section \<open>Signatures\<close>

lemma fold_sum: "fold (\<lambda>h acc. acc + h) hs (a :: u64) = a + sum_list hs"
  by (induction hs arbitrary: a) (auto simp: algebra_simps)


section \<open>Well-formed tables\<close>

definition rule_ok :: "http_route_rule \<Rightarrow> bool" where
  "rule_ok r \<longleftrightarrow> cumulative_weights r = prefix_sums 0 (map b_weight (r_backends r)) \<and>
     total_weight r = sum_list (map b_weight (r_backends r)) \<and>
     (has_filters r \<longleftrightarrow> r_filters r \<noteq> [] \<or> (\<exists>b \<in> set (r_backends r). b_filters b \<noteq> []))"

definition entries_ok :: "host_entry set \<Rightarrow> bool" where
  "entries_ok E \<longleftrightarrow> (\<forall>e \<in> E. \<forall>r \<in> set e. rule_ok r)"

definition wf_scope :: "listener_scope \<Rightarrow> bool" where
  "wf_scope s \<longleftrightarrow> distinct (map fst (http_routes s)) \<and> distinct (map fst (wildcard_http_routes s)) \<and>
     entries_ok (snd ` set (http_routes s)) \<and> entries_ok (snd ` set (wildcard_http_routes s)) \<and>
     entries_ok (set_option (catch_all_http_routes s))"

definition wf_scopes :: "listener_scope list \<Rightarrow> bool" where
  "wf_scopes ss \<longleftrightarrow> distinct (map ls_hostname ss) \<and>
     (\<forall>s \<in> set ss. wf_scope s \<and> map_option to_ascii_lowercase (ls_hostname s) = ls_hostname s)"

definition wf_table :: "route_table \<Rightarrow> bool" where
  "wf_table t \<longleftrightarrow> distinct (map fst (listener_scopes t)) \<and> wf_scopes (shared_scopes t) \<and>
     (\<forall>p \<in> snd ` set (listener_scopes t). wf_scopes (scopes p)) \<and>
     distinct (map fst (tcp_routes t)) \<and> distinct (map fst (udp_routes t)) \<and>
     distinct (map fst (tls_scopes t)) \<and>
     (\<forall>ss \<in> snd ` set (tls_scopes t). distinct (map ts_hostname ss))"

inductive table_step :: "route_table \<Rightarrow> route_table \<Rightarrow> bool" where
  "table_step t (add_http_route_for_listener p lh h r t)"
| "table_step t (push_http_route_for_listener p lh h r t)"
| "table_step t (sort_http_routes t)"
| "table_step t (share_any_port_scopes_on ports t)"
| "table_step t (fst (add_tcp_route p bs t))"
| "table_step t (fst (add_udp_route p bs t))"
| "table_step t (fst (add_tls_route_for_listener p lh h bs t))"

lemma prefix_sums_Nil_iff [simp]: "prefix_sums a ws = [] \<longleftrightarrow> ws = []"
  by (cases ws) auto

lemma last_prefix_sums: "ws \<noteq> [] \<Longrightarrow> last (prefix_sums a ws) = a + sum_list ws"
proof (induction ws arbitrary: a)
  case (Cons w ws)
  then show ?case by (cases "ws = []") auto
qed simp

lemma rule_ok_metadata: "rule_ok (rule_metadata r)"
  by (auto simp: rule_ok_def rule_metadata_def Let_def last_prefix_sums list_ex_iff)

lemma snd_upsert: "snd ` set (upsert k d f al) \<subseteq> insert (f d) (snd ` set al \<union> f ` snd ` set al)"
proof (induction al)
  case (Cons x al)
  then show ?case by (cases x) auto
qed simp

lemma snd_map_values: "snd ` set (map_values g al) = g ` snd ` set al"
  by (simp add: map_values_def image_image case_prod_beta)

lemma fst_map_values [simp]: "map fst (map_values g al) = map fst al"
  by (induction al) (auto simp: map_values_def)

lemma ball_upsert:
  assumes "\<forall>v \<in> snd ` set al. P v" "P d" "\<And>v. P v \<Longrightarrow> P (f v)"
  shows "\<forall>v \<in> snd ` set (upsert k d f al). P v"
proof
  fix v assume "v \<in> snd ` set (upsert k d f al)"
  then have "v = f d \<or> v \<in> snd ` set al \<or> (\<exists>v' \<in> snd ` set al. v = f v')"
    using snd_upsert [of k d f al] by blast
  then show "P v" by (elim disjE bexE) (use assms in auto)
qed

lemma entries_ok_upsert:
  assumes "entries_ok (snd ` set al)" "\<And>e. \<forall>r \<in> set e. rule_ok r \<Longrightarrow> \<forall>r \<in> set (f e). rule_ok r"
  shows "entries_ok (snd ` set (upsert k [] f al))"
  unfolding entries_ok_def by (rule ball_upsert) (use assms in \<open>auto simp: entries_ok_def\<close>)

lemma wf_push_route:
  assumes wf: "wf_scope s" and fin: "\<And>e. set (finish e) = set e"
  shows "wf_scope (push_route finish h r s)"
proof -
  let ?push = "\<lambda>e. finish (e @ [rule_metadata r])"
  have push: "\<forall>x \<in> set (?push e). rule_ok x" if "\<forall>x \<in> set e. rule_ok x" for e
    using that by (simp add: fin rule_ok_metadata)
  have up: "entries_ok (snd ` set (upsert k [] ?push al))" if "entries_ok (snd ` set al)" for k al
    using that push by (rule entries_ok_upsert)
  have "\<forall>x \<in> set (case catch_all_http_routes s of Some e \<Rightarrow> e | None \<Rightarrow> []). rule_ok x"
    using wf by (cases "catch_all_http_routes s") (auto simp: wf_scope_def entries_ok_def)
  from push [OF this] have ca: "entries_ok {?push (case catch_all_http_routes s of Some e \<Rightarrow> e | None \<Rightarrow> [])}"
    by (simp add: entries_ok_def)
  show ?thesis
    using wf ca up [of "http_routes s" "to_ascii_lowercase h"]
      up [of "wildcard_http_routes s" "the (strip_prefix (to_ascii_lowercase h) ''*.'')"]
    by (cases "strip_prefix (to_ascii_lowercase h) ''*.''")
      (simp_all add: push_route_def Let_def wf_scope_def del: strip_prefix_Some_iff)
qed

lemma push_route_hostname [simp]: "ls_hostname (push_route finish h r s) = ls_hostname s"
  by (simp add: push_route_def Let_def split: option.split)

lemma update_scope_hostnames:
  "(\<And>s. ls_hostname (f s) = ls_hostname s) \<Longrightarrow> map_option to_ascii_lowercase h = h \<Longrightarrow>
     ls_hostname ` set (update_scope p h f ss) = insert h (ls_hostname ` set ss)"
  by (induction ss) (auto simp: listener_scope_new_def)

lemma wf_scopes_Nil [simp]: "wf_scopes []"
  by (simp add: wf_scopes_def)

lemma wf_scopes_Cons [simp]:
  "wf_scopes (s # ss) \<longleftrightarrow> wf_scope s \<and> map_option to_ascii_lowercase (ls_hostname s) = ls_hostname s \<and>
     ls_hostname s \<notin> ls_hostname ` set ss \<and> wf_scopes ss"
  by (auto simp: wf_scopes_def)

lemma wf_listener_scope_new [simp]: "wf_scope (listener_scope_new p h)"
  by (simp add: wf_scope_def listener_scope_new_def entries_ok_def)

lemma wf_update_scope:
  assumes "wf_scopes ss" "map_option to_ascii_lowercase h = h"
    and f: "\<And>s. wf_scope s \<Longrightarrow> wf_scope (f s)" "\<And>s. ls_hostname (f s) = ls_hostname s"
  shows "wf_scopes (update_scope p h f ss)"
  using assms(1)
proof (induction ss)
  case Nil
  have "ls_hostname (listener_scope_new p h) = h"
    using assms(2) by (simp add: listener_scope_new_def)
  then show ?case using assms(2) by (simp add: f)
next
  case (Cons s ss)
  have "ls_hostname ` set (update_scope p h f ss) = insert h (ls_hostname ` set ss)"
    using f(2) assms(2) by (rule update_scope_hostnames)
  then show ?case using Cons by (cases "ls_hostname s = h") (simp_all add: f)
qed

lemma wf_map_host_entries:
  assumes "wf_scopes ss" "\<And>e. set (g e) = set e"
  shows "wf_scopes (map (map_host_entries g) ss)"
proof -
  have "entries_ok (g ` E) \<longleftrightarrow> entries_ok E" for E using assms(2) by (auto simp: entries_ok_def)
  then have "wf_scope (map_host_entries g s) \<longleftrightarrow> wf_scope s" for s
    by (simp add: wf_scope_def map_host_entries_def snd_map_values option.set_map)
  then show ?thesis using assms(1) by (induction ss) (auto simp: image_image)
qed

lemma wf_scope_mut:
  assumes wf: "wf_table t" and f: "\<And>s. wf_scope s \<Longrightarrow> wf_scope (f s)" "\<And>s. ls_hostname (f s) = ls_hostname s"
  shows "wf_table (scope_mut p lh f t)"
proof -
  let ?h = "map_option to_ascii_lowercase lh"
  have h: "map_option to_ascii_lowercase ?h = ?h" by (simp add: option.map_comp comp_def)
  note up = wf_update_scope [OF _ h f]
  have "\<forall>q \<in> snd ` set (upsert p \<lparr>scopes = [], shared = False\<rparr>
      (\<lambda>q. q\<lparr>scopes := update_scope p ?h f (scopes q)\<rparr>) (listener_scopes t)). wf_scopes (scopes q)"
    by (rule ball_upsert) (use wf up in \<open>auto simp: wf_table_def\<close>)
  then show ?thesis
    using wf up [of "shared_scopes t" p]
    by (cases "p = 0") (simp_all add: wf_table_def scope_mut_def Let_def)
qed

lemma set_sort_rules [simp]: "set (sort_rules e) = set e"
  by (simp add: sort_rules_key)

lemma distinct_insert_first: "distinct (map fst m) \<Longrightarrow> distinct (map fst (fst (insert_first k bs m)))"
  by (simp add: insert_first_def split: option.split)

lemma update_tls_hostnames:
  "(\<And>s. ts_hostname (fst (f s)) = ts_hostname s) \<Longrightarrow>
     ts_hostname ` set (fst (update_tls_scope h f ss)) = insert h (ts_hostname ` set ss) \<and>
     (distinct (map ts_hostname ss) \<longrightarrow> distinct (map ts_hostname (fst (update_tls_scope h f ss))))"
proof (induction ss)
  case Nil
  show ?case
    using Nil [of "\<lparr>ts_hostname = h, ts_exact = [], ts_wildcard = [], ts_catch_all = None\<rparr>"]
    by (cases "f \<lparr>ts_hostname = h, ts_exact = [], ts_wildcard = [], ts_catch_all = None\<rparr>") simp
next
  case (Cons s ss)
  show ?case using Cons.IH [OF Cons.prems] Cons.prems [of s]
    by (cases "f s"; cases "update_tls_scope h f ss"; cases "ts_hostname s = h") auto
qed

lemma tls_scope_add_hostname: "ts_hostname (fst (tls_scope_add h bs s)) = ts_hostname s"
  by (simp add: tls_scope_add_def Let_def split: option.split prod.split)

lemma wf_add_tls:
  assumes wf: "wf_table t"
  shows "wf_table (fst (add_tls_route_for_listener p lh h bs t))"
proof -
  let ?ss = "case map_of (tls_scopes t) p of Some ss \<Rightarrow> ss | None \<Rightarrow> []"
  let ?u = "update_tls_scope (map_option to_ascii_lowercase lh) (tls_scope_add h bs) ?ss"
  have "distinct (map ts_hostname ?ss)"
    using wf by (auto simp: wf_table_def split: option.split dest!: map_of_SomeD)
  then have "distinct (map ts_hostname (fst ?u))"
    using update_tls_hostnames [of "tls_scope_add h bs"] tls_scope_add_hostname by blast
  then have "\<forall>ss \<in> snd ` set (upsert p [] (\<lambda>_. fst ?u) (tls_scopes t)). distinct (map ts_hostname ss)"
    by (intro ball_upsert) (use wf in \<open>auto simp: wf_table_def\<close>)
  then show ?thesis
    using wf by (simp add: wf_table_def add_tls_route_for_listener_def Let_def split: prod.splits)
qed

lemma wf_sort:
  assumes "wf_table t"
  shows "wf_table (sort_http_routes t)"
  using assms wf_map_host_entries [of _ sort_rules]
  by (simp add: wf_table_def sort_http_routes_def snd_map_values)

lemma wf_share:
  assumes "wf_table t"
  shows "wf_table (share_any_port_scopes_on ports t)"
proof -
  have step: "wf_table (t\<lparr>listener_scopes :=
      upsert port \<lparr>scopes = [], shared = False\<rparr> (\<lambda>p. p\<lparr>shared := True\<rparr>) (listener_scopes t)\<rparr>)"
    if "wf_table t" for t port
  proof -
    have "\<forall>q \<in> snd ` set (upsert port \<lparr>scopes = [], shared = False\<rparr> (\<lambda>p. p\<lparr>shared := True\<rparr>)
        (listener_scopes t)). wf_scopes (scopes q)"
      by (rule ball_upsert) (use that in \<open>auto simp: wf_table_def\<close>)
    then show ?thesis using that by (simp add: wf_table_def)
  qed
  have "wf_table (t\<lparr>shared_on_every_port := False\<rparr>)" using assms by (simp add: wf_table_def)
  then show ?thesis
    unfolding share_any_port_scopes_on_def
    by (induction ports arbitrary: t rule: rev_induct) (simp_all add: step)
qed

definition table_init :: "route_table \<Rightarrow> bool" where
  "table_init t \<longleftrightarrow> t = route_table_new"

interpretation table_build: transition_system table_init table_step wf_table
proof
  show "wf_table t" if "table_init t" for t
    using that by (simp add: table_init_def wf_table_def route_table_new_def)
  show "wf_table t'" if "wf_table t" "table_step t t'" for t t'
    using that(2,1)
  proof cases
    case (5 p bs)
    then show ?thesis using that(1) distinct_insert_first [of "tcp_routes t" p bs]
      by (simp add: wf_table_def add_tcp_route_def split: prod.splits)
  next
    case (6 p bs)
    then show ?thesis using that(1) distinct_insert_first [of "udp_routes t" p bs]
      by (simp add: wf_table_def add_udp_route_def split: prod.splits)
  qed (simp_all add: add_http_route_for_listener_def push_http_route_for_listener_def
      wf_scope_mut wf_push_route wf_sort wf_share wf_add_tls)
qed

lemma wf_rules:
  assumes "wf_table t" "r \<in> set (table_rules t)"
  shows "rule_ok r"
proof -
  obtain s e where s: "s \<in> set (http_scopes t)" "e \<in> set (scope_entries s)" "r \<in> set e"
    using assms(2) by (auto simp: table_rules_def)
  have "wf_scope s" using assms(1) s(1) by (fastforce simp: wf_table_def http_scopes_def wf_scopes_def)
  then show ?thesis using s(2,3) by (auto simp: wf_scope_def scope_entries_def entries_ok_def split: option.splits)
qed

text \<open>
  C25. Every table the builder produces is well formed: a port, a hostname within a port and a
  route host within a listener have one entry each, so no two listeners of a port compete for
  a host, and every rule carries the weights and filter flag of its own backends.
\<close>

theorem built_tables_well_formed:
  assumes "table_step\<^sup>*\<^sup>* route_table_new t"
  shows "distinct (map fst (listener_scopes t)) \<and> distinct (map ls_hostname (own_scopes t port)) \<and>
     distinct (map ls_hostname (borrowed_scopes t port)) \<and> (\<forall>r \<in> set (table_rules t). rule_ok r)"
proof -
  have wf: "wf_table t" using table_build.reachable_inv [OF _ assms] by (simp add: table_init_def)
  have own: "wf_scopes (own_scopes t p)" for p
    using wf by (auto simp: wf_table_def own_scopes_def split: option.split dest!: map_of_SomeD)
  have sh: "wf_scopes (borrowed_scopes t port)"
    using wf by (simp add: wf_table_def borrowed_scopes_def shared_scopes_of_def)
  show ?thesis using wf own [of port] sh wf_rules [OF wf] by (simp add: wf_table_def wf_scopes_def)
qed

definition sample_built :: route_table where
  "sample_built = add_http_route_for_listener 80 (Some ''*.A.io'') ''x.a.io'' (sample_rules ! 0)
     (add_http_route_for_listener 80 (Some ''*.a.IO'') ''*'' (sample_rules ! 1) route_table_new)"

theorem built_tables_well_formed_witness:
  "length (own_scopes sample_built 80) = 1 \<and> distinct (map ls_hostname (own_scopes sample_built 80))"
proof -
  have "table_step\<^sup>*\<^sup>* route_table_new sample_built"
    unfolding sample_built_def
    by (rule rtranclp.rtrancl_into_rtrancl [OF r_into_rtranclp]; rule table_step.intros(1))
  moreover have "length (own_scopes sample_built 80) = 1" by code_simp
  ultimately show ?thesis using built_tables_well_formed [of sample_built 80] by blast
qed

end
