(* ===== verification/Backend_Select.thy ===== *)
theory Backend_Select
  imports Route_Build
begin

text \<open>
  Weighted, health-aware backend selection (\<open>BackendSelector\<close> and its helpers in
  \<open>src/src/routing/mod.rs\<close>). The health registry is seen through the test it offers, \<open>healthy\<close>.
  Round-robin counters are 64-bit words that wrap; a selection takes the counter and returns it
  advanced. Weights are at most 32 bits, and the sums of fewer than \<open>2 ^ 32\<close> of them fit in 64,
  so sums are natural numbers.
\<close>

section \<open>Selection\<close>

text \<open>\<open>slot_owner\<close>, from a running sum.\<close>

fun slot_owner_from :: "nat \<Rightarrow> backend list \<Rightarrow> nat \<Rightarrow> nat option" where
  "slot_owner_from cumulative [] slot = None"
| "slot_owner_from cumulative (b # bs) slot =
     (if cumulative + b_weight b > slot then Some 0
      else map_option Suc (slot_owner_from (cumulative + b_weight b) bs slot))"

definition slot_owner :: "backend list \<Rightarrow> nat \<Rightarrow> nat option" where
  "slot_owner bs slot = slot_owner_from 0 bs slot"

fun nth_healthy_from :: "(socket_addr \<Rightarrow> bool) \<Rightarrow> nat \<Rightarrow> backend list \<Rightarrow> nat \<Rightarrow> nat option" where
  "nth_healthy_from healthy cumulative [] slot = None"
| "nth_healthy_from healthy cumulative (b # bs) slot =
     (if b_weight b = 0 \<or> b_action b = Reject \<or> \<not> healthy (b_addr b)
      then map_option Suc (nth_healthy_from healthy cumulative bs slot)
      else if cumulative + b_weight b > slot then Some 0
      else map_option Suc (nth_healthy_from healthy (cumulative + b_weight b) bs slot))"

definition nth_healthy_weighted :: "backend list \<Rightarrow> (socket_addr \<Rightarrow> bool) \<Rightarrow> nat \<Rightarrow> nat option" where
  "nth_healthy_weighted bs healthy slot = nth_healthy_from healthy 0 bs slot"

text \<open>The loop of \<open>select_degraded\<close>: the rejected weight, that below the slot, and the healthy.\<close>

record degraded_sums =
  d_cumulative :: nat
  d_rejected :: nat
  d_rejected_below_slot :: nat
  d_healthy :: nat

definition degraded_step :: "(socket_addr \<Rightarrow> bool) \<Rightarrow> nat \<Rightarrow> backend \<Rightarrow> degraded_sums \<Rightarrow> degraded_sums" where
  "degraded_step healthy slot b a =
     (let w = b_weight b;
          a1 = (if b_action b = Reject
                then a\<lparr>d_rejected := d_rejected a + w,
                       d_rejected_below_slot := d_rejected_below_slot a + (if d_cumulative a + w \<le> slot then w else 0)\<rparr>
                else if w > 0 \<and> healthy (b_addr b) then a\<lparr>d_healthy := d_healthy a + w\<rparr>
                else a)
      in a1\<lparr>d_cumulative := d_cumulative a + w\<rparr>)"

definition degraded_loop :: "(socket_addr \<Rightarrow> bool) \<Rightarrow> nat \<Rightarrow> backend list \<Rightarrow> degraded_sums" where
  "degraded_loop healthy slot bs = fold (degraded_step healthy slot) bs
     \<lparr>d_cumulative = 0, d_rejected = 0, d_rejected_below_slot = 0, d_healthy = 0\<rparr>"

definition forward_pick :: "nat \<Rightarrow> nat \<Rightarrow> degraded_sums \<Rightarrow> nat" where
  "forward_pick counter total_w a =
     counter div total_w * (total_w - d_rejected a) + (counter mod total_w - d_rejected_below_slot a)"

definition select_degraded :: "backend list \<Rightarrow> (socket_addr \<Rightarrow> bool) \<Rightarrow> nat \<Rightarrow> nat \<Rightarrow> nat option" where
  "select_degraded bs healthy counter total_w =
     (let slot = counter mod total_w in
      case slot_owner bs slot of
        None \<Rightarrow> None
      | Some owner \<Rightarrow>
          (let a = degraded_loop healthy slot bs in
           if b_action (bs ! owner) = Reject \<or> d_healthy a = 0 then Some owner
           else (case nth_healthy_weighted bs healthy (forward_pick counter total_w a mod d_healthy a) of
                   Some i \<Rightarrow> Some i | None \<Rightarrow> Some owner)))"

definition healthy_weight :: "(socket_addr \<Rightarrow> bool) \<Rightarrow> backend list \<Rightarrow> nat" where
  "healthy_weight healthy bs =
     sum_list (map b_weight (filter (\<lambda>b. b_weight b > 0 \<and> healthy (b_addr b)) bs))"

text \<open>\<open>Vec::partition_point\<close> on a list the predicate splits.\<close>

definition partition_point :: "('a \<Rightarrow> bool) \<Rightarrow> 'a list \<Rightarrow> nat" where
  "partition_point p xs = length (takeWhile p xs)"

definition select_healthy_weighted_backend :: "http_route_rule \<Rightarrow> (socket_addr \<Rightarrow> bool) \<Rightarrow> u64 \<Rightarrow> nat option \<times> u64" where
  "select_healthy_weighted_backend rule healthy counter =
     (let bs = r_backends rule in
      if length bs = 1 then ((if b_weight (bs ! 0) > 0 then Some 0 else None), counter)
      else (let hw = healthy_weight healthy bs;
                pool_weight = (if hw = 0 then total_weight rule else hw) in
            if pool_weight = 0 then (None, counter)
            else if pool_weight = total_weight rule
            then (let slot = unat counter mod total_weight rule
                  in (Some (partition_point (\<lambda>cw. cw \<le> slot) (cumulative_weights rule)), counter + 1))
            else (select_degraded bs healthy (unat counter) (total_weight rule), counter + 1)))"

text \<open>The L4 selector keeps its counters in a map.\<close>

type_synonym 'k selector = "'k \<rightharpoonup> u64"

definition next_counter :: "'k \<Rightarrow> 'k selector \<Rightarrow> u64 \<times> 'k selector" where
  "next_counter key sel =
     (let c = (case sel key of Some c \<Rightarrow> c | None \<Rightarrow> 0) in (c, sel(key \<mapsto> c + 1)))"

definition select_l4_backend :: "'k \<Rightarrow> backend list \<Rightarrow> (socket_addr \<Rightarrow> bool) \<Rightarrow> 'k selector \<Rightarrow>
    backend option \<times> 'k selector" where
  "select_l4_backend key bs healthy sel =
     (let total_w = sum_list (map b_weight bs); hw = healthy_weight healthy bs in
      if total_w = 0 then (None, sel)
      else (case next_counter key sel of (counter, sel') \<Rightarrow>
        (map_option ((!) bs)
           (if hw = total_w \<or> hw = 0 then slot_owner bs (unat counter mod total_w)
            else select_degraded bs healthy (unat counter) total_w), sel')))"

text \<open>
  \<open>tls_hash\<close> is the hash a passthrough route's key goes through. On a miss the connection is
  dropped.
\<close>

definition resolve_tls_passthrough :: "(tls_key \<Rightarrow> u64) \<Rightarrow> route_table \<Rightarrow> bytes option \<Rightarrow> u16 \<Rightarrow> bytes option \<Rightarrow>
    (socket_addr \<Rightarrow> bool) \<Rightarrow> u64 selector \<Rightarrow> (passthrough_miss + socket_addr) \<times> u64 selector" where
  "resolve_tls_passthrough tls_hash t sni server_port listener healthy sel =
     (case (case tls_route t sni server_port listener of
              Some (bs, key) \<Rightarrow> Some (bs, tls_hash key)
            | None \<Rightarrow> map_option (\<lambda>bs. (bs, word_of_nat server_port)) (map_of (tcp_routes t) server_port)) of
        None \<Rightarrow> (Inl NoRoute, sel)
      | Some (bs, key) \<Rightarrow>
          if bs = [] then (Inl NoBackends, sel)
          else (case select_l4_backend key bs healthy sel of
                  (None, sel') \<Rightarrow> (Inl NoWeight, sel')
                | (Some b, sel') \<Rightarrow> (if b_action b = Reject then Inl Rejected else Inr (b_addr b), sel')))"

section \<open>Owners of weighted slots\<close>

fun owner_w :: "nat list \<Rightarrow> nat \<Rightarrow> nat option" where
  "owner_w [] slot = None"
| "owner_w (w # ws) slot = (if slot < w then Some 0 else map_option Suc (owner_w ws (slot - w)))"

lemma owner_w_Some_iff:
  "owner_w ws slot = Some i \<longleftrightarrow> i < length ws \<and> sum_list (take i ws) \<le> slot \<and> slot < sum_list (take (Suc i) ws)"
proof (induction ws arbitrary: slot i)
  case (Cons w ws)
  then show ?case by (cases i) (auto simp: not_less)
qed simp

lemma owner_w_None_iff: "owner_w ws slot = None \<longleftrightarrow> sum_list ws \<le> slot"
  by (induction ws arbitrary: slot) auto

lemma owner_w_lt: "owner_w ws slot = Some i \<Longrightarrow> slot < sum_list ws"
  by (metis not_le option.distinct(1) owner_w_None_iff)

lemma owner_w_count: "i < length ws \<Longrightarrow> card {slot. owner_w ws slot = Some i} = ws ! i"
proof -
  assume i: "i < length ws"
  have "{slot. owner_w ws slot = Some i} = {sum_list (take i ws)..<sum_list (take (Suc i) ws)}"
    using i by (auto simp: owner_w_Some_iff)
  then show ?thesis using i by (simp add: take_Suc_conv_app_nth)
qed

lemma slot_owner_from_w:
  "cumulative \<le> slot \<Longrightarrow> slot_owner_from cumulative bs slot = owner_w (map b_weight bs) (slot - cumulative)"
proof (induction bs arbitrary: cumulative)
  case (Cons b bs)
  then show ?case by (auto simp: less_diff_conv not_less)
qed simp

lemma slot_owner_w: "slot_owner bs slot = owner_w (map b_weight bs) slot"
  by (simp add: slot_owner_def slot_owner_from_w)

text \<open>The weight a backend draws while only healthy forwarding backends do.\<close>

definition healthy_share :: "(socket_addr \<Rightarrow> bool) \<Rightarrow> backend \<Rightarrow> nat" where
  "healthy_share healthy b = (if b_action b = Reject \<or> \<not> healthy (b_addr b) then 0 else b_weight b)"

lemma nth_healthy_from_w:
  "cumulative \<le> slot \<Longrightarrow>
     nth_healthy_from healthy cumulative bs slot = owner_w (map (healthy_share healthy) bs) (slot - cumulative)"
proof (induction bs arbitrary: cumulative)
  case (Cons b bs)
  show ?case
  proof (cases "b_weight b = 0 \<or> b_action b = Reject \<or> \<not> healthy (b_addr b)")
    case True
    then have "healthy_share healthy b = 0" by (auto simp: healthy_share_def)
    then show ?thesis using True Cons by simp
  next
    case False
    then have "healthy_share healthy b = b_weight b" by (simp add: healthy_share_def)
    then show ?thesis using False Cons.IH [of "cumulative + b_weight b"] Cons.prems by (auto simp: not_less)
  qed
qed simp

lemma nth_healthy_w: "nth_healthy_weighted bs healthy slot = owner_w (map (healthy_share healthy) bs) slot"
  by (simp add: nth_healthy_weighted_def nth_healthy_from_w)

lemma takeWhile_prefix_sums:
  "cumulative \<le> slot \<Longrightarrow> slot < cumulative + sum_list ws \<Longrightarrow>
     Some (length (takeWhile (\<lambda>cw. cw \<le> slot) (prefix_sums cumulative ws))) = owner_w ws (slot - cumulative)"
proof (induction ws arbitrary: cumulative)
  case (Cons w ws)
  show ?case
  proof (cases "cumulative + w \<le> slot")
    case True
    then have "owner_w ws (slot - (cumulative + w)) =
        Some (length (takeWhile (\<lambda>cw. cw \<le> slot) (prefix_sums (cumulative + w) ws)))"
      using Cons.IH [of "cumulative + w"] Cons.prems by simp
    then show ?thesis using True by (auto simp: not_less)
  qed (use Cons.prems in auto)
qed simp

text \<open>The binary search over the precomputed sums finds the slot's owner.\<close>

lemma partition_point_owner:
  "rule_ok rule \<Longrightarrow> slot < total_weight rule \<Longrightarrow>
     Some (partition_point (\<lambda>cw. cw \<le> slot) (cumulative_weights rule)) = slot_owner (r_backends rule) slot"
  using takeWhile_prefix_sums [of 0 slot "map b_weight (r_backends rule)"]
  by (simp add: rule_ok_def partition_point_def slot_owner_w)

section \<open>Counting over periods\<close>

text \<open>How many of the first \<open>c\<close> numbers satisfy \<open>P\<close>.\<close>

definition count_upto :: "(nat \<Rightarrow> bool) \<Rightarrow> nat \<Rightarrow> nat" where
  "count_upto P c = card {k. k < c \<and> P k}"

lemma count_upto_0 [simp]: "count_upto P 0 = 0"
  by (simp add: count_upto_def)

lemma count_upto_Suc: "count_upto P (Suc c) = count_upto P c + (if P c then 1 else 0)"
proof -
  have "{k. k < Suc c \<and> P k} = (if P c then insert c {k. k < c \<and> P k} else {k. k < c \<and> P k})"
    by (auto simp: less_Suc_eq)
  then show ?thesis by (simp add: count_upto_def)
qed

lemma count_upto_add: "count_upto P (a + m) = count_upto P a + card {k. a \<le> k \<and> k < a + m \<and> P k}"
proof -
  have "{k. k < a + m \<and> P k} = {k. k < a \<and> P k} \<union> {k. a \<le> k \<and> k < a + m \<and> P k}" by auto
  also have "card \<dots> = card {k. k < a \<and> P k} + card {k. a \<le> k \<and> k < a + m \<and> P k}"
    by (rule card_Un_disjoint) auto
  finally show ?thesis by (simp add: count_upto_def)
qed

lemma count_upto_periodic:
  assumes "0 < n"
  shows "count_upto (\<lambda>k. P (k mod n)) c = c div n * count_upto P n + count_upto P (c mod n)"
proof (induction c)
  case (Suc c)
  have "count_upto P n = count_upto P (c mod n) + (if P (c mod n) then 1 else 0)" if "Suc (c mod n) = n"
    using count_upto_Suc [of P "c mod n"] that by simp
  then show ?case using Suc assms by (auto simp: count_upto_Suc div_Suc mod_Suc)
qed simp

text \<open>A whole number of periods, from anywhere.\<close>

lemma card_periods:
  assumes "0 < n"
  shows "card {x. a \<le> x \<and> x < a + m * n \<and> P (x mod n)} = m * card {y. y < n \<and> P y}"
proof -
  have "count_upto (\<lambda>k. P (k mod n)) (a + m * n) = count_upto (\<lambda>k. P (k mod n)) a + m * count_upto P n"
    using assms by (simp add: count_upto_periodic add_mult_distrib)
  then have "card {x. a \<le> x \<and> x < a + m * n \<and> P (x mod n)} = m * count_upto P n"
    using count_upto_add [of "\<lambda>k. P (k mod n)" a "m * n"] by simp
  then show ?thesis by (simp add: count_upto_def)
qed

text \<open>
  Numbering the members of \<open>{k. P k}\<close> in order sends the members in an interval one to one onto
  consecutive numbers.
\<close>

lemma card_numbered:
  "card {k. a \<le> k \<and> k < a + m \<and> P k \<and> Q (count_upto P k)} =
     card {x. count_upto P a \<le> x \<and> x < count_upto P (a + m) \<and> Q x}"
proof (induction m)
  case (Suc m)
  let ?S = "\<lambda>m. {k. a \<le> k \<and> k < a + m \<and> P k \<and> Q (count_upto P k)}"
  let ?T = "\<lambda>m. {x. count_upto P a \<le> x \<and> x < count_upto P (a + m) \<and> Q x}"
  let ?c = "count_upto P (a + m)"
  have ge: "count_upto P a \<le> ?c" by (simp add: count_upto_add)
  have "?S (Suc m) = (if P (a + m) \<and> Q ?c then insert (a + m) (?S m) else ?S m)"
    by (auto simp: less_Suc_eq)
  moreover have "?T (Suc m) = (if P (a + m) \<and> Q ?c then insert ?c (?T m) else ?T m)"
    using ge by (auto simp: count_upto_Suc less_Suc_eq)
  ultimately show ?case using Suc by (simp add: card_insert_if)
next
  case 0
  have "{k. a \<le> k \<and> k < a + 0 \<and> P k \<and> Q (count_upto P k)} = {}"
    "{x. count_upto P a \<le> x \<and> x < count_upto P (a + 0) \<and> Q x} = {}" by auto
  then show ?case by (simp only: card.empty)
qed

lemma count_upto_shift: "count_upto P (w + m) = count_upto P w + count_upto (\<lambda>k. P (w + k)) m"
  by (induction m) (auto simp: count_upto_Suc)

lemma count_upto_all: "(\<And>k. k < s \<Longrightarrow> P k) \<Longrightarrow> count_upto P s = s"
  by (induction s) (auto simp: count_upto_Suc)

lemma count_upto_none: "(\<And>k. k < s \<Longrightarrow> \<not> P k) \<Longrightarrow> count_upto P s = 0"
  by (induction s) (auto simp: count_upto_Suc)

lemma count_upto_cong: "(\<And>k. k < s \<Longrightarrow> P k = Q k) \<Longrightarrow> count_upto P s = count_upto Q s"
  by (induction s) (auto simp: count_upto_Suc)

section \<open>Degraded selection\<close>

definition weights :: "backend list \<Rightarrow> nat" where
  "weights bs = sum_list (map b_weight bs)"

definition rejected_weight :: "backend list \<Rightarrow> nat" where
  "rejected_weight bs = sum_list (map (\<lambda>b. if b_action b = Reject then b_weight b else 0) bs)"

definition healthy_weights :: "(socket_addr \<Rightarrow> bool) \<Rightarrow> backend list \<Rightarrow> nat" where
  "healthy_weights healthy bs = sum_list (map (healthy_share healthy) bs)"

fun rejected_below :: "backend list \<Rightarrow> nat \<Rightarrow> nat" where
  "rejected_below [] slot = 0"
| "rejected_below (b # bs) slot =
     (if b_weight b \<le> slot
      then (if b_action b = Reject then b_weight b else 0) + rejected_below bs (slot - b_weight b) else 0)"

lemma degraded_fold:
  "fold (degraded_step healthy slot) bs a =
     \<lparr>d_cumulative = d_cumulative a + weights bs, d_rejected = d_rejected a + rejected_weight bs,
      d_rejected_below_slot = d_rejected_below_slot a +
        (if d_cumulative a \<le> slot then rejected_below bs (slot - d_cumulative a) else 0),
      d_healthy = d_healthy a + healthy_weights healthy bs\<rparr>"
proof (induction bs arbitrary: a)
  case Nil
  show ?case by (simp add: weights_def rejected_weight_def healthy_weights_def)
next
  case (Cons b bs)
  show ?case
    by (simp add: Cons.IH)
      (auto simp: degraded_step_def Let_def weights_def rejected_weight_def healthy_weights_def
        healthy_share_def le_diff_conv2)
qed

lemma degraded_loop_eq:
  "degraded_loop healthy slot bs = \<lparr>d_cumulative = weights bs, d_rejected = rejected_weight bs,
     d_rejected_below_slot = rejected_below bs slot, d_healthy = healthy_weights healthy bs\<rparr>"
  by (simp add: degraded_loop_def degraded_fold)

definition forwards :: "backend list \<Rightarrow> nat \<Rightarrow> bool" where
  "forwards bs slot = (case slot_owner bs slot of Some i \<Rightarrow> b_action (bs ! i) \<noteq> Reject | None \<Rightarrow> False)"

lemma forwards_Cons:
  "forwards (b # bs) slot \<longleftrightarrow> (if slot < b_weight b then b_action b \<noteq> Reject else forwards bs (slot - b_weight b))"
  by (simp add: forwards_def slot_owner_w split: option.split)

lemma count_forwards:
  "slot = weights bs \<or> forwards bs slot \<Longrightarrow> count_upto (forwards bs) slot + rejected_below bs slot = slot"
proof (induction bs arbitrary: slot)
  case Nil
  then show ?case by (simp add: weights_def forwards_def slot_owner_w)
next
  case (Cons b bs)
  let ?w = "b_weight b"
  show ?case
  proof (cases "slot < ?w")
    case True
    then have "b_action b \<noteq> Reject" using Cons.prems by (auto simp: forwards_Cons weights_def)
    then show ?thesis using True by (simp add: count_upto_all forwards_Cons)
  next
    case False
    then have "slot - ?w = weights bs \<or> forwards bs (slot - ?w)"
      using Cons.prems by (auto simp: forwards_Cons weights_def)
    note IH = Cons.IH [OF this]
    have "count_upto (forwards (b # bs)) slot =
        count_upto (forwards (b # bs)) ?w + count_upto (\<lambda>k. forwards (b # bs) (?w + k)) (slot - ?w)"
      using False count_upto_shift [of "forwards (b # bs)" ?w "slot - ?w"] by simp
    also have "count_upto (forwards (b # bs)) ?w = (if b_action b = Reject then 0 else ?w)"
      by (auto simp: forwards_Cons intro: count_upto_all count_upto_none)
    also have "count_upto (\<lambda>k. forwards (b # bs) (?w + k)) (slot - ?w) = count_upto (forwards bs) (slot - ?w)"
      by (rule count_upto_cong) (simp add: forwards_Cons)
    finally show ?thesis using IH False by auto
  qed
qed

lemma rejected_below_all: "rejected_below bs (weights bs) = rejected_weight bs"
  by (induction bs) (auto simp: weights_def rejected_weight_def)

lemma count_forwards_period: "count_upto (forwards bs) (weights bs) = weights bs - rejected_weight bs"
  using count_forwards [of "weights bs" bs] by (simp add: rejected_below_all)

text \<open>The forwarding pick is the number of forwarding picks before this one.\<close>

lemma forward_pick_count:
  assumes "0 < weights bs" "forwards bs (c mod weights bs)"
  shows "forward_pick c (weights bs) (degraded_loop healthy (c mod weights bs) bs)
    = count_upto (\<lambda>k. forwards bs (k mod weights bs)) c"
proof -
  have "count_upto (forwards bs) (c mod weights bs) =
      c mod weights bs - rejected_below bs (c mod weights bs)"
    using count_forwards [of "c mod weights bs" bs] assms(2) by simp
  then show ?thesis
    using count_upto_periodic [OF assms(1), of "forwards bs" c]
    by (simp add: forward_pick_def degraded_loop_eq count_forwards_period)
qed

lemma forward_pick_le: "0 < weights bs \<Longrightarrow> forwards bs (c mod weights bs) \<Longrightarrow>
    forward_pick c (weights bs) (degraded_loop healthy (c mod weights bs) bs) \<le> c"
proof -
  have "count_upto P c \<le> c" for P by (induction c) (auto simp: count_upto_Suc)
  then show "0 < weights bs \<Longrightarrow> forwards bs (c mod weights bs) \<Longrightarrow> ?thesis"
    by (simp add: forward_pick_count)
qed

lemma slot_owner_lt: "slot_owner bs slot = Some i \<Longrightarrow> i < length bs \<and> slot < weights bs \<and> 0 < b_weight (bs ! i)"
proof -
  assume o: "slot_owner bs slot = Some i"
  then have "i < length bs" "sum_list (take i (map b_weight bs)) \<le> slot"
      "slot < sum_list (take (Suc i) (map b_weight bs))"
    by (auto simp: slot_owner_w owner_w_Some_iff)
  moreover have "slot < weights bs"
    using o owner_w_None_iff [of "map b_weight bs" slot] by (simp add: slot_owner_w weights_def not_le [symmetric])
  ultimately show ?thesis by (simp add: take_Suc_conv_app_nth)
qed

lemma slot_owner_Some: "slot < weights bs \<Longrightarrow> \<exists>i. slot_owner bs slot = Some i"
  using owner_w_None_iff [of "map b_weight bs" slot] by (auto simp: slot_owner_w weights_def)

lemma nth_healthy_Some:
  assumes "slot < healthy_weights healthy bs"
  obtains i where "nth_healthy_weighted bs healthy slot = Some i" "i < length bs" "0 < healthy_share healthy (bs ! i)"
proof -
  let ?ws = "map (healthy_share healthy) bs"
  obtain i where i: "owner_w ?ws slot = Some i"
    using assms owner_w_None_iff [of ?ws slot] by (auto simp: healthy_weights_def)
  then have "i < length bs" "sum_list (take i ?ws) < sum_list (take (Suc i) ?ws)"
    by (auto simp: owner_w_Some_iff)
  then have "0 < healthy_share healthy (bs ! i)" by (simp add: take_Suc_conv_app_nth)
  then show thesis using that i \<open>i < length bs\<close> by (simp add: nth_healthy_w)
qed

text \<open>What a degraded selection returns, for a forwarding and for a rejecting slot.\<close>

lemma select_degraded_cases:
  assumes T: "0 < weights bs" and H: "0 < healthy_weights healthy bs"
  shows "select_degraded bs healthy c (weights bs) =
    (if forwards bs (c mod weights bs)
     then owner_w (map (healthy_share healthy) bs)
       (count_upto (\<lambda>k. forwards bs (k mod weights bs)) c mod healthy_weights healthy bs)
     else slot_owner bs (c mod weights bs))"
proof -
  let ?s = "c mod weights bs"
  obtain o' where o': "slot_owner bs ?s = Some o'" using slot_owner_Some [of ?s bs] T by auto
  show ?thesis
  proof (cases "forwards bs ?s")
    case False
    then show ?thesis using o' by (simp add: select_degraded_def forwards_def Let_def)
  next
    case True
    let ?n = "count_upto (\<lambda>k. forwards bs (k mod weights bs)) c mod healthy_weights healthy bs"
    obtain i where "nth_healthy_weighted bs healthy ?n = Some i"
      using nth_healthy_Some [of ?n healthy bs] H by auto
    then show ?thesis
      using True o' H forward_pick_count [OF T True, of healthy]
      by (simp add: select_degraded_def forwards_def Let_def degraded_loop_eq nth_healthy_w)
  qed
qed

text \<open>
  C26. While some backends are down, every share is exact. Over any \<open>T * H\<close> consecutive
  selections, where \<open>T\<close> is the total weight, \<open>H\<close> the healthy forwarding weight and \<open>R\<close> the weight
  of invalid references: an invalid reference of weight \<open>w\<close> fails exactly its own \<open>w * H\<close>
  requests, a healthy backend serves exactly \<open>w * (T - R)\<close>, and an unhealthy one none.
\<close>

theorem degraded_shares:
  assumes T: "0 < weights bs" and H: "0 < healthy_weights healthy bs" and i: "i < length bs"
  shows "card {c. c0 \<le> c \<and> c < c0 + weights bs * healthy_weights healthy bs \<and>
        select_degraded bs healthy c (weights bs) = Some i} =
    (if b_action (bs ! i) = Reject then b_weight (bs ! i) * healthy_weights healthy bs
     else healthy_share healthy (bs ! i) * (weights bs - rejected_weight bs))"
proof -
  let ?T = "weights bs" and ?H = "healthy_weights healthy bs" and ?ws = "map (healthy_share healthy) bs"
  let ?fwd = "\<lambda>k. forwards bs (k mod ?T)"
  let ?S = "{c. c0 \<le> c \<and> c < c0 + ?T * ?H \<and> select_degraded bs healthy c ?T = Some i}"
  note sel = select_degraded_cases [OF T H]
  show ?thesis
  proof (cases "b_action (bs ! i) = Reject")
    case True
    have ne: "owner_w ?ws s \<noteq> Some i" for s
      using True i owner_w_Some_iff [of ?ws s i] by (auto simp: take_Suc_conv_app_nth healthy_share_def)
    have "?S = {c. c0 \<le> c \<and> c < c0 + ?H * ?T \<and> slot_owner bs (c mod ?T) = Some i}"
      using True ne by (auto simp: sel forwards_def mult.commute)
    moreover have "{y. y < ?T \<and> slot_owner bs y = Some i} = {y. owner_w (map b_weight bs) y = Some i}"
      using slot_owner_lt by (auto simp: slot_owner_w)
    ultimately show ?thesis
      using True i card_periods [OF T, of c0 ?H "\<lambda>s. slot_owner bs s = Some i"]
      by (simp add: owner_w_count mult.commute)
  next
    case False
    have ne: "?fwd c" if "slot_owner bs (c mod ?T) = Some i" for c
      using that False by (simp add: forwards_def)
    have "?S = {c. c0 \<le> c \<and> c < c0 + ?T * ?H \<and> ?fwd c \<and> owner_w ?ws (count_upto ?fwd c mod ?H) = Some i}"
      using ne by (auto simp: sel split: if_splits)
    then have "card ?S = card {x. count_upto ?fwd c0 \<le> x \<and> x < count_upto ?fwd (c0 + ?T * ?H) \<and>
        owner_w ?ws (x mod ?H) = Some i}"
      using card_numbered [of c0 "?T * ?H" ?fwd "\<lambda>n. owner_w ?ws (n mod ?H) = Some i"] by simp
    moreover have "count_upto ?fwd (c0 + ?T * ?H) = count_upto ?fwd c0 + (?T - rejected_weight bs) * ?H"
      using T by (simp add: count_upto_periodic count_forwards_period algebra_simps)
    moreover have "{y. y < ?H \<and> owner_w ?ws y = Some i} = {y. owner_w ?ws y = Some i}"
      using owner_w_lt [of ?ws] by (auto simp: healthy_weights_def)
    ultimately show ?thesis
      using False i card_periods [OF H, of "count_upto ?fwd c0" "?T - rejected_weight bs" "\<lambda>s. owner_w ?ws s = Some i"]
      by (simp add: owner_w_count mult.commute)
  qed
qed

definition sample_backends :: "backend list" where
  "sample_backends = map (\<lambda>(a, w, act). \<lparr>b_addr = SocketAddr (V4 a) 80, b_weight = w, b_filters = [],
     b_use_tls = False, b_server_name = [], b_action = act\<rparr>)
     [(1, 2, Forward), (2, 3, Forward), (0, 1, Reject), (3, 0, Forward)]"

definition sample_healthy :: "socket_addr \<Rightarrow> bool" where
  "sample_healthy a = (a \<noteq> SocketAddr (V4 1) 80)"

theorem degraded_shares_witness:
  "card {c. 5 \<le> c \<and> c < 23 \<and> select_degraded sample_backends sample_healthy c 6 = Some 1} = 15"
proof -
  have "weights sample_backends = 6" "healthy_weights sample_healthy sample_backends = 3"
      "length sample_backends = 4" "b_action (sample_backends ! 1) \<noteq> Reject"
      "healthy_share sample_healthy (sample_backends ! 1) = 3" "rejected_weight sample_backends = 1"
    by code_simp+
  then show ?thesis using degraded_shares [of sample_backends sample_healthy 1 5] by simp
qed

section \<open>The selectors\<close>

lemma healthy_weight_le: "healthy_weight healthy bs \<le> weights bs"
  by (induction bs) (auto simp: healthy_weight_def weights_def)

lemma healthy_weight_full:
  assumes "healthy_weight healthy bs = weights bs" "b \<in> set bs" "0 < b_weight b"
  shows "healthy (b_addr b)"
  using assms
proof (induction bs)
  case (Cons b' bs)
  then show ?case using healthy_weight_le [of healthy bs]
    by (auto simp: healthy_weight_def weights_def split: if_splits)
qed simp

lemma healthy_weight_zero:
  "healthy_weight healthy bs = 0 \<Longrightarrow> b \<in> set bs \<Longrightarrow> 0 < b_weight b \<Longrightarrow> \<not> healthy (b_addr b)"
  by (auto simp: healthy_weight_def)

lemma healthy_weights_zero:
  "healthy_weights healthy bs = 0 \<Longrightarrow> b \<in> set bs \<Longrightarrow> 0 < b_weight b \<Longrightarrow> b_action b \<noteq> Reject \<Longrightarrow>
     \<not> healthy (b_addr b)"
  by (induction bs) (auto simp: healthy_weights_def healthy_share_def)

text \<open>What may be selected: a backend with weight that is valid or whose failure is its share's.\<close>

definition selectable :: "(socket_addr \<Rightarrow> bool) \<Rightarrow> backend list \<Rightarrow> nat \<Rightarrow> bool" where
  "selectable healthy bs i \<longleftrightarrow> i < length bs \<and> 0 < b_weight (bs ! i) \<and>
     (b_action (bs ! i) = Reject \<or> healthy (b_addr (bs ! i)) \<or>
      (\<forall>b \<in> set bs. b_action b \<noteq> Reject \<longrightarrow> 0 < b_weight b \<longrightarrow> \<not> healthy (b_addr b)))"

lemma slot_owner_selectable:
  assumes "healthy_weight healthy bs = weights bs \<or> healthy_weight healthy bs = 0" "slot_owner bs slot = Some i"
  shows "selectable healthy bs i"
  using assms slot_owner_lt [OF assms(2)] healthy_weight_full [of healthy bs "bs ! i"]
    healthy_weight_zero [of healthy bs]
  unfolding selectable_def by auto

lemma select_degraded_selectable:
  assumes T: "0 < weights bs" and s: "select_degraded bs healthy c (weights bs) = Some i"
  shows "selectable healthy bs i"
proof (cases "healthy_weights healthy bs = 0")
  case True
  then have "slot_owner bs (c mod weights bs) = Some i"
    using s by (auto simp: select_degraded_def degraded_loop_eq Let_def split: option.splits)
  then show ?thesis
    using slot_owner_lt healthy_weights_zero [OF True] by (auto simp: selectable_def)
next
  case False
  show ?thesis
  proof (cases "forwards bs (c mod weights bs)")
    case True
    then have "owner_w (map (healthy_share healthy) bs)
        (count_upto (\<lambda>k. forwards bs (k mod weights bs)) c mod healthy_weights healthy bs) = Some i"
      using s False select_degraded_cases [OF T] by simp
    then show ?thesis
      by (auto simp: owner_w_Some_iff take_Suc_conv_app_nth selectable_def healthy_share_def split: if_splits)
  next
    case no: False
    then have o': "slot_owner bs (c mod weights bs) = Some i"
      using s False select_degraded_cases [OF T] by simp
    then show ?thesis using no slot_owner_lt [OF o'] by (auto simp: selectable_def forwards_def)
  qed
qed

lemma select_degraded_total: "0 < weights bs \<Longrightarrow> select_degraded bs healthy c (weights bs) \<noteq> None"
  using slot_owner_Some [of "c mod weights bs" bs]
  by (auto simp: select_degraded_def Let_def split: option.splits)

lemma rule_ok_weights: "rule_ok rule \<Longrightarrow> total_weight rule = weights (r_backends rule)"
  by (simp add: rule_ok_def weights_def)

lemma fast_path:
  assumes ok: "rule_ok rule" and many: "length (r_backends rule) \<noteq> 1" and T: "0 < weights (r_backends rule)"
    and hw: "healthy_weight healthy (r_backends rule) = weights (r_backends rule)
      \<or> healthy_weight healthy (r_backends rule) = 0"
  shows "select_healthy_weighted_backend rule healthy counter =
    (slot_owner (r_backends rule) (unat counter mod weights (r_backends rule)), counter + 1)"
proof -
  have "unat counter mod weights (r_backends rule) < total_weight rule"
    using T by (simp add: rule_ok_weights [OF ok])
  from partition_point_owner [OF ok this] show ?thesis
    using assms by (auto simp: select_healthy_weighted_backend_def Let_def rule_ok_weights)
qed

lemma slow_path:
  assumes ok: "rule_ok rule" and many: "length (r_backends rule) \<noteq> 1" and T: "0 < weights (r_backends rule)"
    and hw: "healthy_weight healthy (r_backends rule) \<noteq> weights (r_backends rule)"
      "healthy_weight healthy (r_backends rule) \<noteq> 0"
  shows "select_healthy_weighted_backend rule healthy counter =
    (select_degraded (r_backends rule) healthy (unat counter) (weights (r_backends rule)), counter + 1)"
  using assms by (simp add: select_healthy_weighted_backend_def Let_def rule_ok_weights)

lemma select_none:
  assumes "rule_ok rule" "length (r_backends rule) \<noteq> 1" "weights (r_backends rule) = 0"
  shows "fst (select_healthy_weighted_backend rule healthy counter) = None"
proof -
  have "healthy_weight healthy (r_backends rule) = 0"
    using healthy_weight_le [of healthy "r_backends rule"] assms(3) by simp
  then show ?thesis using assms
    by (simp add: select_healthy_weighted_backend_def Let_def rule_ok_weights)
qed

lemma select_selectable:
  assumes ok: "rule_ok rule" and many: "length (r_backends rule) \<noteq> 1"
    and s: "fst (select_healthy_weighted_backend rule healthy counter) = Some i"
  shows "selectable healthy (r_backends rule) i"
proof -
  let ?bs = "r_backends rule"
  have T: "0 < weights ?bs" using select_none [OF ok many] s by fastforce
  show ?thesis
  proof (cases "healthy_weight healthy ?bs = weights ?bs \<or> healthy_weight healthy ?bs = 0")
    case True
    then show ?thesis using s slot_owner_selectable [OF True] by (simp add: fast_path [OF ok many T True])
  next
    case False
    then show ?thesis using s select_degraded_selectable [OF T] by (simp add: slow_path [OF ok many T])
  qed
qed

lemma select_total:
  assumes ok: "rule_ok rule" and many: "length (r_backends rule) \<noteq> 1" and T: "0 < weights (r_backends rule)"
  shows "fst (select_healthy_weighted_backend rule healthy counter) \<noteq> None"
proof (cases "healthy_weight healthy (r_backends rule) = weights (r_backends rule)
    \<or> healthy_weight healthy (r_backends rule) = 0")
  case True
  then show ?thesis
    using slot_owner_Some [of "unat counter mod weights (r_backends rule)" "r_backends rule"] T
    by (simp add: fast_path [OF ok many T True])
next
  case False
  then show ?thesis
    using select_degraded_total [OF T] by (simp add: slow_path [OF ok many T] del: not_None_eq)
qed

text \<open>
  C27. Selection is safe and total: an HTTP rule's selection fails if and only if no backend has
  weight, and otherwise names a backend with weight which is an invalid reference taking its own
  share, or healthy, or one of a set with nothing healthy to forward to; a single backend is
  used whatever its health.
\<close>

theorem selection_safe:
  assumes ok: "rule_ok rule"
  shows "(fst (select_healthy_weighted_backend rule healthy counter) = None \<longleftrightarrow> weights (r_backends rule) = 0) \<and>
    (fst (select_healthy_weighted_backend rule healthy counter) = Some i \<longrightarrow>
       i < length (r_backends rule) \<and> 0 < b_weight (r_backends rule ! i) \<and>
       (length (r_backends rule) = 1 \<or> selectable healthy (r_backends rule) i))"
proof (cases "length (r_backends rule) = 1")
  case True
  then obtain b where "r_backends rule = [b]" by (cases "r_backends rule") auto
  then show ?thesis by (auto simp: select_healthy_weighted_backend_def weights_def split: if_splits)
next
  case False
  then show ?thesis
    using select_none [OF ok False] select_total [OF ok False] select_selectable [OF ok False]
    by (auto simp: selectable_def simp del: not_None_eq)
qed

text \<open>
  C28. With every backend healthy, or none, traffic splits exactly by weight: of any total-weight
  many consecutive selections that do not wrap the counter, a backend gets exactly its weight.
\<close>

theorem healthy_shares:
  assumes ok: "rule_ok rule" and many: "length (r_backends rule) \<noteq> 1" and T: "0 < weights (r_backends rule)"
    and hw: "healthy_weight healthy (r_backends rule) = weights (r_backends rule)
      \<or> healthy_weight healthy (r_backends rule) = 0"
    and i: "i < length (r_backends rule)" and nowrap: "unat counter + weights (r_backends rule) \<le> 2 ^ 64"
  shows "card {k. k < weights (r_backends rule) \<and>
      fst (select_healthy_weighted_backend rule healthy (counter + word_of_nat k)) = Some i} =
    b_weight (r_backends rule ! i)"
proof -
  let ?bs = "r_backends rule" let ?T = "weights (r_backends rule)"
  have "unat (counter + word_of_nat k) = unat counter + k" if "k < ?T" for k
    using that nowrap by (simp add: unat_word_ariths unsigned_of_nat take_bit_nat_eq_self)
  then have "{k. k < ?T \<and> fst (select_healthy_weighted_backend rule healthy (counter + word_of_nat k)) = Some i}
      = {k. k < ?T \<and> slot_owner ?bs ((unat counter + k) mod ?T) = Some i}"
    by (auto simp: fast_path [OF ok many T hw])
  moreover have "card \<dots> = card {x. unat counter \<le> x \<and> x < unat counter + 1 * ?T \<and> slot_owner ?bs (x mod ?T) = Some i}"
    by (rule bij_betw_same_card [of "(+) (unat counter)"], rule bij_betwI')
      (auto intro: bexI [of _ "_ - unat counter"] simp: Bex_def, metis add_diff_inverse_nat add_less_cancel_left leD)
  moreover have "{y. y < ?T \<and> slot_owner ?bs y = Some i} = {y. owner_w (map b_weight ?bs) y = Some i}"
    using slot_owner_lt by (auto simp: slot_owner_w)
  ultimately show ?thesis
    using card_periods [OF T, of "unat counter" 1 "\<lambda>s. slot_owner ?bs s = Some i"] i
    by (simp add: owner_w_count)
qed

definition sample_rule :: http_route_rule where
  "sample_rule = rule_metadata (rule_new Prefix ''/'' [] [] [] sample_backends)"

lemma sample_rule_facts:
  "rule_ok sample_rule" "r_backends sample_rule = sample_backends" "weights sample_backends = 6"
  "length sample_backends = 4" "b_weight (sample_backends ! 1) = 3"
  by (simp_all add: sample_rule_def rule_ok_metadata rule_metadata_def Let_def rule_new_def)
    (code_simp+)

theorem selection_safe_witness:
  "fst (select_healthy_weighted_backend sample_rule sample_healthy 2) = Some 1 \<and>
   selectable sample_healthy sample_backends 1"
proof -
  have "fst (select_healthy_weighted_backend sample_rule sample_healthy 2) = Some 1" by code_simp
  then show ?thesis
    using selection_safe [OF sample_rule_facts(1), of sample_healthy 2 1] sample_rule_facts by simp
qed

theorem healthy_shares_witness:
  "card {k. k < 6 \<and> fst (select_healthy_weighted_backend sample_rule (\<lambda>_. True) (7 + word_of_nat k)) = Some 1} = 3"
proof -
  have "healthy_weight (\<lambda>_. True) sample_backends = 6" by code_simp
  then show ?thesis
    using healthy_shares [OF sample_rule_facts(1), of "\<lambda>_. True" 1 7] sample_rule_facts by simp
qed

lemma select_l4_eq:
  "fst (select_l4_backend key bs healthy sel) =
     (if weights bs = 0 then None
      else map_option ((!) bs)
        (if healthy_weight healthy bs = weights bs \<or> healthy_weight healthy bs = 0
         then slot_owner bs (unat (fst (next_counter key sel)) mod weights bs)
         else select_degraded bs healthy (unat (fst (next_counter key sel))) (weights bs)))"
  unfolding select_l4_backend_def Let_def weights_def [symmetric] by (simp split: prod.split)

lemma select_l4_Some:
  assumes "fst (select_l4_backend key bs healthy sel) = Some b"
  obtains i where "b = bs ! i" "selectable healthy bs i"
proof -
  have T: "0 < weights bs" using assms by (auto simp: select_l4_eq split: if_splits)
  show thesis
    using assms T that slot_owner_selectable [of healthy bs] select_degraded_selectable [OF T, of healthy]
    by (auto simp: select_l4_eq split: if_splits)
qed

lemma select_l4_None: "fst (select_l4_backend key bs healthy sel) = None \<longleftrightarrow> weights bs = 0"
proof (cases "weights bs = 0")
  case False
  then have "\<exists>i. slot_owner bs (unat (fst (next_counter key sel)) mod weights bs) = Some i"
    by (intro slot_owner_Some) simp
  then show ?thesis
    using False select_degraded_total [of bs healthy] by (auto simp: select_l4_eq)
qed (simp add: select_l4_eq)

text \<open>The backends a passthrough connection is for: its TLS route's, else its port's TCP route's.\<close>

definition passthrough_backends :: "route_table \<Rightarrow> bytes option \<Rightarrow> u16 \<Rightarrow> bytes option \<Rightarrow> backend list option" where
  "passthrough_backends t sni port listener =
     (case tls_route t sni port listener of Some (bs, _) \<Rightarrow> Some bs | None \<Rightarrow> find_tcp_backends t port)"

text \<open>
  C29. A passthrough connection reaches only a valid backend of its own route that may be
  selected, and each way of dropping it has its cause: no route at all, a route with no backend,
  one whose backends all have weight zero, or the share of an invalid reference.
\<close>

theorem passthrough_outcomes:
  "case fst (resolve_tls_passthrough tls_hash t sni port listener healthy sel) of
     Inr a \<Rightarrow> \<exists>bs i. passthrough_backends t sni port listener = Some bs \<and> selectable healthy bs i \<and>
       b_action (bs ! i) = Forward \<and> b_addr (bs ! i) = a
   | Inl NoRoute \<Rightarrow> passthrough_backends t sni port listener = None
   | Inl NoBackends \<Rightarrow> passthrough_backends t sni port listener = Some []
   | Inl NoWeight \<Rightarrow> \<exists>bs. passthrough_backends t sni port listener = Some bs \<and> bs \<noteq> [] \<and> weights bs = 0
   | Inl Rejected \<Rightarrow> \<exists>bs i. passthrough_backends t sni port listener = Some bs \<and> i < length bs \<and>
       b_action (bs ! i) = Reject \<and> 0 < b_weight (bs ! i)"
proof (cases "passthrough_backends t sni port listener")
  case None
  then show ?thesis
    by (auto simp: resolve_tls_passthrough_def passthrough_backends_def find_tcp_backends_def split: option.splits)
next
  case (Some bs)
  then obtain key where key: "(case tls_route t sni port listener of
              Some (bs, key) \<Rightarrow> Some (bs, tls_hash key)
            | None \<Rightarrow> map_option (\<lambda>bs. (bs, word_of_nat port)) (map_of (tcp_routes t) port)) = Some (bs, key)"
    by (auto simp: passthrough_backends_def find_tcp_backends_def split: option.splits)
  show ?thesis
  proof (cases "bs = []")
    case True
    then show ?thesis using Some by (simp add: resolve_tls_passthrough_def key)
  next
    case ne: False
    show ?thesis
    proof (cases "fst (select_l4_backend key bs healthy sel)")
      case None
      then have "weights bs = 0" by (simp add: select_l4_None)
      then show ?thesis using None Some ne
        by (cases "select_l4_backend key bs healthy sel") (simp add: resolve_tls_passthrough_def key)
    next
      case sel: (Some b)
      then obtain i where i: "b = bs ! i" "selectable healthy bs i" by (rule select_l4_Some)
      have "b_action b \<noteq> Reject \<Longrightarrow> b_action b = Forward" by (cases "b_action b") auto
      then show ?thesis using sel Some ne i
        by (cases "select_l4_backend key bs healthy sel")
          (auto simp: resolve_tls_passthrough_def key selectable_def)
    qed
  qed
qed

end
