(* ===== verification/Health.thy ===== *)
theory Health
  imports Portail_Prelude
begin

text \<open>
  Backend health tracking (\<open>src/src/proxy/health.rs\<close>). The registry is a record of the map of
  tracked backends and the \<open>tracked\<close> flag; recovery probes are tasks with the phase they wait
  in, and the requests for a probe that \<open>record_failure\<close> has returned and no caller has spawned
  yet are counted in \<open>pending\<close>. \<open>health_step\<close> interleaves the operations, each of which holds
  the backend's map entry for its whole duration. The \<open>tracked\<close> flag is not under that lock:
  its protocol is a second machine, with one step per memory access.
\<close>

section \<open>State\<close>

datatype status = Healthy | Unhealthy | Probing

definition FAILURE_THRESHOLD :: u32 where "FAILURE_THRESHOLD = 3"

text \<open>Durations in seconds.\<close>

definition PROBE_INITIAL_INTERVAL :: nat where "PROBE_INITIAL_INTERVAL = 10"
definition PROBE_MAX_INTERVAL :: nat where "PROBE_MAX_INTERVAL = 300"

definition next_probe_interval :: "nat \<Rightarrow> nat" where
  "next_probe_interval current = min (current * 2) PROBE_MAX_INTERVAL"

record backend_health =
  consecutive_failures :: u32
  status :: status
  probe :: "nat option"

definition healthy :: backend_health where
  "healthy = \<lparr>consecutive_failures = 0, status = Healthy, probe = None\<rparr>"

text \<open>A running \<open>run_probe\<close> task: its backend and the await it is parked at, with its interval.\<close>

datatype probe_phase = Sleeping nat | Connecting nat

record registry =
  backends :: "socket_addr \<rightharpoonup> backend_health"
  tracked :: bool
  tasks :: "nat \<rightharpoonup> socket_addr \<times> probe_phase"
  marked_total :: nat
  recovered_total :: nat

definition registry_new :: registry where
  "registry_new = \<lparr>backends = Map.empty, tracked = False, tasks = Map.empty,
     marked_total = 0, recovered_total = 0\<rparr>"

section \<open>Operations\<close>

definition abort_task :: "nat option \<Rightarrow> registry \<Rightarrow> registry" where
  "abort_task h r = (case h of None \<Rightarrow> r | Some tid \<Rightarrow> r\<lparr>tasks := (tasks r)(tid := None)\<rparr>)"

text \<open>Dropping entries aborts the probes their slots hold.\<close>

definition prune :: "(socket_addr \<Rightarrow> bool) \<Rightarrow> registry \<Rightarrow> registry" where
  "prune routed r =
     (if \<not> tracked r then r
      else let r1 = r\<lparr>backends := (\<lambda>a. if routed a then backends r a else None),
                     tasks := (\<lambda>tid. if \<exists>a e. \<not> routed a \<and> backends r a = Some e \<and> probe e = Some tid
                                    then None else tasks r tid)\<rparr>
           in if backends r1 = Map.empty then r1\<lparr>tracked := False\<rparr> else r1)"

definition is_healthy :: "registry \<Rightarrow> socket_addr \<Rightarrow> bool" where
  "is_healthy r a =
     (if \<not> tracked r then True
      else (case backends r a of None \<Rightarrow> True | Some e \<Rightarrow> status e = Healthy))"

definition record_success :: "socket_addr \<Rightarrow> registry \<Rightarrow> registry" where
  "record_success a r =
     (if \<not> tracked r then r
      else (case backends r a of
         None \<Rightarrow> r
       | Some e \<Rightarrow>
           let was_unhealthy = (status e \<noteq> Healthy)
           in if was_unhealthy \<or> consecutive_failures e > 0
              then r\<lparr>backends := (backends r)(a \<mapsto> e\<lparr>consecutive_failures := 0, status := Healthy\<rparr>),
                     recovered_total := recovered_total r + (if was_unhealthy then 1 else 0)\<rparr>
              else r))"

definition compare_exchange :: "status \<Rightarrow> status \<Rightarrow> backend_health \<Rightarrow> backend_health \<times> bool" where
  "compare_exchange old new e = (if status e = old then (e\<lparr>status := new\<rparr>, True) else (e, False))"

definition record_failure :: "socket_addr \<Rightarrow> registry \<Rightarrow> registry \<times> bool" where
  "record_failure a r =
     (let e0 = (case backends r a of Some e \<Rightarrow> e | None \<Rightarrow> healthy);
          new_count = consecutive_failures e0 + 1;
          e1 = e0\<lparr>consecutive_failures := new_count\<rparr>
      in if new_count \<ge> FAILURE_THRESHOLD
         then (case compare_exchange Healthy Unhealthy e1 of (e2, marked) \<Rightarrow>
                 (case compare_exchange Unhealthy Probing e2 of (e3, won) \<Rightarrow>
                    (r\<lparr>backends := (backends r)(a \<mapsto> e3), tracked := True,
                       marked_total := marked_total r + (if marked then 1 else 0)\<rparr>, won)))
         else (r\<lparr>backends := (backends r)(a \<mapsto> e1), tracked := True\<rparr>, False))"

definition spawn_probe :: "nat \<Rightarrow> socket_addr \<Rightarrow> registry \<Rightarrow> registry" where
  "spawn_probe tid a r =
     (let r1 = r\<lparr>tasks := (tasks r)(tid \<mapsto> (a, Sleeping PROBE_INITIAL_INTERVAL))\<rparr>
      in (case backends r1 a of
            Some e \<Rightarrow> abort_task (probe e) (r1\<lparr>backends := (backends r1)(a \<mapsto> e\<lparr>probe := Some tid\<rparr>)\<rparr>)
          | None \<Rightarrow> abort_task (Some tid) r1))"

text \<open>
  \<open>run_probe\<close> between its two awaits: \<open>probe_wake\<close> runs when the sleep ends, \<open>probe_result\<close>
  when the connect attempt does.
\<close>

definition still_probing :: "socket_addr \<Rightarrow> registry \<Rightarrow> bool" where
  "still_probing a r = (case backends r a of None \<Rightarrow> False | Some e \<Rightarrow> status e = Probing)"

definition probe_wake :: "nat \<Rightarrow> registry \<Rightarrow> registry" where
  "probe_wake tid r = (case tasks r tid of
     Some (a, Sleeping i) \<Rightarrow>
       if still_probing a r then r\<lparr>tasks := (tasks r)(tid \<mapsto> (a, Connecting i))\<rparr>
       else r\<lparr>tasks := (tasks r)(tid := None)\<rparr>
   | _ \<Rightarrow> r)"

definition probe_result :: "nat \<Rightarrow> bool \<Rightarrow> registry \<Rightarrow> registry" where
  "probe_result tid connected r = (case tasks r tid of
     Some (a, Connecting i) \<Rightarrow>
       if connected then
         (let r1 = r\<lparr>tasks := (tasks r)(tid := None)\<rparr>
          in (case backends r a of
                None \<Rightarrow> r1
              | Some e \<Rightarrow>
                  (case compare_exchange Probing Healthy (e\<lparr>consecutive_failures := 0\<rparr>) of
                     (e', won) \<Rightarrow> r1\<lparr>backends := (backends r)(a \<mapsto> e'),
                       recovered_total := recovered_total r + (if won then 1 else 0)\<rparr>)))
       else r\<lparr>tasks := (tasks r)(tid \<mapsto> (a, Sleeping (next_probe_interval i)))\<rparr>
   | _ \<Rightarrow> r)"

section \<open>Interleavings\<close>

text \<open>
  A registry with the probes \<open>record_failure\<close> asked for and no caller has spawned yet. A spawned
  task gets an identifier no slot and no task holds.
\<close>

type_synonym health_state = "registry \<times> (socket_addr \<Rightarrow> nat)"

definition fresh_task :: "nat \<Rightarrow> registry \<Rightarrow> bool" where
  "fresh_task tid r \<longleftrightarrow>
     tasks r tid = None \<and> (\<forall>a e. backends r a = Some e \<longrightarrow> probe e \<noteq> Some tid)"

inductive health_step :: "health_state \<Rightarrow> health_state \<Rightarrow> bool" where
  success: "health_step (r, p) (record_success a r, p)"
| failure: "record_failure a r = (r', won) \<Longrightarrow>
     health_step (r, p) (r', if won then p(a := p a + 1) else p)"
| spawn: "0 < p a \<Longrightarrow> fresh_task tid r \<Longrightarrow>
     health_step (r, p) (spawn_probe tid a r, p(a := p a - 1))"
| wake: "health_step (r, p) (probe_wake tid r, p)"
| result: "health_step (r, p) (probe_result tid connected r, p)"
| prune: "health_step (r, p) (prune routed r, p)"

inductive_cases health_stepE: "health_step s t"

definition slot_owns :: "registry \<Rightarrow> socket_addr \<Rightarrow> nat \<Rightarrow> bool" where
  "slot_owns r a tid \<longleftrightarrow> (\<exists>e. backends r a = Some e \<and> probe e = Some tid)"

definition health_inv :: "health_state \<Rightarrow> bool" where
  "health_inv s = (case s of (r, p) \<Rightarrow>
     (\<not> tracked r \<longrightarrow> backends r = Map.empty) \<and>
     (\<forall>a e. backends r a = Some e \<longrightarrow> status e \<noteq> Unhealthy) \<and>
     (\<forall>a e. backends r a = Some e \<longrightarrow> status e = Probing \<longrightarrow>
        0 < p a \<or> (\<exists>tid ph. probe e = Some tid \<and> tasks r tid = Some (a, ph))) \<and>
     (\<forall>tid a ph. tasks r tid = Some (a, ph) \<longrightarrow> slot_owns r a tid) \<and>
     (\<forall>a b tid. slot_owns r a tid \<longrightarrow> slot_owns r b tid \<longrightarrow> a = b))"

lemma health_invI:
  assumes "\<not> tracked r \<Longrightarrow> backends r = Map.empty"
    and "\<And>a e. backends r a = Some e \<Longrightarrow> status e \<noteq> Unhealthy"
    and "\<And>a e. backends r a = Some e \<Longrightarrow> status e = Probing \<Longrightarrow>
        0 < p a \<or> (\<exists>tid ph. probe e = Some tid \<and> tasks r tid = Some (a, ph))"
    and "\<And>tid a ph. tasks r tid = Some (a, ph) \<Longrightarrow> slot_owns r a tid"
    and "\<And>a b tid. slot_owns r a tid \<Longrightarrow> slot_owns r b tid \<Longrightarrow> a = b"
  shows "health_inv (r, p)"
  using assms unfolding health_inv_def by auto

lemma health_invD:
  assumes "health_inv (r, p)"
  shows untracked_empty: "\<not> tracked r \<Longrightarrow> backends r = Map.empty"
    and not_Unhealthy: "backends r a = Some e \<Longrightarrow> status e \<noteq> Unhealthy"
    and probe_due: "backends r a = Some e \<Longrightarrow> status e = Probing \<Longrightarrow>
        0 < p a \<or> (\<exists>tid ph. probe e = Some tid \<and> tasks r tid = Some (a, ph))"
    and task_owned: "tasks r tid = Some (a, ph) \<Longrightarrow> slot_owns r a tid"
    and slot_unique: "slot_owns r a tid \<Longrightarrow> slot_owns r b tid \<Longrightarrow> a = b"
  using assms unfolding health_inv_def by auto

text \<open>An update of one entry that leaves its slot alone keeps the invariant.\<close>

lemma inv_update:
  assumes inv: "health_inv (r, p)"
    and r': "backends r' = (backends r)(a \<mapsto> e)" "tasks r' = tasks r" "tracked r'"
    and slot: "probe e = (case backends r a of Some e0 \<Rightarrow> probe e0 | None \<Rightarrow> None)"
    and st: "status e \<noteq> Unhealthy"
    and due: "status e = Probing \<Longrightarrow> 0 < p' a \<or> (\<exists>e0. backends r a = Some e0 \<and> status e0 = Probing)"
    and p': "\<And>b. p b \<le> p' b"
  shows "health_inv (r', p')"
proof -
  have slots: "slot_owns r' b tid \<longleftrightarrow> slot_owns r b tid" for b tid
    using slot by (auto simp: slot_owns_def r' split: option.splits)
  show ?thesis
  proof (rule health_invI, goal_cases)
    case (2 b e')
    then show ?case using not_Unhealthy [OF inv] st by (auto simp: r' split: if_splits)
  next
    case (3 b e')
    show ?case
    proof (cases "b = a")
      case True
      then show ?thesis using 3 due slot p' [of a] probe_due [OF inv, of a]
        by (cases "backends r a") (auto simp: r')
    next
      case False
      then show ?thesis using 3 p' [of b] probe_due [OF inv, of b e'] by (auto simp: r')
    qed
  qed (use inv in \<open>auto simp: slots r' dest: task_owned slot_unique\<close>)
qed

lemma inv_success:
  assumes "health_inv (r, p)"
  shows "health_inv (record_success a r, p)"
proof -
  have "record_success a r = r \<or> (\<exists>e0. backends r a = Some e0 \<and>
      backends (record_success a r) = (backends r)(a \<mapsto> e0\<lparr>consecutive_failures := 0, status := Healthy\<rparr>) \<and>
      tasks (record_success a r) = tasks r \<and> tracked (record_success a r))"
    by (auto simp: record_success_def Let_def split: option.split)
  then show ?thesis
  proof (elim disjE exE conjE)
    fix e0
    assume "backends r a = Some e0"
      and upd: "backends (record_success a r) =
        (backends r)(a \<mapsto> e0\<lparr>consecutive_failures := 0, status := Healthy\<rparr>)"
        "tasks (record_success a r) = tasks r" "tracked (record_success a r)"
    then show ?thesis by (intro inv_update [OF assms upd]) auto
  qed (simp add: assms)
qed

lemma record_failure_cases:
  obtains e0 st where "backends (fst (record_failure a r)) = (backends r)(a \<mapsto>
        e0\<lparr>consecutive_failures := consecutive_failures e0 + 1, status := st\<rparr>)"
    "tasks (fst (record_failure a r)) = tasks r" "tracked (fst (record_failure a r))"
    "e0 = (case backends r a of Some e \<Rightarrow> e | None \<Rightarrow> healthy)"
    "st = status e0 \<and> \<not> snd (record_failure a r) \<or> st = Probing \<and> snd (record_failure a r)"
proof -
  let ?en = "case backends r a of Some e \<Rightarrow> e | None \<Rightarrow> healthy"
  let ?st = "if snd (record_failure a r) then Probing else status ?en"
  show thesis
    by (rule that [of ?st ?en])
      (auto simp: record_failure_def Let_def compare_exchange_def split: prod.splits)
qed

lemma inv_failure:
  assumes "health_inv (r, p)" "record_failure a r = (r', won)"
  shows "health_inv (r', if won then p(a := p a + 1) else p)"
proof -
  obtain e0 st where e0: "backends r' = (backends r)(a \<mapsto>
        e0\<lparr>consecutive_failures := consecutive_failures e0 + 1, status := st\<rparr>)"
    "tasks r' = tasks r" "tracked r'" "e0 = (case backends r a of Some e \<Rightarrow> e | None \<Rightarrow> healthy)"
    "st = status e0 \<and> \<not> won \<or> st = Probing \<and> won"
    using record_failure_cases [of a r] assms(2) by (metis fst_conv snd_conv)
  show ?thesis
    using e0 assms(1) not_Unhealthy [OF assms(1), of a]
    by (intro inv_update [OF assms(1) e0(1-3)]) (auto simp: healthy_def split: option.splits)
qed

lemma inv_spawn:
  assumes inv: "health_inv (r, p)" and fresh: "fresh_task tid r"
  shows "health_inv (spawn_probe tid a r, p(a := p a - 1))"
proof (cases "backends r a")
  case None
  have "spawn_probe tid a r = r\<lparr>tasks := (tasks r)(tid := None)\<rparr>"
    by (simp add: spawn_probe_def abort_task_def None)
  moreover have "(tasks r)(tid := None) = tasks r" using fresh by (auto simp: fresh_task_def)
  ultimately have r': "spawn_probe tid a r = r" by simp
  show ?thesis unfolding r'
  proof (rule health_invI, goal_cases)
    case (3 b e)
    then show ?case using probe_due [OF inv 3] None by (cases "b = a") auto
  qed (use inv in \<open>auto dest: untracked_empty not_Unhealthy task_owned slot_unique\<close>)
next
  case (Some e)
  let ?r = "spawn_probe tid a r"
  have b: "backends ?r = (backends r)(a \<mapsto> e\<lparr>probe := Some tid\<rparr>)" "tracked ?r = tracked r"
    by (auto simp: spawn_probe_def abort_task_def Some Let_def split: option.splits)
  have ne: "probe e \<noteq> Some tid" using fresh Some by (auto simp: fresh_task_def)
  have t: "tasks ?r t = (if t = tid then Some (a, Sleeping PROBE_INITIAL_INTERVAL)
      else if probe e = Some t then None else tasks r t)" for t
    using ne by (auto simp: spawn_probe_def abort_task_def Some Let_def split: option.splits)
  have own: "slot_owns ?r c t \<longleftrightarrow> (if c = a then t = tid else slot_owns r c t)" for c t
    by (auto simp: slot_owns_def b)
  have free: "\<not> slot_owns r c tid" for c using fresh by (auto simp: slot_owns_def fresh_task_def)
  have mine: "slot_owns r a t \<longleftrightarrow> probe e = Some t" for t using Some by (auto simp: slot_owns_def)
  show ?thesis
  proof (rule health_invI, goal_cases)
    case 1 then show ?case using untracked_empty [OF inv] Some b by auto
  next
    case (2 c e') then show ?case using not_Unhealthy [OF inv] Some b by (auto split: if_splits)
  next
    case (3 c e')
    show ?case
    proof (cases "c = a")
      case False
      then have e': "backends r c = Some e'" using 3 b by auto
      have "tasks ?r t' = tasks r t'" if "probe e' = Some t'" for t'
        using that e' mine [of t'] slot_unique [OF inv, of a t' c] free [of c] False
        by (auto simp: t slot_owns_def)
      then show ?thesis using probe_due [OF inv e' 3(2)] False by auto
    qed (use 3 b t in auto)
  next
    case (4 t c ph)
    then show ?case
      using task_owned [OF inv, of t c ph] by (auto simp: t own mine split: if_splits)
  next
    case (5 c d t)
    then show ?case using slot_unique [OF inv] free by (auto simp: own split: if_splits)
  qed
qed

text \<open>Ending or moving on a probe task.\<close>

lemma inv_tasks:
  assumes inv: "health_inv (r, p)"
    and r': "backends r' = backends r" "tracked r' = tracked r"
    and t: "\<And>t a ph. tasks r' t = Some (a, ph) \<Longrightarrow> \<exists>ph. tasks r t = Some (a, ph)"
    and keep: "\<And>t a ph e. tasks r t = Some (a, ph) \<Longrightarrow> backends r a = Some e \<Longrightarrow> status e = Probing \<Longrightarrow>
       probe e = Some t \<Longrightarrow> \<exists>ph. tasks r' t = Some (a, ph)"
  shows "health_inv (r', p)"
proof -
  have own: "slot_owns r' = slot_owns r" by (auto simp: slot_owns_def r' fun_eq_iff)
  show ?thesis
  proof (rule health_invI, goal_cases)
    case (3 a e)
    then show ?case using probe_due [OF inv, of a e] keep by (fastforce simp: r')
  next
    case (4 t a ph)
    then show ?case using task_owned [OF inv] t own by fastforce
  qed (use inv in \<open>auto simp: own r' dest: untracked_empty not_Unhealthy slot_unique\<close>)
qed

lemma health_inv_cong:
  "health_inv (r, p) \<Longrightarrow> backends r' = backends r \<Longrightarrow> tasks r' = tasks r \<Longrightarrow>
     tracked r' = tracked r \<Longrightarrow> health_inv (r', p)"
  by (rule inv_tasks [of r]) auto

lemma inv_wake: "health_inv (r, p) \<Longrightarrow> health_inv (probe_wake tid r, p)"
  by (rule inv_tasks [of r])
    (auto simp: probe_wake_def still_probing_def
      split: option.splits prod.splits probe_phase.splits if_splits)

lemma inv_result:
  assumes inv: "health_inv (r, p)"
  shows "health_inv (probe_result tid connected r, p)"
proof (cases "\<exists>a i. tasks r tid = Some (a, Connecting i) \<and> connected")
  case False
  then show ?thesis
    by (intro inv_tasks [OF inv])
      (auto simp: probe_result_def split: option.splits prod.splits probe_phase.splits if_splits)
next
  case True
  then obtain a i where ai: "tasks r tid = Some (a, Connecting i)" connected by auto
  then obtain e where e: "backends r a = Some e" "probe e = Some tid"
    using task_owned [OF inv ai(1)] by (auto simp: slot_owns_def)
  have tr: "tracked r" using untracked_empty [OF inv] e(1) by (cases "tracked r") auto
  let ?e = "e\<lparr>consecutive_failures := 0, status := Healthy\<rparr>"
  have "health_inv (r\<lparr>backends := (backends r)(a \<mapsto> ?e)\<rparr>, p)"
    by (rule inv_update [OF inv]) (auto simp: e tr)
  then have "health_inv (r\<lparr>backends := (backends r)(a \<mapsto> ?e), tasks := (tasks r)(tid := None)\<rparr>, p)"
    using ai(1) by (elim inv_tasks) (auto split: if_splits)
  moreover have "status e \<noteq> Unhealthy" using not_Unhealthy [OF inv e(1)] .
  then obtain won where "compare_exchange Probing Healthy (e\<lparr>consecutive_failures := 0\<rparr>) = (?e, won)"
    by (cases e; cases "status e") (auto simp: compare_exchange_def)
  then have "backends (probe_result tid connected r) = (backends r)(a \<mapsto> ?e)"
    "tasks (probe_result tid connected r) = (tasks r)(tid := None)"
    "tracked (probe_result tid connected r) = tracked r"
    using ai e by (simp_all add: probe_result_def)
  ultimately show ?thesis
    by (elim health_inv_cong) (simp_all add: tr)
qed

lemma inv_prune:
  assumes inv: "health_inv (r, p)"
  shows "health_inv (prune routed r, p)"
proof (cases "tracked r")
  case True
  let ?r = "prune routed r"
  have b: "backends ?r = (\<lambda>a. if routed a then backends r a else None)"
    using True by (simp add: prune_def Let_def)
  have own: "slot_owns ?r a t \<longleftrightarrow> routed a \<and> slot_owns r a t" for a t
    by (auto simp: slot_owns_def b)
  have t: "tasks ?r t = (if \<exists>a. \<not> routed a \<and> slot_owns r a t then None else tasks r t)" for t
    using True by (auto simp: prune_def Let_def slot_owns_def)
  have tr: "tracked ?r \<or> backends ?r = Map.empty"
    using True by (auto simp: prune_def Let_def)
  show ?thesis
  proof (rule health_invI, goal_cases)
    case 1 then show ?case using tr by simp
  next
    case (2 a e) then show ?case using not_Unhealthy [OF inv] by (auto simp: b split: if_splits)
  next
    case (3 a e)
    then have a: "routed a" "backends r a = Some e" by (auto simp: b split: if_splits)
    have "tasks ?r t = tasks r t" if "probe e = Some t" for t
      using that a slot_unique [OF inv, of a t] by (auto simp: t slot_owns_def)
    then show ?case using probe_due [OF inv a(2) 3(2)] by auto
  next
    case (4 t a ph)
    then show ?case using task_owned [OF inv, of t a ph] by (auto simp: own t split: if_splits)
  next
    case (5 a c t) then show ?case using slot_unique [OF inv] by (auto simp: own)
  qed
qed (use inv in \<open>simp add: prune_def\<close>)

definition health_init :: "health_state \<Rightarrow> bool" where
  "health_init s \<longleftrightarrow> s = (registry_new, \<lambda>_. 0)"

interpretation health: transition_system health_init health_step health_inv
proof
  show "health_inv s" if "health_init s" for s
    using that by (simp add: health_init_def registry_new_def health_inv_def slot_owns_def)
  show "health_inv t" if "health_inv s" "health_step s t" for s t
    using that(2,1)
    by cases (simp_all add: inv_success inv_failure inv_spawn inv_wake inv_result inv_prune
        del: One_nat_def)
qed

text \<open>
  C10. No ejected backend is abandoned and none is probed twice. In every reachable registry a
  backend that requests avoid is waiting for a probe that is running or about to be spawned,
  every running probe is the one its backend's slot holds, and two probes never share a backend.
\<close>

theorem ejected_backends_are_probed:
  assumes "health_step\<^sup>*\<^sup>* (registry_new, \<lambda>_. 0) (r, p)"
  shows "(\<not> is_healthy r a \<longrightarrow> 0 < p a \<or> (\<exists>tid ph. tasks r tid = Some (a, ph)))
    \<and> (tasks r t1 = Some (a, ph1) \<longrightarrow> tasks r t2 = Some (a, ph2) \<longrightarrow> t1 = t2)"
proof -
  have inv: "health_inv (r, p)"
    using health.reachable_inv [OF _ assms] by (simp add: health_init_def)
  have "0 < p a \<or> (\<exists>tid ph. tasks r tid = Some (a, ph))" if nh: "\<not> is_healthy r a"
  proof -
    obtain e where e: "backends r a = Some e" "status e \<noteq> Healthy"
      using nh by (auto simp: is_healthy_def split: if_splits option.splits)
    then have "status e = Probing" using not_Unhealthy [OF inv e(1)] by (cases "status e") auto
    then show ?thesis using probe_due [OF inv e(1)] by auto
  qed
  moreover have "t1 = t2" if "tasks r t1 = Some (a, ph1)" "tasks r t2 = Some (a, ph2)"
    using task_owned [OF inv that(1)] task_owned [OF inv that(2)] by (auto simp: slot_owns_def)
  ultimately show ?thesis by blast
qed

definition fail_at :: "socket_addr \<Rightarrow> registry \<Rightarrow> registry" where
  "fail_at a r = fst (record_failure a r)"

section \<open>Ejection\<close>

lemma fail_at_other [simp]: "b \<noteq> a \<Longrightarrow> backends (fail_at a r) b = backends r b"
  by (simp add: fail_at_def record_failure_def Let_def split: prod.split)

lemma fail_at_tracked [simp]: "tracked (fail_at a r)"
  by (simp add: fail_at_def record_failure_def Let_def split: prod.split)

text \<open>The entry of a backend after \<open>n\<close> failures in a row.\<close>

definition failed_entry :: "nat \<Rightarrow> backend_health option \<Rightarrow> bool" where
  "failed_entry n eo = (case eo of
     None \<Rightarrow> n = 0
   | Some e \<Rightarrow> consecutive_failures e = word_of_nat n \<and> status e = (if n < 3 then Healthy else Probing))"

lemma record_failure_entry:
  assumes "failed_entry n (backends r a)" "Suc n < 4294967296"
  shows "failed_entry (Suc n) (backends (fail_at a r) a) \<and> (snd (record_failure a r) \<longleftrightarrow> n = 2)"
proof -
  have w: "word_of_nat n + 1 = (word_of_nat (Suc n) :: u32)" by (simp add: add.commute)
  have "unat (word_of_nat (Suc n) :: u32) = Suc n"
    using assms(2) by (simp only: unsigned_of_nat) (simp add: take_bit_nat_eq_self)
  then have th: "FAILURE_THRESHOLD \<le> word_of_nat (Suc n) \<longleftrightarrow> 3 \<le> Suc n"
    by (simp add: word_le_nat_alt FAILURE_THRESHOLD_def del: of_nat_Suc)
  define e where "e = (case backends r a of Some e \<Rightarrow> e | None \<Rightarrow> healthy)"
  have e: "consecutive_failures e = word_of_nat n" "status e = (if n < 3 then Healthy else Probing)"
    using assms(1) by (auto simp: e_def failed_entry_def healthy_def split: option.splits)
  consider "n < 2" | "n = 2" | "3 \<le> n" by linarith
  then show ?thesis
  proof cases
    case 1
    with th have nt: "\<not> FAILURE_THRESHOLD \<le> word_of_nat (Suc n)" by simp
    show ?thesis using 1 e nt
      by (simp add: failed_entry_def fail_at_def record_failure_def w flip: e_def del: of_nat_Suc)
  next
    case 2
    with th have ft: "FAILURE_THRESHOLD \<le> word_of_nat (Suc n)" by simp
    show ?thesis using 2 e ft
      by (simp add: failed_entry_def fail_at_def record_failure_def compare_exchange_def w
          flip: e_def del: of_nat_Suc)
  next
    case 3
    with th have ft: "FAILURE_THRESHOLD \<le> word_of_nat (Suc n)" by simp
    show ?thesis using 3 e ft
      by (simp add: failed_entry_def fail_at_def record_failure_def compare_exchange_def w
          flip: e_def del: of_nat_Suc)
  qed
qed

lemma fail_n_entry:
  assumes "failed_entry 0 (backends r a)" "n < 4294967296"
  shows "failed_entry n (backends ((fail_at a ^^ n) r) a)"
  using assms(2) by (induction n) (auto simp: assms(1) record_failure_entry)

definition sample_backend :: socket_addr where "sample_backend = SocketAddr (V4 0x0A000001) 8080"

definition sample_ejected :: registry where
  "sample_ejected = (fail_at sample_backend ^^ 3) registry_new"

lemma fail_at_step:
  "health_step (r, p) (fail_at a r, if snd (record_failure a r) then p(a := p a + 1) else p)"
  unfolding fail_at_def by (rule health_step.failure) simp

lemma sample_reached:
  "health_step\<^sup>*\<^sup>* (registry_new, \<lambda>_. 0) (sample_ejected, (\<lambda>_. 0)(sample_backend := 1))"
proof -
  let ?a = sample_backend and ?f = "fail_at sample_backend"
  have en: "failed_entry n (backends ((?f ^^ n) registry_new) ?a)" if "n < 3" for n
    using that by (intro fail_n_entry) (auto simp: failed_entry_def registry_new_def)
  have "health_step ((?f ^^ n) registry_new, \<lambda>_. 0)
      ((?f ^^ Suc n) registry_new, if n = 2 then (\<lambda>_. 0)(?a := 1) else (\<lambda>_. 0))" if "n < 3" for n
    using fail_at_step [of "(?f ^^ n) registry_new" "\<lambda>_. 0" ?a] that
      record_failure_entry [OF en [OF that]] by (auto split: if_splits)
  from this [of 0] this [of 1] this [of 2] show ?thesis
    by (simp add: sample_ejected_def numeral_3_eq_3 numeral_2_eq_2)
qed

lemma sample_entry: "failed_entry 3 (backends sample_ejected sample_backend)"
  unfolding sample_ejected_def
  by (rule fail_n_entry) (auto simp: failed_entry_def registry_new_def)

theorem ejected_backends_are_probed_witness:
  "\<not> is_healthy sample_ejected sample_backend \<and>
   (0 < ((\<lambda>_. 0)(sample_backend := 1 :: nat)) sample_backend \<or>
      (\<exists>tid ph. tasks sample_ejected tid = Some (sample_backend, ph)))"
proof -
  have "tracked sample_ejected" by (simp add: sample_ejected_def numeral_3_eq_3)
  then have "\<not> is_healthy sample_ejected sample_backend"
    using sample_entry by (auto simp: is_healthy_def failed_entry_def split: option.splits)
  then show ?thesis
    using ejected_backends_are_probed [OF sample_reached, of sample_backend] by blast
qed

lemma is_healthy_failed:
  "failed_entry n (backends r a) \<Longrightarrow> (n = 0 \<Longrightarrow> \<not> tracked r \<Longrightarrow> backends r a = None) \<Longrightarrow>
     (0 < n \<Longrightarrow> tracked r) \<Longrightarrow> is_healthy r a \<longleftrightarrow> n < 3"
  by (cases "backends r a") (auto simp: is_healthy_def failed_entry_def split: if_splits)

lemma success_entry:
  assumes "health_inv (r, p)"
  shows "failed_entry 0 (backends (record_success a r) a)"
proof (cases "tracked r")
  case True
  then show ?thesis
    by (auto simp: record_success_def failed_entry_def Let_def word_gt_0 split: option.splits)
next
  case False
  then show ?thesis using untracked_empty [OF assms] by (simp add: record_success_def failed_entry_def)
qed

lemma fail_n_other: "b \<noteq> a \<Longrightarrow> backends ((fail_at a ^^ n) r) b = backends r b"
  by (induction n) auto

lemma fail_n_tracked: "0 < n \<Longrightarrow> tracked ((fail_at a ^^ n) r)"
  by (cases n) auto

lemma success_tracked: "tracked (record_success a r) = tracked r"
  by (simp add: record_success_def Let_def split: option.split)

lemma threshold_self:
  assumes inv: "health_inv (r, p)" and n: "n < 4294967296"
  shows "is_healthy ((fail_at a ^^ n) (record_success a r)) a \<longleftrightarrow> n < 3"
proof -
  have "\<not> tracked r \<Longrightarrow> backends (record_success a r) = Map.empty"
    using untracked_empty [OF inv] by (simp add: record_success_def)
  moreover have "failed_entry n (backends ((fail_at a ^^ n) (record_success a r)) a)"
    using n by (intro fail_n_entry success_entry [OF inv])
  ultimately show ?thesis
    by (intro is_healthy_failed) (auto simp: fail_n_tracked success_tracked)
qed

lemma threshold_other:
  assumes inv: "health_inv (r, p)" and "b \<noteq> a"
  shows "is_healthy ((fail_at a ^^ n) (record_success a r)) b = is_healthy r b"
proof -
  have "backends ((fail_at a ^^ n) (record_success a r)) b = backends r b"
    using assms(2) by (simp add: fail_n_other record_success_def Let_def split: option.split)
  then show ?thesis
    using untracked_empty [OF inv] fail_n_tracked [of n a "record_success a r"] success_tracked [of a r]
    by (cases "n = 0"; cases "tracked r") (auto simp: is_healthy_def)
qed

text \<open>
  C11. A backend is ejected by three failures in a row, no fewer, and only for itself: after a
  success, \<open>n\<close> failures leave it in rotation if and only if \<open>n < 3\<close>, and the health of
  every other backend of a registry that is tracking any is untouched.
\<close>

theorem ejection_threshold:
  assumes "health_step\<^sup>*\<^sup>* (registry_new, \<lambda>_. 0) (r, p)" "n < 2 ^ 32"
  shows "(is_healthy ((fail_at a ^^ n) (record_success a r)) a \<longleftrightarrow> n < 3)
    \<and> (b \<noteq> a \<longrightarrow> is_healthy ((fail_at a ^^ n) (record_success a r)) b = is_healthy r b)"
proof -
  have "health_inv (r, p)"
    using health.reachable_inv [OF _ assms(1)] by (simp add: health_init_def)
  then show ?thesis using threshold_self [of r p n a] threshold_other [of r p b a n] assms(2) by simp
qed

theorem ejection_threshold_witness:
  "\<not> is_healthy ((fail_at sample_backend ^^ 3) (record_success sample_backend sample_ejected)) sample_backend
   \<and> is_healthy ((fail_at sample_backend ^^ 2) (record_success sample_backend sample_ejected)) sample_backend"
  using ejection_threshold [OF sample_reached, of 3 sample_backend]
    ejection_threshold [OF sample_reached, of 2 sample_backend] by simp

text \<open>
  C12. The probe of a backend that stays down backs off by doubling from ten seconds and settles
  at the ceiling of five minutes, never beyond: its \<open>n\<close>-th wait lasts
  \<open>min (10 * 2 ^ n) 300\<close> seconds.
\<close>

theorem probe_backoff:
  "((\<lambda>r. probe_result tid False (probe_wake tid r)) ^^ n) r = r' \<Longrightarrow>
   tasks r tid = Some (a, Sleeping PROBE_INITIAL_INTERVAL) \<Longrightarrow> still_probing a r \<Longrightarrow>
   tasks r' tid = Some (a, Sleeping (min (10 * 2 ^ n) 300)) \<and> still_probing a r'"
proof (induction n arbitrary: r')
  case 0
  then show ?case by (simp add: PROBE_INITIAL_INTERVAL_def)
next
  case (Suc n)
  then show ?case
    by (auto simp: probe_result_def probe_wake_def still_probing_def next_probe_interval_def
        PROBE_MAX_INTERVAL_def min_def)
qed

theorem probe_backoff_witness:
  "tasks (((\<lambda>r. probe_result 0 False (probe_wake 0 r)) ^^ 9)
     (spawn_probe 0 sample_backend sample_ejected)) 0 = Some (sample_backend, Sleeping 300)"
proof -
  let ?r = "spawn_probe 0 sample_backend sample_ejected"
  obtain e where e: "backends sample_ejected sample_backend = Some e" "status e = Probing"
    using sample_entry by (auto simp: failed_entry_def split: option.splits)
  have "probe e \<noteq> Some 0"
  proof -
    have "tasks sample_ejected = Map.empty \<and> (\<forall>e. backends sample_ejected sample_backend = Some e \<longrightarrow> probe e = None)"
      unfolding sample_ejected_def numeral_3_eq_3
      by (simp add: fail_at_def record_failure_def registry_new_def Let_def compare_exchange_def
          healthy_def split: prod.split)
    then show ?thesis using e by auto
  qed
  then have "tasks ?r 0 = Some (sample_backend, Sleeping PROBE_INITIAL_INTERVAL)" "still_probing sample_backend ?r"
    using e by (auto simp: spawn_probe_def abort_task_def still_probing_def Let_def split: option.splits)
  then show ?thesis using probe_backoff [where n = 9 and tid = 0, OF refl] by simp
qed

section \<open>The tracked flag\<close>

text \<open>
  \<open>tracked\<close> lets every request skip the map while no backend has failed. It is read and written
  without the map's locks, so this machine has one step per access: \<open>record_failure\<close> callers
  insert their entry, then load the flag and raise it if they saw it down; the pruner retains
  entries, looks for emptiness, lowers the flag, and looks through the shards again, raising the
  flag when it finds an entry. The first look for emptiness is left free to answer wrongly.
\<close>

datatype inserter = Idle | Inserted socket_addr | Raising socket_addr

datatype pruner = Resting | Retaining | Rechecking nat | Reraising

record flag_state =
  entries :: "socket_addr set"
  flag :: bool
  callers :: "nat \<Rightarrow> inserter"
  pruning :: pruner

inductive flag_step :: "(socket_addr \<Rightarrow> nat) \<Rightarrow> nat \<Rightarrow> flag_state \<Rightarrow> flag_state \<Rightarrow> bool"
  for shard :: "socket_addr \<Rightarrow> nat" and shards :: nat where
  insert: "callers s t = Idle \<Longrightarrow>
    flag_step shard shards s
      (s\<lparr>entries := insert a (entries s), callers := (callers s)(t := Inserted a)\<rparr>)"
| load_up: "callers s t = Inserted a \<Longrightarrow> flag s \<Longrightarrow>
    flag_step shard shards s (s\<lparr>callers := (callers s)(t := Idle)\<rparr>)"
| load_down: "callers s t = Inserted a \<Longrightarrow> \<not> flag s \<Longrightarrow>
    flag_step shard shards s (s\<lparr>callers := (callers s)(t := Raising a)\<rparr>)"
| raise: "callers s t = Raising a \<Longrightarrow>
    flag_step shard shards s (s\<lparr>flag := True, callers := (callers s)(t := Idle)\<rparr>)"
| prune_starts: "pruning s = Resting \<Longrightarrow> flag s \<Longrightarrow>
    flag_step shard shards s (s\<lparr>pruning := Retaining\<rparr>)"
| prune_drops: "pruning s = Retaining \<Longrightarrow>
    flag_step shard shards s (s\<lparr>entries := entries s - {a}\<rparr>)"
| prune_ends: "pruning s = Retaining \<Longrightarrow>
    flag_step shard shards s (s\<lparr>pruning := Resting\<rparr>)"
| prune_lowers: "pruning s = Retaining \<Longrightarrow>
    flag_step shard shards s (s\<lparr>flag := False, pruning := Rechecking 0\<rparr>)"
| recheck_empty: "pruning s = Rechecking i \<Longrightarrow> i < shards \<Longrightarrow> \<forall>a \<in> entries s. shard a \<noteq> i \<Longrightarrow>
    flag_step shard shards s (s\<lparr>pruning := Rechecking (Suc i)\<rparr>)"
| recheck_found: "pruning s = Rechecking i \<Longrightarrow> a \<in> entries s \<Longrightarrow> shard a = i \<Longrightarrow>
    flag_step shard shards s (s\<lparr>pruning := Reraising\<rparr>)"
| recheck_done: "pruning s = Rechecking shards \<Longrightarrow>
    flag_step shard shards s (s\<lparr>pruning := Resting\<rparr>)"
| reraise: "pruning s = Reraising \<Longrightarrow>
    flag_step shard shards s (s\<lparr>flag := True, pruning := Resting\<rparr>)"

definition flag_init :: "flag_state \<Rightarrow> bool" where
  "flag_init s \<longleftrightarrow> s = \<lparr>entries = {}, flag = False, callers = (\<lambda>_. Idle), pruning = Resting\<rparr>"

text \<open>Somebody is still going to raise a lowered flag for the entry \<open>a\<close>.\<close>

definition will_raise :: "(socket_addr \<Rightarrow> nat) \<Rightarrow> flag_state \<Rightarrow> socket_addr \<Rightarrow> bool" where
  "will_raise shard s a \<longleftrightarrow> (\<exists>t. callers s t \<in> {Inserted a, Raising a}) \<or> pruning s = Reraising
     \<or> (\<exists>i \<le> shard a. pruning s = Rechecking i)"

definition flag_inv :: "(socket_addr \<Rightarrow> nat) \<Rightarrow> nat \<Rightarrow> flag_state \<Rightarrow> bool" where
  "flag_inv shard shards s \<longleftrightarrow>
     (\<forall>a. shard a < shards) \<longrightarrow> (\<forall>a \<in> entries s. flag s \<or> will_raise shard s a)"

lemma will_raise_keep:
  "will_raise shard s a \<Longrightarrow> callers s t \<notin> {Inserted a, Raising a} \<or> c \<in> {Inserted a, Raising a} \<Longrightarrow>
     pruning s' = pruning s \<Longrightarrow> callers s' = (callers s)(t := c) \<Longrightarrow> will_raise shard s' a"
  unfolding will_raise_def by (auto split: if_splits)

lemma flag_step_inv:
  assumes "flag_step shard shards s s'" "flag_inv shard shards s"
  shows "flag_inv shard shards s'"
  unfolding flag_inv_def
proof (intro impI ballI)
  fix a assume sh: "\<forall>a. shard a < shards" and a: "a \<in> entries s'"
  have old: "flag s \<or> will_raise shard s a" if "a \<in> entries s"
    using assms(2) sh that by (auto simp: flag_inv_def)
  from assms(1) show "flag s' \<or> will_raise shard s' a"
  proof cases
    case (insert t b)
    show ?thesis
    proof (cases "a = b")
      case True
      then have "callers s' t = Inserted a" using insert by simp
      then show ?thesis by (auto simp: will_raise_def)
    qed (use insert old a will_raise_keep [of shard s a t "Inserted b" s'] in auto)
  next
    case (load_down t b)
    then show ?thesis
      using old a will_raise_keep [of shard s a t "Raising b" s'] by auto
  next
    case (recheck_empty i)
    then show ?thesis
      using old a by (auto simp: will_raise_def Suc_le_eq)
  next
    case recheck_done
    then show ?thesis using old a spec [OF sh, of a] by (auto simp: will_raise_def)
  qed (use old a in \<open>auto simp: will_raise_def\<close>)
qed

interpretation flag_protocol: transition_system flag_init "flag_step shard shards" "flag_inv shard shards"
  for shard shards
proof
  show "flag_inv shard shards s" if "flag_init s" for s
    using that by (simp add: flag_init_def flag_inv_def)
qed (rule flag_step_inv)

text \<open>
  C13. No failed backend hides behind a lowered flag: whatever the interleaving of failures
  with a prune, once every caller has returned, a flag that is down means the map is empty, so
  skipping the map answers what looking in it would.
\<close>

theorem tracked_flag_sound:
  assumes "\<forall>a. shard a < shards"
    and "(flag_step shard shards)\<^sup>*\<^sup>* s0 s" "flag_init s0"
    and "\<forall>t. callers s t = Idle" "pruning s = Resting" "\<not> flag s"
  shows "entries s = {}"
  using flag_protocol.reachable_inv [OF assms(3,2)] assms
  by (auto simp: flag_inv_def will_raise_def)

definition sample_flag_run :: "flag_state list" where
  "sample_flag_run = (let a = sample_backend;
       s = (\<lambda>es f c p. \<lparr>entries = es, flag = f, callers = (\<lambda>t. if t = 0 then c else Idle), pruning = p\<rparr>)
     in [s {} False Idle Resting, s {a} False (Inserted a) Resting, s {a} False (Raising a) Resting,
         s {a} True Idle Resting, s {a} True Idle Retaining, s {} True Idle Retaining,
         s {} False Idle (Rechecking 0), s {} False Idle (Rechecking 1), s {} False Idle Resting])"

lemma sample_flag_steps:
  "i < 8 \<Longrightarrow> flag_step (\<lambda>_. 0) (Suc 0) (sample_flag_run ! i) (sample_flag_run ! Suc i)"
proof -
  let ?s = "\<lambda>es f c p. \<lparr>entries = es, flag = f, callers = (\<lambda>t. if t = 0 then c else Idle), pruning = p\<rparr>
    :: flag_state"
  have upd: "(\<lambda>t. if t = 0 then c else Idle)(0 := c') = (\<lambda>t :: nat. if t = 0 then c' else Idle)" for c c'
    by auto
  have upd0: "(\<lambda>t. Idle)(0 := c) = (\<lambda>t :: nat. if t = 0 then c else Idle)" for c by auto
  assume "i < 8"
  then consider "i = 0" | "i = 1" | "i = 2" | "i = 3" | "i = 4" | "i = 5" | "i = 6" | "i = 7" by linarith
  then show ?thesis
    using flag_step.insert [of "?s {} False Idle Resting" 0 "\<lambda>_. 0" "Suc 0" sample_backend]
      flag_step.load_down [of "?s {sample_backend} False (Inserted sample_backend) Resting" 0 sample_backend "\<lambda>_. 0" "Suc 0"]
      flag_step.raise [of "?s {sample_backend} False (Raising sample_backend) Resting" 0 sample_backend "\<lambda>_. 0" "Suc 0"]
      flag_step.prune_starts [of "?s {sample_backend} True Idle Resting" "\<lambda>_. 0" "Suc 0"]
      flag_step.prune_drops [of "?s {sample_backend} True Idle Retaining" "\<lambda>_. 0" "Suc 0" sample_backend]
      flag_step.prune_lowers [of "?s {} True Idle Retaining" "\<lambda>_. 0" "Suc 0"]
      flag_step.recheck_empty [of "?s {} False Idle (Rechecking 0)" 0 1 "\<lambda>_. 0"]
      flag_step.recheck_done [of "?s {} False Idle (Rechecking 1)" 1 "\<lambda>_. 0"]
    by cases (simp_all add: sample_flag_run_def upd upd0)
qed

lemma sample_flag_reached: "(flag_step (\<lambda>_. 0) (Suc 0))\<^sup>*\<^sup>* (sample_flag_run ! 0) (sample_flag_run ! 8)"
proof -
  have "n \<le> 8 \<Longrightarrow> (flag_step (\<lambda>_. 0) (Suc 0))\<^sup>*\<^sup>* (sample_flag_run ! 0) (sample_flag_run ! n)" for n
  proof (induction n)
    case (Suc n)
    then show ?case
      using sample_flag_steps [of n] by (auto intro: rtranclp.rtrancl_into_rtrancl)
  qed simp
  then show ?thesis by simp
qed

theorem tracked_flag_sound_witness:
  "(flag_step (\<lambda>_. 0) (Suc 0))\<^sup>*\<^sup>* (sample_flag_run ! 0) (sample_flag_run ! 8) \<and> entries (sample_flag_run ! 8) = {}"
  using tracked_flag_sound [OF _ sample_flag_reached] sample_flag_reached
  by (simp add: sample_flag_run_def flag_init_def)

end
