(* ===== verification/Failover.thy ===== *)
theory Failover
  imports Backend_Select Health
begin

text \<open>
  Selection over the health registry: what backend selection relies on of health tracking is an
  interface, proved of the registry. Client lemmas about the two together are proved once from
  the interface.
\<close>

section \<open>The interface of health tracking\<close>

locale health_service =
  fixes is_up :: "'r \<Rightarrow> socket_addr \<Rightarrow> bool"
    and failed :: "socket_addr \<Rightarrow> 'r \<Rightarrow> 'r"
    and succeeded :: "socket_addr \<Rightarrow> 'r \<Rightarrow> 'r"
    and valid :: "'r \<Rightarrow> bool"
  assumes valid_failed: "valid r \<Longrightarrow> valid (failed a r)"
    and valid_succeeded: "valid r \<Longrightarrow> valid (succeeded a r)"
    and down_after_three: "valid r \<Longrightarrow> \<not> is_up ((failed a ^^ 3) (succeeded a r)) a"
    and up_after_success: "valid r \<Longrightarrow> is_up (succeeded a r) a"
    and others_untouched: "valid r \<Longrightarrow> b \<noteq> a \<Longrightarrow> is_up ((failed a ^^ n) (succeeded a r)) b = is_up r b"
begin

lemma others_untouched_by_success: "valid r \<Longrightarrow> b \<noteq> a \<Longrightarrow> is_up (succeeded a r) b = is_up r b"
  using others_untouched [of r b a 0] by simp

text \<open>A backend that failed three times in a row is passed over while another one is up.\<close>

lemma passed_over:
  assumes "valid r" "rule_ok rule" "length (r_backends rule) \<noteq> 1"
    and b: "b \<in> set (r_backends rule)" "0 < b_weight b" "b_action b = Forward" "b_addr b \<noteq> a" "is_up r (b_addr b)"
    and s: "selectable (is_up ((failed a ^^ 3) (succeeded a r))) (r_backends rule) i"
  shows "b_addr (r_backends rule ! i) \<noteq> a \<or> b_action (r_backends rule ! i) = Reject"
proof -
  let ?r = "(failed a ^^ 3) (succeeded a r)"
  have "is_up ?r (b_addr b)" using others_untouched [OF assms(1) b(4)] b(5) by simp
  then have "b_action (r_backends rule ! i) = Reject \<or> is_up ?r (b_addr (r_backends rule ! i))"
    using s b by (auto simp: selectable_def)
  then show ?thesis using down_after_three [OF assms(1)] by auto
qed

text \<open>A success brings a backend back to its full share when all others are up.\<close>

lemma all_up_after_success:
  assumes "valid r" "\<forall>b \<in> set bs. 0 < b_weight b \<longrightarrow> b_addr b = a \<or> is_up r (b_addr b)"
  shows "healthy_weight (is_up (succeeded a r)) bs = weights bs"
proof -
  have "is_up (succeeded a r) (b_addr b)" if "b \<in> set bs" "0 < b_weight b" for b
    using assms that up_after_success others_untouched_by_success by metis
  then have "filter (\<lambda>b. 0 < b_weight b \<and> is_up (succeeded a r) (b_addr b)) bs = filter (\<lambda>b. 0 < b_weight b) bs"
    by (intro filter_cong) auto
  moreover have "sum_list (map b_weight (filter (\<lambda>b. 0 < b_weight b) bs)) = weights bs"
    by (induction bs) (auto simp: weights_def)
  ultimately show ?thesis by (simp add: healthy_weight_def)
qed

end

definition valid_registry :: "registry \<Rightarrow> bool" where
  "valid_registry r \<longleftrightarrow> (\<exists>p. health_inv (r, p))"

interpretation registry_health: health_service is_healthy fail_at record_success valid_registry
proof
  show "valid_registry (fail_at a r)" if r: "valid_registry r" for a r
  proof -
    obtain p where p: "health_inv (r, p)" using r by (auto simp: valid_registry_def)
    obtain won where "record_failure a r = (fail_at a r, won)" by (cases "record_failure a r") (simp add: fail_at_def)
    from inv_failure [OF p this] show ?thesis by (auto simp: valid_registry_def)
  qed
  show "valid_registry (record_success a r)" if "valid_registry r" for a r
    using that inv_success by (auto simp: valid_registry_def)
  show "\<not> is_healthy ((fail_at a ^^ 3) (record_success a r)) a" if r: "valid_registry r" for a r
    using r threshold_self [of r _ 3 a] by (auto simp: valid_registry_def)
  show "is_healthy (record_success a r) a" if r: "valid_registry r" for a r
    using r threshold_self [of r _ 0 a] by (auto simp: valid_registry_def)
  show "is_healthy ((fail_at a ^^ n) (record_success a r)) b = is_healthy r b"
    if "valid_registry r" "b \<noteq> a" for a b n r
    using that threshold_other by (auto simp: valid_registry_def)
qed

end
