(* ===== verification/Http_Parser.thy ===== *)
theory Http_Parser
  imports Byte_Scan
begin

text \<open>
  The request-head parser of \<open>src/src/proxy/http_parser.rs\<close>: one pass over the bytes that
  validates the head, extracts what routing and framing need, and records the spans of the
  header lines forwarding leaves out. Positions are offsets into the read data. The head grammar is
  stated apart from the parser, as a printer of heads; the two are related in both directions.
\<close>

section \<open>The end of a head\<close>

function find_header_end_from :: "bytes \<Rightarrow> nat \<Rightarrow> nat option" where
  "find_header_end_from data start =
     (case memchr (CHR 0x0D) (drop start data) of
        None \<Rightarrow> None
      | Some pos \<Rightarrow>
          let ab = start + pos in
          if ab + 3 < length data \<and> data ! (ab + 1) = CHR 0x0A \<and> data ! (ab + 2) = CHR 0x0D \<and> data ! (ab + 3) = CHR 0x0A
          then Some (ab + 4)
          else find_header_end_from data (ab + 1))"
  by pat_completeness auto
termination
  by (relation "measure (\<lambda>(data, start). Suc (length data) - start)")
    (auto simp: memchr_def dest: position_SomeD)

definition find_header_end :: "bytes \<Rightarrow> nat option" where
  "find_header_end data = find_header_end_from data 0"

definition has_header_end :: "bytes \<Rightarrow> bool" where
  "has_header_end data \<longleftrightarrow> ends_with data (CRLF @ CRLF) \<or> find_header_end data \<noteq> None"

section \<open>Spans of lines to strip\<close>

definition MAX_STRIP_SPANS :: nat where "MAX_STRIP_SPANS = 8"

text \<open>The array of spans and its length are the list of those in use.\<close>

record strip_spans =
  spans :: "(u32 \<times> u32) list"
  needs_slow_path :: bool

definition no_spans :: strip_spans where
  "no_spans = \<lparr>spans = [], needs_slow_path = False\<rparr>"

definition push_span :: "nat \<Rightarrow> nat \<Rightarrow> strip_spans \<Rightarrow> strip_spans" where
  "push_span start stop s =
     (if length (spans s) < MAX_STRIP_SPANS
      then s\<lparr>spans := spans s @ [(word_of_nat start, word_of_nat stop)]\<rparr>
      else s\<lparr>needs_slow_path := True\<rparr>)"

definition iter_spans :: "strip_spans \<Rightarrow> (nat \<times> nat) list" where
  "iter_spans s = map (\<lambda>(a, b). (unat a, unat b)) (spans s)"

section \<open>Pieces of the grammar\<close>

text \<open>
  An arm of a match on the length of a name and its first byte with bit 5 set, guarded by the
  comparison of the name.
\<close>

definition arm :: "bytes \<Rightarrow> nat \<Rightarrow> char \<Rightarrow> bytes \<Rightarrow> bool" where
  "arm name len first s \<longleftrightarrow>
     length name = len \<and> name \<noteq> [] \<and> or_0x20 (hd name) = first \<and> eq_ignore_ascii_case name s"

definition is_forwarding_claim :: "bytes \<Rightarrow> bool" where
  "is_forwarding_claim name \<longleftrightarrow>
     arm name 9 (CHR ''f'') ''forwarded'' \<or> arm name 15 (CHR ''x'') ''x-forwarded-ssl'' \<or>
     arm name 16 (CHR ''x'') ''x-forwarded-host'' \<or> arm name 16 (CHR ''x'') ''x-forwarded-port'' \<or>
     arm name 17 (CHR ''x'') ''x-forwarded-proto'' \<or> arm name 18 (CHR ''x'') ''x-forwarded-scheme''"

function query_backslashes :: "bytes \<Rightarrow> nat \<Rightarrow> nat" where
  "query_backslashes data stop =
     (if get data stop = Some (CHR 0x5C)
      then query_backslashes data (scan data (stop + 1) TARGET 0x21 TARGET_HOLES)
      else stop)"
  by pat_completeness auto
termination
  by (relation "measure (\<lambda>(data, e). Suc (length data) - e)")
    (auto simp: scan_target_bytes scan_bytes_takeWhile)

definition past_query_backslashes :: "bytes \<Rightarrow> nat \<Rightarrow> nat \<Rightarrow> nat" where
  "past_query_backslashes data start stop =
     (if memchr (CHR ''?'') (subslice start stop data) \<noteq> None then query_backslashes data stop else stop)"

definition is_ip_literal_byte :: "char \<Rightarrow> bool" where
  "is_ip_literal_byte b \<longleftrightarrow> is_ascii_hexdigit b \<or> b = CHR '':'' \<or> b = CHR ''.''"

text \<open>\<open>span_from p v i\<close>: where the loop \<open>while i < v.len() && p(v[i])\<close> ends.\<close>

definition span_from :: "(char \<Rightarrow> bool) \<Rightarrow> bytes \<Rightarrow> nat \<Rightarrow> nat" where
  "span_from p v i = i + length (takeWhile p (drop i v))"

definition split_host :: "bytes \<Rightarrow> nat option" where
  "split_host v =
     (case
        (if get v 0 = Some (CHR ''['')
         then (let i = span_from is_ip_literal_byte v 1 in
               if i = 1 \<or> get v i \<noteq> Some (CHR '']'') then None else Some (i + 1))
         else Some (span_from (\<lambda>b. is_class b HOST) v 0)) of
        None \<Rightarrow> None
      | Some host_end \<Rightarrow>
          if host_end < length v
          then if v ! host_end \<noteq> CHR '':'' then None
               else if span_from is_ascii_digit v (host_end + 1) < length v then None
               else Some host_end
          else Some host_end)"

text \<open>\<open>checked_mul\<close> and \<open>checked_add\<close> on a 64-bit \<open>usize\<close>.\<close>

fun parse_digits_from :: "nat \<Rightarrow> bytes \<Rightarrow> nat option" where
  "parse_digits_from n [] = Some n"
| "parse_digits_from n (b # v) =
     (if \<not> is_ascii_digit b then None
      else if n * 10 \<ge> 2 ^ 64 then None
      else if n * 10 + (ord8 b - 48) \<ge> 2 ^ 64 then None
      else parse_digits_from (n * 10 + (ord8 b - 48)) v)"

definition parse_digits :: "bytes \<Rightarrow> nat option" where
  "parse_digits v = (if v = [] then None else parse_digits_from 0 v)"

definition absolute_scheme_len :: "bytes \<Rightarrow> nat option" where
  "absolute_scheme_len target =
     (if length target \<ge> 7 \<and> eq_ignore_ascii_case (take 7 target) ''http://'' then Some 7
      else if length target \<ge> 8 \<and> eq_ignore_ascii_case (take 8 target) ''https://'' then Some 8
      else None)"

definition offers_h2c :: "bytes \<Rightarrow> bool" where
  "offers_h2c value \<longleftrightarrow>
     list_ex (\<lambda>offer.
       let offer = trim_ows offer;
           name = (case memchr (CHR ''/'') offer of Some i \<Rightarrow> take i offer | None \<Rightarrow> offer)
       in eq_ignore_ascii_case (trim_ows name) ''h2c'') (split_on (CHR '','') value)"

section \<open>Header lines\<close>

datatype line_kind = Keep | Strip | UpgradeLine

record parse_state =
  p_violation :: bool
  p_host :: "bytes option"
  p_keepalive :: "bool option"
  p_content_length :: "nat option"
  p_chunked :: bool
  p_has_upgrade :: bool
  p_h2c :: bool
  p_connection_upgrade :: bool
  p_spans :: strip_spans
  p_upgrade_span :: "(u32 \<times> u32) option"
  p_expect :: bool

definition parse_start :: "bool \<Rightarrow> parse_state" where
  "parse_start violation = \<lparr>p_violation = violation, p_host = None, p_keepalive = None,
     p_content_length = None, p_chunked = False, p_has_upgrade = False, p_h2c = False,
     p_connection_upgrade = False, p_spans = no_spans, p_upgrade_span = None, p_expect = False\<rparr>"

definition set_slow_path :: "bool \<Rightarrow> parse_state \<Rightarrow> parse_state" where
  "set_slow_path b st = st\<lparr>p_spans := (p_spans st)\<lparr>needs_slow_path := b\<rparr>\<rparr>"

definition connection_token :: "bytes \<Rightarrow> parse_state \<Rightarrow> parse_state" where
  "connection_token token st =
     (let token = trim_ows token in
      if eq_ignore_ascii_case token ''close'' then st\<lparr>p_keepalive := Some False\<rparr>
      else if eq_ignore_ascii_case token ''keep-alive'' then st\<lparr>p_keepalive := Some True\<rparr>
      else if eq_ignore_ascii_case token ''upgrade'' then st\<lparr>p_connection_upgrade := True\<rparr>
      else if eq_ignore_ascii_case token ''content-length'' \<or> eq_ignore_ascii_case token ''transfer-encoding'' \<or>
           eq_ignore_ascii_case token ''host''
      then st\<lparr>p_violation := True\<rparr>
      else if token \<noteq> [] \<and> \<not> eq_ignore_ascii_case token ''http2-settings'' then set_slow_path True st
      else st)"

text \<open>The match on a line's name: the new state and what forwarding does with the line.\<close>

definition header_field :: "bool \<Rightarrow> bytes \<Rightarrow> bytes \<Rightarrow> parse_state \<Rightarrow> parse_state \<times> line_kind" where
  "header_field is_http10 name value st =
     (if arm name 4 (CHR ''h'') ''host''
      then (let value = trim_ows value in
            case split_host value of
              Some h \<Rightarrow> if p_host st = None then (st\<lparr>p_host := Some (take h value)\<rparr>, Keep)
                        else (st\<lparr>p_violation := True\<rparr>, Keep)
            | None \<Rightarrow> (st\<lparr>p_violation := True\<rparr>, Keep))
      else if arm name 14 (CHR ''c'') ''content-length''
      then (case parse_digits (trim_ows value) of
              Some n \<Rightarrow> if p_content_length st = None then (st\<lparr>p_content_length := Some n\<rparr>, Keep)
                        else (st\<lparr>p_violation := True\<rparr>, Keep)
            | None \<Rightarrow> (st\<lparr>p_violation := True\<rparr>, Keep))
      else if arm name 17 (CHR ''t'') ''transfer-encoding''
      then (if is_http10 \<or> p_chunked st \<or> \<not> eq_ignore_ascii_case (trim_ows value) ''chunked''
            then (st\<lparr>p_violation := True\<rparr>, Keep)
            else (st\<lparr>p_chunked := True\<rparr>, Keep))
      else if arm name 7 (CHR ''u'') ''upgrade''
      then (if offers_h2c value then (st\<lparr>p_h2c := True\<rparr>, Strip)
            else ((set_slow_path (needs_slow_path (p_spans st) \<or> p_has_upgrade st) st)\<lparr>p_has_upgrade := True\<rparr>,
                  UpgradeLine))
      else if arm name 10 (CHR ''c'') ''connection''
      then (fold connection_token (split_on (CHR '','') value) st, Strip)
      else if arm name 6 (CHR ''e'') ''expect''
      then (if eq_ignore_ascii_case (trim_ows value) ''100-continue'' then st\<lparr>p_expect := True\<rparr> else st, Strip)
      else if arm name 10 (CHR ''k'') ''keep-alive'' then (st, Strip)
      else if arm name 16 (CHR ''p'') ''proxy-connection'' then (st, Strip)
      else if arm name 2 (CHR ''t'') ''te'' then (st, Strip)
      else if arm name 7 (CHR ''t'') ''trailer'' then (st, Strip)
      else if arm name 14 (CHR ''h'') ''http2-settings'' then (st, Strip)
      else if is_forwarding_claim name then (st, Strip)
      else (st, Keep))"

definition header_line :: "bool \<Rightarrow> bytes \<Rightarrow> bytes \<Rightarrow> nat \<Rightarrow> nat \<Rightarrow> parse_state \<Rightarrow> parse_state" where
  "header_line is_http10 name value line_start pos st =
     (case header_field is_http10 name value st of
        (st', kind) \<Rightarrow>
          if p_violation st' then st'
          else (case kind of
                  Keep \<Rightarrow> st'
                | Strip \<Rightarrow> st'\<lparr>p_spans := push_span line_start pos (p_spans st')\<rparr>
                | UpgradeLine \<Rightarrow> st'\<lparr>p_upgrade_span := Some (word_of_nat line_start, word_of_nat pos)\<rparr>))"

text \<open>The loop over the lines: where it stopped, its state, and whether a blank line ended it.\<close>

function header_loop :: "bytes \<Rightarrow> bool \<Rightarrow> nat \<Rightarrow> parse_state \<Rightarrow> nat \<times> parse_state \<times> bool" where
  "header_loop data is_http10 pos st =
     (if p_violation st \<or> pos \<ge> length data then (pos, st, False)
      else if data ! pos = CHR 0x0D then (pos, st, get data (pos + 1) = Some (CHR 0x0A))
      else let name_end = scan_bytes data pos TCHAR in
        if name_end = pos \<or> get data name_end \<noteq> Some (CHR '':'')
        then (name_end, st\<lparr>p_violation := True\<rparr>, False)
        else let value_start = name_end + 1;
                 value_end = scan data value_start VALUE 0x20 VALUE_HOLES in
          if get data value_end \<noteq> Some (CHR 0x0D) \<or> get data (value_end + 1) \<noteq> Some (CHR 0x0A)
          then (name_end, st\<lparr>p_violation := True\<rparr>, False)
          else header_loop data is_http10 (value_end + 2)
            (header_line is_http10 (subslice pos name_end data) (subslice value_start value_end data)
              pos (value_end + 2) st))"
  by pat_completeness auto
termination
  by (relation "measure (\<lambda>(data, h, pos, st). Suc (length data) - pos)")
    (auto simp: scan_value_bytes scan_bytes_takeWhile)

section \<open>The request\<close>

datatype parse_error = MalformedRequestLine | NonUtf8RequestLine | MissingHost | NonAsciiHost

record http_request_info =
  i_method :: bytes
  i_host :: bytes
  i_path :: bytes
  i_query_string :: bytes
  i_keepalive :: bool
  i_header_data :: bytes
  i_head_len :: nat
  i_content_length :: "nat option"
  i_is_chunked :: bool
  i_is_upgrade :: bool
  i_header_violation :: bool
  i_strip_spans :: strip_spans
  i_upgrade_span :: "(u32 \<times> u32) option"
  i_expect_continue :: bool

text \<open>The forms of a target: a violation, the host an absolute form names, and the path.\<close>

definition parse_target :: "bytes \<Rightarrow> bytes \<Rightarrow> bool \<times> bytes option \<times> bytes" where
  "parse_target method target =
     (if method = ''CONNECT'' then (True, None, target)
      else if get target 0 = Some (CHR ''/'') then (False, None, target)
      else if target = ''*'' then (method \<noteq> ''OPTIONS'', None, target)
      else case absolute_scheme_len target of
        None \<Rightarrow> (True, None, target)
      | Some scheme_len \<Rightarrow>
          let rest = drop scheme_len target;
              authority_len = (case memchr (CHR ''/'') rest of Some i \<Rightarrow> i | None \<Rightarrow> length rest);
              authority = take authority_len rest;
              path = (if authority_len < length rest then drop authority_len rest else ''/'')
          in (case split_host authority of
                Some h \<Rightarrow> if h > 0 then (False, Some (take h authority), path) else (True, None, path)
              | None \<Rightarrow> (True, None, path)))"

definition split_query :: "bytes \<Rightarrow> bytes \<times> bytes" where
  "split_query path =
     (case memchr (CHR ''?'') path of Some i \<Rightarrow> (take i path, drop (i + 1) path) | None \<Rightarrow> (path, []))"

text \<open>The target's end and version, when the request line is well formed.\<close>

definition http_version :: "bytes \<Rightarrow> nat \<Rightarrow> bool option" where
  "http_version data target_end =
     (if subslice (target_end + 1) (target_end + 11) data = ''HTTP/1.1'' @ CRLF then Some False
      else if subslice (target_end + 1) (target_end + 11) data = ''HTTP/1.0'' @ CRLF then Some True
      else None)"

definition target_scan :: "bytes \<Rightarrow> nat \<Rightarrow> nat" where
  "target_scan data target_start =
     (let target_end = scan data target_start TARGET 0x21 TARGET_HOLES in
      if get data target_end = Some (CHR 0x5C) then past_query_backslashes data target_start target_end
      else target_end)"

text \<open>After the lines: the host, the checks across lines, and the result.\<close>

definition finish_request :: "bytes \<Rightarrow> bool \<Rightarrow> bytes option \<Rightarrow> bytes \<Rightarrow> bytes \<Rightarrow> nat \<Rightarrow> nat \<times> parse_state \<times> bool \<Rightarrow>
    parse_error + http_request_info" where
  "finish_request method is_http10 target_host path data header_start res =
     (case res of (pos, st, terminated) \<Rightarrow>
      let violation = (p_violation st \<or> \<not> terminated) in
      case (case p_host st of
              Some h \<Rightarrow> Some h
            | None \<Rightarrow> if is_http10 then Some (case target_host of Some t \<Rightarrow> t | None \<Rightarrow> [])
                      else if violation then Some [] else None) of
        None \<Rightarrow> Inl MissingHost
      | Some host \<Rightarrow>
          if \<not> is_utf8 host then Inl NonAsciiHost
          else Inr \<lparr>i_method = method, i_host = host, i_path = fst (split_query path),
             i_query_string = snd (split_query path),
             i_keepalive = (case p_keepalive st of Some k \<Rightarrow> k | None \<Rightarrow> \<not> is_http10),
             i_header_data = subslice header_start pos data, i_head_len = pos + 2,
             i_content_length = p_content_length st, i_is_chunked = p_chunked st,
             i_is_upgrade = (p_has_upgrade st \<and> p_connection_upgrade st \<and> \<not> p_h2c st),
             i_header_violation =
               (violation \<or> (case target_host of Some t \<Rightarrow> \<not> eq_ignore_ascii_case t host | None \<Rightarrow> False) \<or>
                host = [] \<and> \<not> is_http10 \<or> p_content_length st \<noteq> None \<and> p_chunked st),
             i_strip_spans = p_spans st, i_upgrade_span = p_upgrade_span st, i_expect_continue = p_expect st\<rparr>)"

definition extract_routing_info :: "bytes \<Rightarrow> parse_error + http_request_info" where
  "extract_routing_info data =
     (let method_end = scan_bytes data 0 TCHAR in
      if method_end = 0 \<or> get data method_end \<noteq> Some (CHR '' '') then Inl MalformedRequestLine
      else let target_start = method_end + 1; target_end = target_scan data target_start in
        if target_end = target_start \<or> get data target_end \<noteq> Some (CHR '' '') then Inl MalformedRequestLine
        else case http_version data target_end of
          None \<Rightarrow> Inl MalformedRequestLine
        | Some is_http10 \<Rightarrow>
            if \<not> is_utf8 (take target_end data) then Inl NonUtf8RequestLine
            else let method = take method_end data; target = subslice target_start target_end data in
              case parse_target method target of (violation, target_host, path) \<Rightarrow>
                finish_request method is_http10 target_host path data (target_end + 11)
                  (header_loop data is_http10 (target_end + 11) (parse_start violation)))"

declare find_header_end_from.simps [simp del] query_backslashes.simps [simp del] header_loop.simps [simp del]

section \<open>Scanning over printed text\<close>

lemma takeWhile_weaken:
  assumes "\<And>x. P x \<Longrightarrow> Q x"
  shows "takeWhile Q xs = takeWhile P xs @ takeWhile Q (dropWhile P xs)"
  by (induction xs) (auto simp: assms)

lemma takeWhile_stop: "\<forall>x \<in> set xs. P x \<Longrightarrow> \<not> P y \<Longrightarrow> takeWhile P (xs @ y # ys) = xs"
  by (simp add: takeWhile_append2)

lemma scan_bytes_run [simp]:
  assumes "\<forall>b \<in> set run. is_class b cls" "\<not> is_class c cls"
  shows "scan_bytes (pre @ run @ c # rest) (length pre) cls = length pre + length run"
  using assms by (simp add: scan_bytes_takeWhile takeWhile_stop)

lemma scan_bytes_le: "pos \<le> length data \<Longrightarrow> scan_bytes data pos cls \<le> length data"
  by (metis scan_bytes_takeWhile add_le_imp_le_diff length_drop length_takeWhile_le add.commute le_add_diff_inverse nat_add_left_cancel_le)

text \<open>A scan splits the data into what came before, the run it passed, and what follows.\<close>

lemma scan_bytes_split:
  assumes "scan_bytes data pos cls = e" "pos \<le> length data"
  shows "drop pos data = subslice pos e data @ drop e data" "\<forall>b \<in> set (subslice pos e data). is_class b cls"
    "pos \<le> e" "e \<le> length data"
proof -
  have e: "e = pos + length (takeWhile (\<lambda>b. is_class b cls) (drop pos data))"
    using assms scan_bytes_takeWhile by metis
  then have s: "subslice pos e data = takeWhile (\<lambda>b. is_class b cls) (drop pos data)"
    by (simp add: subslice_def takeWhile_eq_take [symmetric])
  have d: "drop e data = dropWhile (\<lambda>b. is_class b cls) (drop pos data)"
    by (simp add: e dropWhile_eq_drop add.commute)
  show "drop pos data = subslice pos e data @ drop e data" by (simp add: s d)
  show "\<forall>b \<in> set (subslice pos e data). is_class b cls" 
    unfolding s by (auto dest: set_takeWhileD)
  show "pos \<le> e" by (simp add: e)
  show "e \<le> length data" using scan_bytes_le assms by blast
qed

lemma get_drop: "get data e = Some c \<Longrightarrow> drop e data = c # drop (Suc e) data"
  by (auto simp: Cons_nth_drop_Suc)

lemma class_marks [simp]:
  "\<not> is_class (CHR '':'') TCHAR" "\<not> is_class (CHR '' '') TCHAR" "\<not> is_class (CHR 0x0D) TCHAR"
  "\<not> is_class (CHR 0x0D) VALUE" "\<not> is_class (CHR '' '') TARGET" "\<not> is_class (CHR 0x5C) TARGET"
  "is_class (CHR ''?'') TARGET"
  by (simp_all add: class_iffs any_of_def TCHAR_MARKS_def TARGET_HOLES_def VALUE_HOLES_def ascii_defs)

section \<open>Header lines as text\<close>

definition line_bytes :: "bytes \<times> bytes \<Rightarrow> bytes" where
  "line_bytes f = fst f @ CHR '':'' # snd f @ CRLF"

definition field_ok :: "bytes \<times> bytes \<Rightarrow> bool" where
  "field_ok f \<longleftrightarrow> is_token (fst f) \<and> (\<forall>b \<in> set (snd f). is_class b VALUE)"

definition field_text :: "(bytes \<times> bytes) list \<Rightarrow> bytes" where
  "field_text fs = concat (map line_bytes fs)"

lemma field_text_simps [simp]:
  "field_text [] = []" "field_text (f # fs) = line_bytes f @ field_text fs"
  "field_text (fs @ gs) = field_text fs @ field_text gs"
  by (simp_all add: field_text_def)

text \<open>What the loop does over lines that are fields, as long as no violation is found.\<close>

fun read_fields :: "bool \<Rightarrow> nat \<Rightarrow> (bytes \<times> bytes) list \<Rightarrow> parse_state \<Rightarrow> parse_state" where
  "read_fields h10 pos [] st = st"
| "read_fields h10 pos (f # fs) st =
     (if p_violation st then st
      else read_fields h10 (pos + length (line_bytes f)) fs
        (header_line h10 (fst f) (snd f) pos (pos + length (line_bytes f)) st))"

lemma read_fields_violated [simp]: "p_violation st \<Longrightarrow> read_fields h10 pos fs st = st"
  by (cases fs) auto

lemma read_fields_snoc:
  "read_fields h10 pos (fs @ [f]) st =
     (let st' = read_fields h10 pos fs st; p = pos + length (field_text fs) in
      if p_violation st' then st'
      else header_line h10 (fst f) (snd f) p (p + length (line_bytes f)) st')"
  by (induction fs arbitrary: pos st) (auto simp: Let_def add.assoc)

lemma token_head: "is_token n \<Longrightarrow> \<exists>c s. n = c # s \<and> c \<noteq> CHR 0x0D"
  by (cases n) (auto simp: is_token_def)

lemma header_loop_line:
  assumes "field_ok f" "\<not> p_violation st"
  shows "header_loop (pre @ line_bytes f @ rest) h10 (length pre) st =
    header_loop (pre @ line_bytes f @ rest) h10 (length pre + length (line_bytes f))
      (header_line h10 (fst f) (snd f) (length pre) (length pre + length (line_bytes f)) st)"
proof -
  obtain n v where f: "f = (n, v)" by (cases f)
  have n: "is_token n" and v: "\<forall>b \<in> set v. is_class b VALUE" using assms(1) by (auto simp: field_ok_def f)
  obtain c s where cs: "n = c # s" "c \<noteq> CHR 0x0D" using token_head [OF n] by auto
  define data where "data = pre @ line_bytes f @ rest"
  have d1: "data = pre @ n @ CHR '':'' # (v @ CRLF @ rest)" by (simp add: data_def f line_bytes_def)
  have d2: "data = (pre @ n @ [CHR '':'']) @ v @ CHR 0x0D # (CHR 0x0A # rest)" by (simp add: d1)
  have ne: "scan_bytes data (length pre) TCHAR = length pre + length n"
    unfolding d1 using n by (intro scan_bytes_run) (auto simp: is_token_def)
  have ve: "scan data (length pre + length n + 1) VALUE 0x20 VALUE_HOLES = length pre + length n + 1 + length v"
    unfolding scan_value_bytes d2
    using scan_bytes_run [OF v, of "CHR 0x0D" "pre @ n @ [CHR '':'']" "CHR 0x0A # rest"] by simp
  have g: "get data (length pre + length n) = Some (CHR '':'')" "data ! length pre \<noteq> CHR 0x0D"
      "length pre < length data"
    unfolding d1 using cs by (auto simp: nth_append)
  have g2: "get data (length pre + length n + 1 + length v) = Some (CHR 0x0D)"
      "get data (length pre + length n + 1 + length v + 1) = Some (CHR 0x0A)"
    unfolding d2 by (auto simp: nth_append)
  have s: "subslice (length pre) (length pre + length n) data = n"
      "subslice (length pre + length n + 1) (length pre + length n + 1 + length v) data = v"
    by (simp_all add: subslice_def d1)
  have l: "length (line_bytes (n, v)) = length n + 1 + length v + 2" by (simp add: line_bytes_def)
  have "header_loop data h10 (length pre) st = header_loop data h10 (length pre + length n + 1 + length v + 2)
      (header_line h10 n v (length pre) (length pre + length n + 1 + length v + 2) st)"
    using assms(2) g g2 n
    by (subst header_loop.simps) (simp add: Let_def ne ve s is_token_def del: get_Some_iff One_nat_def Suc_eq_plus1 add_Suc_right)
  then show ?thesis by (simp add: l f data_def add.assoc)
qed

lemma header_loop_violated [simp]: "p_violation st \<Longrightarrow> header_loop data h10 pos st = (pos, st, False)"
  by (subst header_loop.simps) simp

lemma header_loop_fields:
  assumes "list_all field_ok fs" "\<not> p_violation (read_fields h10 (length pre) fs st)"
  shows "header_loop (pre @ field_text fs @ CRLF @ rest) h10 (length pre) st =
    (length pre + length (field_text fs), read_fields h10 (length pre) fs st, True)"
  using assms
proof (induction fs arbitrary: pre st)
  case Nil
  then show ?case by (subst header_loop.simps) (simp add: nth_append get_def)
next
  case (Cons f fs)
  then have st: "\<not> p_violation st" by (cases "p_violation st") auto
  have "header_loop (pre @ line_bytes f @ (field_text fs @ CRLF @ rest)) h10 (length pre) st =
    header_loop ((pre @ line_bytes f) @ field_text fs @ CRLF @ rest) h10 (length (pre @ line_bytes f))
      (header_line h10 (fst f) (snd f) (length pre) (length pre + length (line_bytes f)) st)"
    using Cons.prems st by (subst header_loop_line) auto
  also have "\<dots> = (length (pre @ line_bytes f) + length (field_text fs), read_fields h10 (length (pre @ line_bytes f)) fs
      (header_line h10 (fst f) (snd f) (length pre) (length pre + length (line_bytes f)) st), True)"
    using Cons.prems st by (intro Cons.IH) auto
  finally show ?case using st by (simp add: add.assoc)
qed

lemma header_loop_fieldsD:
  assumes "header_loop data h10 pos st = (pos', st', True)" "\<not> p_violation st'" "pos \<le> length data"
  shows "\<exists>fs rest. list_all field_ok fs \<and> drop pos data = field_text fs @ CRLF @ rest"
  using assms
proof (induction data h10 pos st rule: header_loop.induct)
  case (1 data h10 pos st)
  note [simp del] = get_Some_iff
  have st: "\<not> p_violation st" and lt: "pos < length data"
    using "1.prems" by (auto simp: header_loop.simps [of _ _ _ st] split: if_splits)
  show ?case
  proof (cases "data ! pos = CHR 0x0D")
    case True
    then have "get data (pos + 1) = Some (CHR 0x0A)"
      using "1.prems" st lt by (auto simp: header_loop.simps [of _ _ _ st])
    then have "drop pos data = CRLF @ drop (pos + 2) data"
      using True lt get_drop [of data "Suc pos"] by (simp add: Cons_nth_drop_Suc [symmetric])
    then show ?thesis by (intro exI [of _ "[]"] exI [of _ "drop (pos + 2) data"]) simp
  next
    case False
    define ne where "ne = scan_bytes data pos TCHAR"
    define ve where "ve = scan data (Suc ne) VALUE 0x20 VALUE_HOLES"
    have ok: "ne \<noteq> pos" "get data ne = Some (CHR '':'')" "get data ve = Some (CHR 0x0D)"
        "get data (Suc ve) = Some (CHR 0x0A)"
      using "1.prems" st lt False
      by (auto simp: header_loop.simps [of _ _ _ st] Let_def ne_def [symmetric] ve_def [symmetric] split: if_splits)
    have n: "drop pos data = subslice pos ne data @ drop ne data" "\<forall>b \<in> set (subslice pos ne data). is_class b TCHAR"
        "pos \<le> ne" "ne < length data"
      using scan_bytes_split [of data pos TCHAR ne] lt ok(2) by (auto simp: ne_def get_Some_iff)
    have v: "drop (Suc ne) data = subslice (Suc ne) ve data @ drop ve data"
        "\<forall>b \<in> set (subslice (Suc ne) ve data). is_class b VALUE"
      using scan_bytes_split [of data "Suc ne" VALUE ve] n by (auto simp: ve_def scan_value_bytes)
    let ?f = "(subslice pos ne data, subslice (Suc ne) ve data)"
    have f: "field_ok ?f"
      using n(2,3) v(2) ok(1) n(4) by (auto simp: field_ok_def is_token_def subslice_def)
    have cut: "drop pos data = line_bytes ?f @ drop (ve + 2) data"
      using n(1) v(1) get_drop [OF ok(2)] get_drop [OF ok(3)] get_drop [OF ok(4)]
      by (simp add: line_bytes_def)
    have "ve + 2 \<le> length data" using ok(4) by (simp add: get_Some_iff)
    moreover have "header_loop data h10 (ve + 2) (header_line h10 (fst ?f) (snd ?f) pos (ve + 2) st) = (pos', st', True)"
      using "1.prems" st lt False ok
      by (simp add: header_loop.simps [of _ _ _ st] Let_def ne_def [symmetric] ve_def [symmetric])
    ultimately obtain fs rest where "list_all field_ok fs" "drop (ve + 2) data = field_text fs @ CRLF @ rest"
      using "1.IH" [of ne "Suc ne" ve] "1.prems"(2) st lt False ok
      by (auto simp: ne_def [symmetric] ve_def [symmetric] simp del: Suc_eq_plus1 add_2_eq_Suc')
    then show ?thesis using f cut by (intro exI [of _ "?f # fs"] exI [of _ rest]) simp
  qed
qed

section \<open>What the lines say\<close>

lemma or_0x20_lowercase: "is_ascii_lowercase c \<Longrightarrow> or_0x20 c = c"
  by (cases c) (auto simp: is_ascii_lowercase_def of_bool_def split: if_splits)

lemma arm_iff [simp]:
  assumes "n = length s" "s \<noteq> []" "hd s = c" "is_ascii_lowercase c"
  shows "arm name n c s \<longleftrightarrow> eq_ignore_ascii_case name s"
proof
  assume eq: "eq_ignore_ascii_case name s"
  obtain t where s: "s = c # t" using assms by (cases s) auto
  with eq obtain b r where name: "name = b # r" and "u8_to_ascii_lowercase b = u8_to_ascii_lowercase c"
    by (cases name) (auto simp: eq_ignore_ascii_case_def)
  then have "u8_to_ascii_lowercase b = c"
    using assms(4) by (auto simp: u8_to_ascii_lowercase_def is_ascii_lowercase_def is_ascii_uppercase_def split: if_splits)
  then have "or_0x20 b = c"
    using assms(4) by (auto simp: u8_to_ascii_lowercase_def or_0x20_lowercase split: if_splits)
  then show "arm name n c s" using eq assms eq_ignore_ascii_case_length [OF eq] by (simp add: arm_def name)
qed (simp add: arm_def)

lemma lowercase_letters [simp]:
  "is_ascii_lowercase (CHR ''c'')" "is_ascii_lowercase (CHR ''e'')" "is_ascii_lowercase (CHR ''f'')"
  "is_ascii_lowercase (CHR ''h'')" "is_ascii_lowercase (CHR ''k'')" "is_ascii_lowercase (CHR ''p'')"
  "is_ascii_lowercase (CHR ''t'')" "is_ascii_lowercase (CHR ''u'')" "is_ascii_lowercase (CHR ''x'')"
  by (simp_all add: is_ascii_lowercase_def)

definition field_values :: "bytes \<Rightarrow> (bytes \<times> bytes) list \<Rightarrow> bytes list" where
  "field_values n fs = map snd (filter (\<lambda>f. eq_ignore_ascii_case (fst f) n) fs)"

definition at_most_one :: "('a \<Rightarrow> bool) \<Rightarrow> 'a list \<Rightarrow> bool" where
  "at_most_one P xs \<longleftrightarrow> (case xs of [] \<Rightarrow> True | [x] \<Rightarrow> P x | _ \<Rightarrow> False)"

definition framing_token :: "bytes \<Rightarrow> bool" where
  "framing_token t \<longleftrightarrow> eq_ignore_ascii_case (trim_ows t) ''content-length'' \<or>
     eq_ignore_ascii_case (trim_ows t) ''transfer-encoding'' \<or> eq_ignore_ascii_case (trim_ows t) ''host''"

text \<open>The lines a head may carry, and what they say of the host and of the body.\<close>

definition lines_ok :: "bool \<Rightarrow> (bytes \<times> bytes) list \<Rightarrow> bool" where
  "lines_ok h10 fs \<longleftrightarrow>
     at_most_one (\<lambda>v. split_host (trim_ows v) \<noteq> None) (field_values ''host'' fs) \<and>
     at_most_one (\<lambda>v. parse_digits (trim_ows v) \<noteq> None) (field_values ''content-length'' fs) \<and>
     at_most_one (\<lambda>v. \<not> h10 \<and> eq_ignore_ascii_case (trim_ows v) ''chunked'') (field_values ''transfer-encoding'' fs) \<and>
     (\<forall>v \<in> set (field_values ''connection'' fs). \<forall>t \<in> set (split_on (CHR '','') v). \<not> framing_token t)"

definition host_of :: "(bytes \<times> bytes) list \<Rightarrow> bytes option" where
  "host_of fs = (case field_values ''host'' fs of [] \<Rightarrow> None
     | v # _ \<Rightarrow> map_option (\<lambda>h. take h (trim_ows v)) (split_host (trim_ows v)))"

definition length_of :: "(bytes \<times> bytes) list \<Rightarrow> nat option" where
  "length_of fs = (case field_values ''content-length'' fs of [] \<Rightarrow> None | v # _ \<Rightarrow> parse_digits (trim_ows v))"

lemma field_values_snoc:
  "field_values n (fs @ [f]) = field_values n fs @ (if eq_ignore_ascii_case (fst f) n then [snd f] else [])"
  by (simp add: field_values_def)

lemma at_most_one_snoc: "at_most_one P (xs @ [x]) \<longleftrightarrow> xs = [] \<and> P x"
  by (cases xs; cases "tl xs") (auto simp: at_most_one_def)

lemma connection_tokens:
  "p_host (fold connection_token ts st) = p_host st"
  "p_content_length (fold connection_token ts st) = p_content_length st"
  "p_chunked (fold connection_token ts st) = p_chunked st"
  "spans (p_spans (fold connection_token ts st)) = spans (p_spans st)"
  "p_upgrade_span (fold connection_token ts st) = p_upgrade_span st"
  "p_has_upgrade (fold connection_token ts st) = p_has_upgrade st"
  "needs_slow_path (p_spans st) \<Longrightarrow> needs_slow_path (p_spans (fold connection_token ts st))"
  by (induction ts arbitrary: st) (simp_all add: connection_token_def set_slow_path_def Let_def)

lemma not_uppercase_ord [simp]:
  "90 < ord8 c \<Longrightarrow> \<not> is_ascii_uppercase c" "ord8 c < 65 \<Longrightarrow> \<not> is_ascii_uppercase c"
  by (simp_all add: is_ascii_uppercase_def)

lemma framing_token_other:
  assumes "framing_token t"
  shows "\<not> eq_ignore_ascii_case (trim_ows t) ''close''" "\<not> eq_ignore_ascii_case (trim_ows t) ''keep-alive''"
    "\<not> eq_ignore_ascii_case (trim_ows t) ''upgrade''"
  using assms by (auto simp: framing_token_def eq_ignore_ascii_case_def)

lemma connection_token_violation: "p_violation (connection_token t st) \<longleftrightarrow> p_violation st \<or> framing_token t"
proof (cases "framing_token t")
  case True
  then show ?thesis using framing_token_other [OF True]
    by (simp add: connection_token_def Let_def framing_token_def)
qed (auto simp: connection_token_def Let_def framing_token_def set_slow_path_def)

lemma connection_violation:
  "p_violation (fold connection_token ts st) \<longleftrightarrow> p_violation st \<or> (\<exists>t \<in> set ts. framing_token t)"
  by (induction ts arbitrary: st) (auto simp: connection_token_violation)

definition on_host :: "bytes \<Rightarrow> parse_state \<Rightarrow> parse_state" where
  "on_host value st =
     (case split_host (trim_ows value) of
        Some h \<Rightarrow> if p_host st = None then st\<lparr>p_host := Some (take h (trim_ows value))\<rparr> else st\<lparr>p_violation := True\<rparr>
      | None \<Rightarrow> st\<lparr>p_violation := True\<rparr>)"

definition on_length :: "bytes \<Rightarrow> parse_state \<Rightarrow> parse_state" where
  "on_length value st =
     (case parse_digits (trim_ows value) of
        Some n \<Rightarrow> if p_content_length st = None then st\<lparr>p_content_length := Some n\<rparr> else st\<lparr>p_violation := True\<rparr>
      | None \<Rightarrow> st\<lparr>p_violation := True\<rparr>)"

definition on_coding :: "bool \<Rightarrow> bytes \<Rightarrow> parse_state \<Rightarrow> parse_state" where
  "on_coding h10 value st =
     (if h10 \<or> p_chunked st \<or> \<not> eq_ignore_ascii_case (trim_ows value) ''chunked''
      then st\<lparr>p_violation := True\<rparr> else st\<lparr>p_chunked := True\<rparr>)"

definition same_core :: "parse_state \<Rightarrow> parse_state \<Rightarrow> bool" where
  "same_core a b \<longleftrightarrow> p_violation a = p_violation b \<and> p_host a = p_host b \<and>
     p_content_length a = p_content_length b \<and> p_chunked a = p_chunked b"

lemma header_line_cases:
  assumes "\<not> p_violation st"
  shows "same_core (header_line h10 name value s e st)
    (if eq_ignore_ascii_case name ''host'' then on_host value st
     else if eq_ignore_ascii_case name ''content-length'' then on_length value st
     else if eq_ignore_ascii_case name ''transfer-encoding'' then on_coding h10 value st
     else if eq_ignore_ascii_case name ''connection'' \<and> (\<exists>t \<in> set (split_on (CHR '','') value). framing_token t)
       then st\<lparr>p_violation := True\<rparr>
     else st)"
proof -
  consider "to_ascii_lowercase name = ''host''" | "to_ascii_lowercase name = ''content-length''"
    | "to_ascii_lowercase name = ''transfer-encoding''" | "to_ascii_lowercase name = ''connection''"
    | "to_ascii_lowercase name = ''upgrade''"
    | "to_ascii_lowercase name \<notin> {''host'', ''content-length'', ''transfer-encoding'', ''connection'', ''upgrade''}"
    by blast
  then show ?thesis
    using assms
    by cases (auto simp: header_line_def header_field_def eq_ignore_ascii_case_def same_core_def on_host_def on_length_def
        on_coding_def connection_violation connection_tokens Let_def set_slow_path_def split: option.split)
qed

lemma host_of_None:
  "at_most_one (\<lambda>v. split_host (trim_ows v) \<noteq> None) (field_values ''host'' fs) \<Longrightarrow>
     host_of fs = None \<longleftrightarrow> field_values ''host'' fs = []"
  by (cases "field_values ''host'' fs"; cases "tl (field_values ''host'' fs)") (auto simp: host_of_def at_most_one_def)

lemma length_of_None:
  "at_most_one (\<lambda>v. parse_digits (trim_ows v) \<noteq> None) (field_values ''content-length'' fs) \<Longrightarrow>
     length_of fs = None \<longleftrightarrow> field_values ''content-length'' fs = []"
  by (cases "field_values ''content-length'' fs"; cases "tl (field_values ''content-length'' fs)")
    (auto simp: length_of_def at_most_one_def)

definition core_of :: "bool \<Rightarrow> (bytes \<times> bytes) list \<Rightarrow> parse_state \<Rightarrow> bool" where
  "core_of h10 fs st \<longleftrightarrow> (\<not> p_violation st \<longleftrightarrow> lines_ok h10 fs) \<and>
     (lines_ok h10 fs \<longrightarrow> p_host st = host_of fs \<and> p_content_length st = length_of fs \<and>
        (p_chunked st \<longleftrightarrow> field_values ''transfer-encoding'' fs \<noteq> []))"

lemma core_of_cong: "same_core a b \<Longrightarrow> core_of h10 fs a = core_of h10 fs b"
  by (simp add: core_of_def same_core_def)

lemma lines_ok_snocD: "lines_ok h10 (fs @ [f]) \<Longrightarrow> lines_ok h10 fs"
  by (auto simp: lines_ok_def field_values_snoc at_most_one_snoc split: if_splits) (auto simp: at_most_one_def)

lemma core_of_snoc:
  assumes core: "core_of h10 fs st" and ok: "\<not> p_violation st"
  shows "core_of h10 (fs @ [(name, value)])
    (if eq_ignore_ascii_case name ''host'' then on_host value st
     else if eq_ignore_ascii_case name ''content-length'' then on_length value st
     else if eq_ignore_ascii_case name ''transfer-encoding'' then on_coding h10 value st
     else if eq_ignore_ascii_case name ''connection'' \<and> (\<exists>t \<in> set (split_on (CHR '','') value). framing_token t)
       then st\<lparr>p_violation := True\<rparr>
     else st)"
proof -
  have l: "lines_ok h10 fs" using core ok by (simp add: core_of_def)
  have fs: "p_host st = host_of fs" "p_content_length st = length_of fs"
      "p_chunked st \<longleftrightarrow> field_values ''transfer-encoding'' fs \<noteq> []"
    using core l by (simp_all add: core_of_def)
  have N: "host_of fs = None \<longleftrightarrow> field_values ''host'' fs = []"
      "length_of fs = None \<longleftrightarrow> field_values ''content-length'' fs = []"
    using l host_of_None length_of_None by (simp_all add: lines_ok_def)
  note defs = core_of_def lines_ok_def field_values_snoc at_most_one_snoc host_of_def length_of_def
  consider "to_ascii_lowercase name = ''host''" | "to_ascii_lowercase name = ''content-length''"
    | "to_ascii_lowercase name = ''transfer-encoding''" | "to_ascii_lowercase name = ''connection''"
    | "to_ascii_lowercase name \<notin> {''host'', ''content-length'', ''transfer-encoding'', ''connection''}"
    by blast
  then show ?thesis
    using l ok fs N
    by cases (auto simp: eq_ignore_ascii_case_def defs on_host_def on_length_def on_coding_def split: option.split)
qed

lemma read_fields_core: "core_of h10 fs (read_fields h10 pos fs (parse_start False))"
proof (induction fs rule: rev_induct)
  case Nil
  then show ?case
    by (simp add: core_of_def lines_ok_def parse_start_def field_values_def at_most_one_def host_of_def length_of_def)
next
  case (snoc f fs)
  let ?st = "read_fields h10 pos fs (parse_start False)"
  show ?case
  proof (cases "p_violation ?st")
    case True
    then have "\<not> lines_ok h10 (fs @ [f])" using snoc.IH lines_ok_snocD [of h10 fs f] by (simp add: core_of_def) blast
    then show ?thesis using True by (simp add: read_fields_snoc Let_def core_of_def)
  next
    case False
    then show ?thesis
      using core_of_snoc [OF snoc.IH False] core_of_cong [OF header_line_cases [OF False]]
      by (cases f) (simp add: read_fields_snoc Let_def)
  qed
qed

section \<open>The request line\<close>

definition target_byte :: "char \<Rightarrow> bool" where
  "target_byte b \<longleftrightarrow> is_class b TARGET \<or> b = CHR 0x5C"

definition target_ok :: "bytes \<Rightarrow> bool" where
  "target_ok t \<longleftrightarrow> t \<noteq> [] \<and> (\<forall>b \<in> set t. target_byte b) \<and> CHR 0x5C \<notin> set (takeWhile (\<lambda>b. b \<noteq> CHR ''?'') t)"

lemma query_backslashes_eq:
  "e \<le> length data \<Longrightarrow> query_backslashes data e =
     (if get data e = Some (CHR 0x5C) then e + length (takeWhile target_byte (drop e data)) else e)"
proof (induction data e rule: query_backslashes.induct)
  case (1 data e)
  show ?case
  proof (cases "get data e = Some (CHR 0x5C)")
    case True
    define e' where "e' = scan_bytes data (Suc e) TARGET"
    have le: "Suc e \<le> length data" using True by simp
    have e': "e' = Suc e + length (takeWhile (\<lambda>b. is_class b TARGET) (drop (Suc e) data))" "e' \<le> length data"
      using scan_bytes_takeWhile [OF le] scan_bytes_le [OF le] by (auto simp: e'_def)
    have w: "takeWhile target_byte (drop (Suc e) data) = takeWhile (\<lambda>b. is_class b TARGET) (drop (Suc e) data)
        @ takeWhile target_byte (drop e' data)"
      using takeWhile_weaken [of "\<lambda>b. is_class b TARGET" target_byte "drop (Suc e) data"]
      by (simp add: e' target_byte_def dropWhile_eq_drop add.commute)
    have "takeWhile target_byte (drop e' data) = []" if n: "get data e' \<noteq> Some (CHR 0x5C)"
    proof (cases "drop e' data")
      case (Cons c r)
      then have "e' < length data" "data ! e' = c" by (auto simp: nth_via_drop intro: ccontr)
      moreover have "\<not> is_class (data ! e') TARGET"
        using nth_length_takeWhile [of "\<lambda>b. is_class b TARGET" "drop (Suc e) data"] \<open>e' < length data\<close> e'(1) by simp
      ultimately show ?thesis using n Cons by (auto simp: target_byte_def get_def)
    qed simp
    moreover have "query_backslashes data e' =
        (if get data e' = Some (CHR 0x5C) then e' + length (takeWhile target_byte (drop e' data)) else e')"
      using "1.IH" [OF True] e'(2) by (simp add: e'_def scan_target_bytes)
    ultimately have "query_backslashes data e' = e' + length (takeWhile target_byte (drop e' data))" by auto
    moreover have "query_backslashes data e = query_backslashes data e'"
      using True by (simp add: query_backslashes.simps [of _ e] e'_def scan_target_bytes)
    ultimately show ?thesis
      using True get_drop [OF True] by (simp add: w e'(1) target_byte_def del: get_Some_iff)
  next
    case False
    then show ?thesis by (simp only: query_backslashes.simps [of data e] if_False)
  qed
qed

lemma target_scan_eq:
  assumes "s \<le> length data"
  shows "target_scan data s = s + length
    (if CHR ''?'' \<in> set (takeWhile (\<lambda>b. is_class b TARGET) (drop s data))
     then takeWhile target_byte (drop s data) else takeWhile (\<lambda>b. is_class b TARGET) (drop s data))"
proof -
  define e where "e = scan_bytes data s TARGET"
  define a where "a = takeWhile (\<lambda>b. is_class b TARGET) (drop s data)"
  have e: "e = s + length a" "e \<le> length data"
    using scan_bytes_takeWhile [OF assms] scan_bytes_le [OF assms] by (auto simp: e_def a_def)
  have w: "takeWhile target_byte (drop s data) = a @ takeWhile target_byte (drop e data)"
    using takeWhile_weaken [of "\<lambda>b. is_class b TARGET" target_byte "drop s data"]
    by (simp add: e a_def target_byte_def dropWhile_eq_drop add.commute)
  have sub: "subslice s e data = a"
    by (simp add: subslice_def e a_def takeWhile_eq_take [symmetric])
  have "takeWhile target_byte (drop e data) = []" if n: "get data e \<noteq> Some (CHR 0x5C)"
  proof (cases "drop e data")
    case (Cons c r)
    then have "e < length data" "data ! e = c" by (auto simp: nth_via_drop intro: ccontr)
    moreover have "\<not> is_class (data ! e) TARGET"
      using nth_length_takeWhile [of "\<lambda>b. is_class b TARGET" "drop s data"] \<open>e < length data\<close> e(1) by (simp add: a_def)
    ultimately show ?thesis using n Cons by (auto simp: target_byte_def get_def)
  qed simp
  then show ?thesis
    unfolding a_def [symmetric] w
    by (simp add: target_scan_def scan_target_bytes e_def [symmetric] past_query_backslashes_def sub
        query_backslashes_eq [OF e(2)] memchr_def position_None_iff e(1) [symmetric] Bex_def del: get_Some_iff)
qed

lemma space_not_target [simp]: "\<not> target_byte (CHR '' '')"
  by (simp add: target_byte_def)

lemma target_byte_class: "is_class b TARGET \<Longrightarrow> target_byte b"
  by (simp add: target_byte_def)

lemma target_scan_ok:
  assumes "target_ok t"
  shows "target_scan (pre @ t @ CHR '' '' # rest) (length pre) = length pre + length t"
proof (cases "CHR ''?'' \<in> set t")
  case True
  then obtain p q where t: "t = p @ CHR ''?'' # q" "CHR ''?'' \<notin> set p" by (meson split_list_first)
  have "takeWhile (\<lambda>b. b \<noteq> CHR ''?'') t = p" unfolding t(1) using t(2) by (intro takeWhile_stop) auto
  then have "\<forall>b \<in> set p. is_class b TARGET"
    using assms t by (auto simp: target_ok_def target_byte_def)
  then have "CHR ''?'' \<in> set (takeWhile (\<lambda>b. is_class b TARGET) (t @ CHR '' '' # rest))"
    by (simp add: t takeWhile_append2)
  moreover have "takeWhile target_byte (t @ CHR '' '' # rest) = t"
    using assms by (intro takeWhile_stop) (auto simp: target_ok_def)
  ultimately show ?thesis by (subst target_scan_eq) simp_all
next
  case False
  then have all: "takeWhile (\<lambda>b. b \<noteq> CHR ''?'') t = t" by (subst takeWhile_eq_all_conv) auto
  have "CHR 0x5C \<notin> set t" using assms unfolding target_ok_def all by blast
  then have T: "\<forall>b \<in> set t. is_class b TARGET" using assms unfolding target_ok_def target_byte_def by blast
  have "takeWhile (\<lambda>b. is_class b TARGET) (t @ CHR '' '' # rest) = t"
    by (rule takeWhile_stop [OF T]) simp
  then show ?thesis using False by (subst target_scan_eq) simp_all
qed

lemma target_scan_okD:
  assumes "e = target_scan data s" "s \<le> length data" "e \<noteq> s"
  shows "target_ok (subslice s e data)" "drop s data = subslice s e data @ drop e data"
proof -
  define a where "a = takeWhile (\<lambda>b. is_class b TARGET) (drop s data)"
  define t where "t = (if CHR ''?'' \<in> set a then takeWhile target_byte (drop s data) else a)"
  have e: "e = s + length t" using target_scan_eq [OF assms(2)] assms(1) by (simp add: t_def a_def)
  define r where "r = (if CHR ''?'' \<in> set a then dropWhile target_byte (drop s data)
    else dropWhile (\<lambda>b. is_class b TARGET) (drop s data))"
  have r: "drop s data = t @ r" by (simp add: t_def r_def) (simp add: a_def)
  have sub: "subslice s e data = t" by (simp add: subslice_def e r)
  have "drop e data = drop (length t) (drop s data)" by (simp add: e add.commute)
  then show "drop s data = subslice s e data @ drop e data" by (simp add: sub r)
  have aT: "is_class b TARGET" if "b \<in> set a" for b using that unfolding a_def by (rule set_takeWhileD [THEN conjunct2])
  have tb: "target_byte b" if "b \<in> set t" for b
    using that aT target_byte_class set_takeWhileD [of b target_byte "drop s data"] by (cases "CHR ''?'' \<in> set a") (auto simp: t_def)
  have "takeWhile (\<lambda>b. b \<noteq> CHR ''?'') t = takeWhile (\<lambda>b. b \<noteq> CHR ''?'') a"
  proof (cases "CHR ''?'' \<in> set a")
    case True
    obtain q where "takeWhile target_byte (drop s data) = a @ q"
      using takeWhile_weaken [of "\<lambda>b. is_class b TARGET" target_byte "drop s data"] target_byte_class a_def by metis
    then show ?thesis using True takeWhile_append1 [of "CHR ''?''" a "\<lambda>b. b \<noteq> CHR ''?''" q] by (simp add: t_def)
  qed (simp add: t_def)
  then have "CHR 0x5C \<notin> set (takeWhile (\<lambda>b. b \<noteq> CHR ''?'') t)"
    using aT [of "CHR 0x5C"] set_takeWhileD [of "CHR 0x5C" "\<lambda>b. b \<noteq> CHR ''?''" a] by auto
  moreover have "t \<noteq> []" using assms(3) e by auto
  ultimately show "target_ok (subslice s e data)" unfolding sub target_ok_def using tb by blast
qed

definition version_text :: "bool \<Rightarrow> bytes" where
  "version_text h10 = (if h10 then '' HTTP/1.0'' else '' HTTP/1.1'') @ CRLF"

definition request_line :: "bytes \<Rightarrow> bytes \<Rightarrow> bool \<Rightarrow> bytes" where
  "request_line m t h10 = m @ CHR '' '' # t @ version_text h10"

definition request_line_ok :: "bytes \<Rightarrow> bytes \<Rightarrow> bool" where
  "request_line_ok m t \<longleftrightarrow> is_token m \<and> target_ok t \<and> is_utf8 (m @ CHR '' '' # t)"

lemma version_text_length [simp]: "length (version_text h10) = 11"
  by (simp add: version_text_def)

lemma extract_line:
  assumes ok: "request_line_ok m t"
  shows "extract_routing_info (request_line m t h10 @ r) =
    (case parse_target m t of (v, th, path) \<Rightarrow>
       finish_request m h10 th path (request_line m t h10 @ r) (length (request_line m t h10))
         (header_loop (request_line m t h10 @ r) h10 (length (request_line m t h10)) (parse_start v)))"
proof -
  define data where "data = request_line m t h10 @ r"
  obtain w where w: "version_text h10 @ r = CHR '' '' # w" by (cases h10) (auto simp: version_text_def)
  have d1: "data = [] @ m @ CHR '' '' # (t @ version_text h10 @ r)" by (simp add: data_def request_line_def)
  have d2: "data = (m @ [CHR '' '']) @ t @ CHR '' '' # w" by (simp add: d1 w)
  have me: "scan_bytes data 0 TCHAR = length m"
    using ok scan_bytes_run [of m TCHAR "CHR '' ''" "[]"] by (simp add: d1 request_line_ok_def is_token_def)
  have te: "target_scan data (Suc (length m)) = Suc (length m + length t)"
    using target_scan_ok [of t "m @ [CHR '' '']" w] ok by (simp add: d2 request_line_ok_def)
  have g: "get data (length m) = Some (CHR '' '')" "get data (Suc (length m + length t)) = Some (CHR '' '')"
    unfolding d2 by (simp_all add: nth_append)
  have ver: "http_version data (Suc (length m + length t)) = Some h10"
    by (cases h10) (simp_all add: http_version_def subslice_def d1 version_text_def)
  have s: "take (Suc (length m + length t)) data = m @ CHR '' '' # t" "take (length m) data = m"
      "subslice (Suc (length m)) (Suc (length m + length t)) data = t"
    by (simp_all add: d2 subslice_def)
  have l: "length (request_line m t h10) = Suc (length m + length t) + 11"
    by (simp add: request_line_def)
  have ne: "m \<noteq> []" "t \<noteq> []" "is_utf8 (m @ CHR '' '' # t)"
    using ok by (auto simp: request_line_ok_def is_token_def target_ok_def)
  show ?thesis
    unfolding data_def [symmetric] l
    using ne g by (simp add: extract_routing_info_def Let_def me te ver s del: get_Some_iff)
qed

lemma extract_lineD:
  assumes "extract_routing_info data = Inr i"
  shows "\<exists>m t h10 r. request_line_ok m t \<and> data = request_line m t h10 @ r"
proof -
  define me where "me = scan_bytes data 0 TCHAR"
  define te where "te = target_scan data (Suc me)"
  have me: "me \<noteq> 0" "get data me = Some (CHR '' '')"
    and te: "te \<noteq> Suc me" "get data te = Some (CHR '' '')"
    and ver: "http_version data te \<noteq> None" and u: "is_utf8 (take te data)"
    using assms
    by (auto simp: extract_routing_info_def Let_def me_def [symmetric] te_def [symmetric] simp del: get_Some_iff
        split: if_splits option.splits)
  obtain h10 where h10: "http_version data te = Some h10" using ver by auto
  have m: "data = subslice 0 me data @ drop me data" "\<forall>b \<in> set (subslice 0 me data). is_class b TCHAR"
    using scan_bytes_split [of data 0 TCHAR me] by (auto simp: me_def)
  have lt: "Suc me \<le> length data" using me(2) by simp
  note t = target_scan_okD [OF te_def lt te(1)]
  have "subslice (te + 1) (te + 11) data = tl (version_text h10)"
    using h10 by (auto simp: http_version_def version_text_def split: if_splits)
  then have "drop (Suc te) data = tl (version_text h10) @ drop (te + 11) data"
    by (auto simp: subslice_def) (metis append_take_drop_id drop_drop add.commute add_Suc_right numeral_eq_Suc pred_numeral_simps(2,3) plus_1_eq_Suc numeral_plus_one semiring_norm(5))
  then have v: "drop te data = version_text h10 @ drop (te + 11) data"
    using get_drop [OF te(2)] by (cases h10) (simp_all add: version_text_def)
  let ?m = "subslice 0 me data" and ?t = "subslice (Suc me) te data"
  have d: "data = request_line ?m ?t h10 @ drop (te + 11) data"
    using m(1) get_drop [OF me(2)] t(2) v by (simp add: request_line_def)
  have "is_token ?m" using m(2) me lt by (auto simp: is_token_def subslice_def)
  moreover have "take te data = ?m @ CHR '' '' # ?t"
  proof -
    have "length (?m @ CHR '' '' # ?t) = te"
      using te(2) lt target_scan_eq [OF lt] by (simp add: length_subslice te_def [symmetric])
    then show ?thesis using d by (metis append.assoc append_Cons append_eq_conv_conj request_line_def)
  qed
  ultimately show ?thesis
    using d t(1) u unfolding request_line_ok_def by metis
qed

section \<open>Hosts, lengths and targets\<close>

text \<open>An authority: a DNS-alphabet name or a bracketed address, and perhaps a port.\<close>

definition host_form :: "bytes \<Rightarrow> bool" where
  "host_form h \<longleftrightarrow> (\<forall>b \<in> set h. is_class b HOST) \<or>
     (\<exists>a. h = CHR ''['' # a @ [CHR '']''] \<and> a \<noteq> [] \<and> (\<forall>b \<in> set a. is_ip_literal_byte b))"

definition port_form :: "bytes \<Rightarrow> bool" where
  "port_form p \<longleftrightarrow> p = [] \<or> (\<exists>d. p = CHR '':'' # d \<and> (\<forall>b \<in> set d. is_ascii_digit b))"

lemma span_from_run:
  assumes "\<forall>b \<in> set run. P b" "rest = [] \<or> \<not> P (hd rest)"
  shows "span_from P (pre @ run @ rest) (length pre) = length pre + length run"
proof -
  have "takeWhile P (run @ rest) = run" using assms by (cases rest) (auto simp: takeWhile_append2)
  then show ?thesis by (simp add: span_from_def)
qed

lemma span_from_split:
  assumes "i \<le> length v"
  shows "drop i v = subslice i (span_from P v i) v @ drop (span_from P v i) v"
    "\<forall>b \<in> set (subslice i (span_from P v i) v). P b" "i \<le> span_from P v i" "span_from P v i \<le> length v"
proof -
  have s: "subslice i (span_from P v i) v = takeWhile P (drop i v)"
    by (simp add: subslice_def span_from_def takeWhile_eq_take [symmetric])
  have "drop (span_from P v i) v = dropWhile P (drop i v)"
    by (simp add: span_from_def dropWhile_eq_drop add.commute)
  then show "drop i v = subslice i (span_from P v i) v @ drop (span_from P v i) v" by (simp add: s)
  show "\<forall>b \<in> set (subslice i (span_from P v i) v). P b" unfolding s by (auto dest: set_takeWhileD)
  show "i \<le> span_from P v i" by (simp add: span_from_def)
  show "span_from P v i \<le> length v"
    using length_takeWhile_le [of P "drop i v"] assms by (simp add: span_from_def)
qed

lemma host_marks [simp]:
  "\<not> is_class (CHR ''['') HOST" "\<not> is_class (CHR '':'') HOST" "\<not> is_ip_literal_byte (CHR '']'')"
  "\<not> is_class (CHR ''/'') HOST" "\<not> is_ip_literal_byte (CHR ''/'')" "\<not> is_ascii_digit (CHR ''/'')"
  by (simp_all add: is_HOST any_of_def ascii_defs is_ip_literal_byte_def)

lemma port_form_iff:
  "port_form (drop e v) \<longleftrightarrow> (e < length v \<longrightarrow> v ! e = CHR '':'' \<and> \<not> span_from is_ascii_digit v (e + 1) < length v)"
proof (cases "e < length v")
  case True
  then have d: "drop e v = v ! e # drop (Suc e) v" by (simp add: Cons_nth_drop_Suc)
  have "(\<forall>b \<in> set (drop (Suc e) v). is_ascii_digit b) \<longleftrightarrow> \<not> span_from is_ascii_digit v (e + 1) < length v"
  proof
    assume "\<forall>b \<in> set (drop (Suc e) v). is_ascii_digit b"
    then have "takeWhile is_ascii_digit (drop (Suc e) v) = drop (Suc e) v" by (subst takeWhile_eq_all_conv) auto
    then have "length (takeWhile is_ascii_digit (drop (Suc e) v)) = length v - Suc e" by (metis length_drop)
    then show "\<not> span_from is_ascii_digit v (e + 1) < length v" using True by (simp add: span_from_def)
  next
    assume "\<not> span_from is_ascii_digit v (e + 1) < length v"
    then have "drop (span_from is_ascii_digit v (Suc e)) v = []" by simp
    then show "\<forall>b \<in> set (drop (Suc e) v). is_ascii_digit b"
      using span_from_split [of "Suc e" v is_ascii_digit] True by auto
  qed
  then show ?thesis using True by (auto simp: port_form_def d)
qed (simp add: port_form_def)

lemma split_host_ip:
  assumes "get v 0 = Some (CHR ''['')"
  shows "split_host v = Some n \<longleftrightarrow> n \<le> length v \<and> host_form (take n v) \<and> port_form (drop n v)"
proof -
  obtain w where v: "v = CHR ''['' # w" using assms by (cases v) (auto simp: get_def)
  define i where "i = span_from is_ip_literal_byte v 1"
  note s = span_from_split [of 1 v is_ip_literal_byte, folded i_def]
  have "split_host v = Some n \<longleftrightarrow> i \<noteq> 1 \<and> get v i = Some (CHR '']'') \<and> n = i + 1 \<and> port_form (drop n v)"
    using assms unfolding split_host_def Let_def i_def [symmetric] port_form_iff by (auto simp del: get_Some_iff)
  also have "\<dots> \<longleftrightarrow> n \<le> length v \<and> host_form (take n v) \<and> port_form (drop n v)"
  proof (rule iffI; elim conjE)
    assume a: "i \<noteq> 1" "get v i = Some (CHR '']'')" "n = i + 1" "port_form (drop n v)"
    have c: "drop 1 v = subslice 1 i v @ CHR '']'' # drop (Suc i) v" using s(1) get_drop [OF a(2)] v by simp
    have l: "i = Suc (length (subslice 1 i v))" using a(2) s(3) v by (simp add: length_subslice)
    have "take n v = CHR ''['' # take i (drop 1 v)" by (simp add: v a(3))
    also have "take i (drop 1 v) = subslice 1 i v @ [CHR '']'']" unfolding c by (subst l) simp
    finally have "take n v = CHR ''['' # subslice 1 i v @ [CHR '']'']" .
    moreover have "subslice 1 i v \<noteq> []" using l a(1) by auto
    ultimately show "n \<le> length v \<and> host_form (take n v) \<and> port_form (drop n v)"
      using a s(2) v unfolding host_form_def by auto
  next
    assume a: "n \<le> length v" "host_form (take n v)" "port_form (drop n v)"
    have "n \<noteq> 0" using a(3) v by (cases n) (auto simp: port_form_def)
    then obtain x where x: "take n v = CHR ''['' # x @ [CHR '']'']" "x \<noteq> []" "\<forall>b \<in> set x. is_ip_literal_byte b"
      using a(2) v unfolding host_form_def by (cases n) auto
    have v2: "v = [CHR ''[''] @ x @ CHR '']'' # drop n v" using x(1) append_take_drop_id [of n v] by simp
    have i: "i = 1 + length x"
      unfolding i_def using span_from_run [OF x(3), of "CHR '']'' # drop n v" "[CHR ''['']"] v2 by simp
    have "length (take n v) = length x + 2" by (simp add: x(1))
    then have "n = i + 1" using a(1) i by simp
    moreover have "get v i = Some (CHR '']'')" unfolding i by (subst v2) (simp add: get_def)
    ultimately show "i \<noteq> 1 \<and> get v i = Some (CHR '']'') \<and> n = i + 1 \<and> port_form (drop n v)" using a x i by simp
  qed
  finally show ?thesis .
qed

lemma split_host_name:
  assumes "get v 0 \<noteq> Some (CHR ''['')"
  shows "split_host v = Some n \<longleftrightarrow> n \<le> length v \<and> host_form (take n v) \<and> port_form (drop n v)"
proof -
  define i where "i = span_from (\<lambda>b. is_class b HOST) v 0"
  note s = span_from_split [of 0 v "\<lambda>b. is_class b HOST", folded i_def]
  have i: "take i v = takeWhile (\<lambda>b. is_class b HOST) v"
    by (simp add: i_def span_from_def takeWhile_eq_take [symmetric])
  have "split_host v = Some n \<longleftrightarrow> n = i \<and> port_form (drop n v)"
    using assms unfolding split_host_def Let_def i_def [symmetric] port_form_iff by (auto simp del: get_Some_iff)
  also have "\<dots> \<longleftrightarrow> n \<le> length v \<and> host_form (take n v) \<and> port_form (drop n v)"
  proof (rule iffI; elim conjE)
    assume "n = i" "port_form (drop n v)"
    then show "n \<le> length v \<and> host_form (take n v) \<and> port_form (drop n v)"
      using s(4) i by (auto simp: host_form_def dest: set_takeWhileD)
  next
    assume a: "n \<le> length v" "host_form (take n v)" "port_form (drop n v)"
    have "\<forall>b \<in> set (take n v). is_class b HOST"
      using a(1,2) assms by (cases v; cases n) (auto simp: host_form_def get_def)
    moreover have "drop n v = [] \<or> \<not> is_class (hd (drop n v)) HOST" using a(3) by (auto simp: port_form_def)
    ultimately have "i = n"
      unfolding i_def using span_from_run [of "take n v" "\<lambda>b. is_class b HOST" "drop n v" "[]"] a(1) by simp
    then show "n = i \<and> port_form (drop n v)" using a by simp
  qed
  finally show ?thesis .
qed

lemma split_host_iff:
  "split_host v = Some n \<longleftrightarrow> n \<le> length v \<and> host_form (take n v) \<and> port_form (drop n v)"
  using split_host_ip split_host_name by blast

lemma host_form_ascii: "host_form h \<Longrightarrow> is_utf8 h"
proof (rule is_utf8_ascii, rule ballI)
  fix b assume h: "host_form h" "b \<in> set h"
  have "is_class b HOST \<or> is_ip_literal_byte b \<or> b = CHR ''['' \<or> b = CHR '']''" using h by (auto simp: host_form_def)
  then show "ord8 b < 128" by (auto simp: is_HOST any_of_def ascii_defs is_ip_literal_byte_def)
qed

definition decimal :: "nat \<Rightarrow> bytes \<Rightarrow> nat" where
  "decimal n v = foldl (\<lambda>n b. 10 * n + (ord8 b - 48)) n v"

lemma decimal_ge: "n \<le> decimal n v"
proof (induction v arbitrary: n)
  case (Cons b v)
  show ?case using Cons [of "10 * n + (ord8 b - 48)"] by (simp add: decimal_def)
qed (simp add: decimal_def)

lemma parse_digits_from_iff:
  "n < 2 ^ 64 \<Longrightarrow> parse_digits_from n v =
     (if (\<forall>b \<in> set v. is_ascii_digit b) \<and> decimal n v < 2 ^ 64 then Some (decimal n v) else None)"
proof (induction v arbitrary: n)
  case (Cons b v)
  let ?m = "n * 10 + (ord8 b - 48)"
  have "decimal n (b # v) = decimal ?m v" by (simp add: decimal_def mult.commute)
  then show ?case using Cons.IH [of ?m] decimal_ge [of ?m v] Cons.prems by auto
qed (simp add: decimal_def)

lemma parse_digits_iff:
  "parse_digits v = Some n \<longleftrightarrow>
     v \<noteq> [] \<and> (\<forall>b \<in> set v. is_ascii_digit b) \<and> n = decimal 0 v \<and> n < 2 ^ 64"
  by (auto simp: parse_digits_def parse_digits_from_iff)

text \<open>The request targets this proxy serves: the host one names, and its path.\<close>

definition scheme_form :: "bytes \<Rightarrow> bool" where
  "scheme_form s \<longleftrightarrow> eq_ignore_ascii_case s ''http://'' \<or> eq_ignore_ascii_case s ''https://''"

definition target_form :: "bytes \<Rightarrow> bytes \<Rightarrow> bytes option \<Rightarrow> bytes \<Rightarrow> bool" where
  "target_form m t th path \<longleftrightarrow> m \<noteq> ''CONNECT'' \<and>
     ((\<exists>r. t = CHR ''/'' # r) \<and> th = None \<and> path = t
      \<or> t = ''*'' \<and> m = ''OPTIONS'' \<and> th = None \<and> path = t
      \<or> (\<exists>s h p r. t = s @ h @ p @ r \<and> scheme_form s \<and> h \<noteq> [] \<and> host_form h \<and> port_form p \<and>
           (r = [] \<and> path = ''/'' \<or> r \<noteq> [] \<and> hd r = CHR ''/'' \<and> path = r) \<and> th = Some h))"

lemma eq_ignore_ascii_case_take: "eq_ignore_ascii_case a b \<Longrightarrow> eq_ignore_ascii_case (take n a) (take n b)"
  by (metis eq_ignore_ascii_case_def take_map to_ascii_lowercase_def)

lemma scheme_len:
  assumes "scheme_form s"
  shows "absolute_scheme_len (s @ r) = Some (length s)" "\<exists>c u. s = c # u \<and> c \<noteq> CHR ''/'' \<and> c \<noteq> CHR ''*''"
proof -
  obtain c u where s: "s = c # u" using assms by (cases s) (auto simp: scheme_form_def eq_ignore_ascii_case_def)
  show "\<exists>c u. s = c # u \<and> c \<noteq> CHR ''/'' \<and> c \<noteq> CHR ''*''"
    using assms s by (auto simp: scheme_form_def eq_ignore_ascii_case_def)
  show "absolute_scheme_len (s @ r) = Some (length s)"
  proof (cases "eq_ignore_ascii_case s ''http://''")
    case True
    then show ?thesis using eq_ignore_ascii_case_length [OF True] by (simp add: absolute_scheme_len_def)
  next
    case False
    then have h: "eq_ignore_ascii_case s ''https://''" using assms by (simp add: scheme_form_def)
    then have l: "length s = 8" using eq_ignore_ascii_case_length by fastforce
    have "\<not> eq_ignore_ascii_case (take 7 s) ''http://''"
      using eq_ignore_ascii_case_take [OF h, of 7] by (simp add: eq_ignore_ascii_case_def)
    then show ?thesis using h l by (simp add: absolute_scheme_len_def)
  qed
qed

lemma absolute_scheme_lenD:
  assumes "absolute_scheme_len t = Some k"
  shows "scheme_form (take k t)" "k \<le> length t"
  using assms by (auto simp: absolute_scheme_len_def scheme_form_def split: if_splits)

lemma authority_no_slash:
  assumes "host_form h" "port_form p"
  shows "CHR ''/'' \<notin> set (h @ p)"
proof
  assume "CHR ''/'' \<in> set (h @ p)"
  then have "is_class (CHR ''/'') HOST \<or> is_ip_literal_byte (CHR ''/'') \<or> is_ascii_digit (CHR ''/'')"
    using assms unfolding host_form_def port_form_def by fastforce
  then show False by simp
qed

lemma parse_target_absolute:
  assumes "scheme_form s" "m \<noteq> ''CONNECT''" "CHR ''/'' \<notin> set a" "r = [] \<or> hd r = CHR ''/''"
  shows "parse_target m (s @ a @ r) =
    (case split_host a of
       Some h \<Rightarrow> if h > 0 then (False, Some (take h a), if r = [] then ''/'' else r)
                 else (True, None, if r = [] then ''/'' else r)
     | None \<Rightarrow> (True, None, if r = [] then ''/'' else r))"
proof -
  obtain c u where s: "s = c # u" "c \<noteq> CHR ''/''" "c \<noteq> CHR ''*''" using scheme_len(2) [OF assms(1)] by auto
  have mc: "memchr (CHR ''/'') (a @ r) = (if r = [] then None else Some (length a))"
    using assms(3,4) by (cases r) (auto simp: memchr_None memchr_first)
  have len: "absolute_scheme_len (s @ a @ r) = Some (length s)" using scheme_len(1) [OF assms(1)] .
  have dr: "drop (length s) (s @ a @ r) = a @ r" by simp
  have al: "(case memchr (CHR ''/'') (a @ r) of Some i \<Rightarrow> i | None \<Rightarrow> length (a @ r)) = length a"
    by (simp add: mc)
  have cut: "take (length a) (a @ r) = a" "drop (length a) (a @ r) = r" "(length a < length (a @ r)) = (r \<noteq> [])"
    by auto
  have ne: "(m = ''CONNECT'') = False" "(get (s @ a @ r) 0 = Some (CHR ''/'')) = False" "(s @ a @ r = ''*'') = False"
    using s assms(2) by auto
  show ?thesis
    unfolding parse_target_def Let_def ne if_False len option.case dr al cut by (cases "r = []") simp_all
qed

lemma parse_target_iff:
  assumes "t \<noteq> []"
  shows "parse_target m t = (False, th, path) \<longleftrightarrow> target_form m t th path"
proof
  assume p: "parse_target m t = (False, th, path)"
  then have m: "m \<noteq> ''CONNECT''" by (auto simp: parse_target_def)
  show "target_form m t th path"
  proof (cases "hd t = CHR ''/'' \<or> t = ''*''")
    case True
    then show ?thesis using p m assms by (cases t) (auto simp: parse_target_def target_form_def get_def split: if_splits)
  next
    case False
    then obtain k where k: "absolute_scheme_len t = Some k"
      using p m assms by (cases t) (auto simp: parse_target_def get_def split: if_splits option.splits)
    define a where "a = takeWhile (\<lambda>b. b \<noteq> CHR ''/'') (drop k t)"
    define r where "r = dropWhile (\<lambda>b. b \<noteq> CHR ''/'') (drop k t)"
    have t: "t = take k t @ a @ r" by (simp add: a_def r_def)
    have "CHR ''/'' \<notin> set a" by (auto simp: a_def dest: set_takeWhileD)
    moreover have r: "r = [] \<or> hd r = CHR ''/''" using hd_dropWhile [of "\<lambda>b. b \<noteq> CHR ''/''" "drop k t"] by (auto simp: r_def)
    moreover have "parse_target m (take k t @ a @ r) = (False, th, path)" by (simp only: t [symmetric] p)
    ultimately obtain h where h: "split_host a = Some h" "h > 0" "th = Some (take h a)" "path = (if r = [] then ''/'' else r)"
      using parse_target_absolute [OF absolute_scheme_lenD(1) [OF k] m, of a r]
      by (auto split: option.splits if_splits)
    have "t = take k t @ take h a @ drop h a @ r"
      by (subst t) (simp only: append_assoc [symmetric] append_take_drop_id)
    moreover have "take h a \<noteq> []" "host_form (take h a)" "port_form (drop h a)"
      using h(1,2) split_host_iff [of a h] by auto
    moreover have "r = [] \<and> path = ''/'' \<or> r \<noteq> [] \<and> hd r = CHR ''/'' \<and> path = r" using r h(4) by auto
    ultimately show ?thesis
      using h(3) m absolute_scheme_lenD(1) [OF k] unfolding target_form_def by blast
  qed
next
  assume f: "target_form m t th path"
  then consider r where "m \<noteq> ''CONNECT''" "t = CHR ''/'' # r" "th = None" "path = t"
    | "t = ''*''" "m = ''OPTIONS''" "th = None" "path = t"
    | s h p r where "m \<noteq> ''CONNECT''" "t = s @ (h @ p) @ r" "scheme_form s" "h \<noteq> []" "host_form h" "port_form p"
        "r = [] \<and> path = ''/'' \<or> r \<noteq> [] \<and> hd r = CHR ''/'' \<and> path = r" "th = Some h"
    unfolding target_form_def append_assoc by blast
  then show "parse_target m t = (False, th, path)"
  proof cases
    case (3 s h p r)
    have "split_host (h @ p) = Some (length h)" using 3 by (simp add: split_host_iff)
    then show ?thesis
      using 3 parse_target_absolute [OF 3(3) 3(1) authority_no_slash [OF 3(5,6)], of r] by (auto simp del: append_assoc)
  qed (simp_all add: parse_target_def get_def)
qed

section \<open>The heads accepted\<close>

record head =
  h_method :: bytes
  h_target :: bytes
  h_http10 :: bool
  h_fields :: "(bytes \<times> bytes) list"

definition head_line :: "head \<Rightarrow> bytes" where
  "head_line h = request_line (h_method h) (h_target h) (h_http10 h)"

definition print_head :: "head \<Rightarrow> bytes" where
  "print_head h = head_line h @ field_text (h_fields h) @ CRLF"

definition head_syntax :: "head \<Rightarrow> bool" where
  "head_syntax h \<longleftrightarrow> request_line_ok (h_method h) (h_target h) \<and> list_all field_ok (h_fields h)"

definition host_named :: "head \<Rightarrow> bytes option \<Rightarrow> bytes option" where
  "host_named h th =
     (case host_of (h_fields h) of
        Some n \<Rightarrow> Some n
      | None \<Rightarrow> if h_http10 h then Some (case th of Some t \<Rightarrow> t | None \<Rightarrow> []) else None)"

text \<open>
  What makes a head safe to forward: a served target, lines that agree on one host and one
  framing, and a target authority that names that host.
\<close>

definition head_meaning :: "head \<Rightarrow> bytes \<Rightarrow> bytes \<Rightarrow> bool" where
  "head_meaning h host path \<longleftrightarrow> (\<exists>th. target_form (h_method h) (h_target h) th path \<and>
     lines_ok (h_http10 h) (h_fields h) \<and> host_named h th = Some host \<and>
     (\<forall>t. th = Some t \<longrightarrow> eq_ignore_ascii_case t host) \<and> (host = [] \<longrightarrow> h_http10 h) \<and>
     (field_values ''content-length'' (h_fields h) = [] \<or> field_values ''transfer-encoding'' (h_fields h) = []))"

definition accepted :: "bytes \<Rightarrow> http_request_info \<Rightarrow> bool" where
  "accepted data i \<longleftrightarrow> extract_routing_info data = Inr i \<and> \<not> i_header_violation i"

definition head_state :: "head \<Rightarrow> parse_state" where
  "head_state h = read_fields (h_http10 h) (length (head_line h)) (h_fields h) (parse_start False)"

definition head_info :: "head \<Rightarrow> bytes \<Rightarrow> bytes \<Rightarrow> http_request_info" where
  "head_info h host path = (let st = head_state h in
     \<lparr>i_method = h_method h, i_host = host, i_path = fst (split_query path), i_query_string = snd (split_query path),
      i_keepalive = (case p_keepalive st of Some k \<Rightarrow> k | None \<Rightarrow> \<not> h_http10 h),
      i_header_data = field_text (h_fields h), i_head_len = length (print_head h),
      i_content_length = length_of (h_fields h),
      i_is_chunked = (field_values ''transfer-encoding'' (h_fields h) \<noteq> []),
      i_is_upgrade = (p_has_upgrade st \<and> p_connection_upgrade st \<and> \<not> p_h2c st),
      i_header_violation = False, i_strip_spans = p_spans st, i_upgrade_span = p_upgrade_span st,
      i_expect_continue = p_expect st\<rparr>)"

lemma header_loop_state:
  assumes "list_all field_ok fs"
  shows "fst (snd (header_loop (pre @ field_text fs @ CRLF @ rest) h10 (length pre) st)) = read_fields h10 (length pre) fs st"
  using assms
proof (induction fs arbitrary: pre st)
  case Nil
  then show ?case by (subst header_loop.simps) (simp add: nth_append)
next
  case (Cons f fs)
  show ?case
  proof (cases "p_violation st")
    case False
    then have "header_loop (pre @ line_bytes f @ (field_text fs @ CRLF @ rest)) h10 (length pre) st =
      header_loop ((pre @ line_bytes f) @ field_text fs @ CRLF @ rest) h10 (length (pre @ line_bytes f))
        (header_line h10 (fst f) (snd f) (length pre) (length pre + length (line_bytes f)) st)"
      using Cons.prems by (subst header_loop_line) auto
    then show ?thesis
      using Cons.IH [of "pre @ line_bytes f"] Cons.prems False by simp
  qed simp
qed

lemma finish_accepts:
  assumes "\<not> p_violation st"
  shows "finish_request m h10 th path data n (pos, st, True) = Inr i \<and> \<not> i_header_violation i \<longleftrightarrow>
    (\<exists>host. (case p_host st of Some h \<Rightarrow> Some h
        | None \<Rightarrow> if h10 then Some (case th of Some t \<Rightarrow> t | None \<Rightarrow> []) else None) = Some host \<and> is_utf8 host \<and>
      (\<forall>t. th = Some t \<longrightarrow> eq_ignore_ascii_case t host) \<and> (host = [] \<longrightarrow> h10) \<and>
      (p_content_length st = None \<or> \<not> p_chunked st) \<and>
      i = \<lparr>i_method = m, i_host = host, i_path = fst (split_query path), i_query_string = snd (split_query path),
        i_keepalive = (case p_keepalive st of Some k \<Rightarrow> k | None \<Rightarrow> \<not> h10),
        i_header_data = subslice n pos data, i_head_len = pos + 2, i_content_length = p_content_length st,
        i_is_chunked = p_chunked st, i_is_upgrade = (p_has_upgrade st \<and> p_connection_upgrade st \<and> \<not> p_h2c st),
        i_header_violation = False, i_strip_spans = p_spans st, i_upgrade_span = p_upgrade_span st,
        i_expect_continue = p_expect st\<rparr>)"
  using assms by (cases "p_host st"; cases th) (auto simp: finish_request_def)

lemma finish_violated:
  "p_violation st \<or> \<not> terminated \<Longrightarrow>
     finish_request m h10 th path data n (pos, st, terminated) = Inr i \<Longrightarrow> i_header_violation i"
  by (auto simp: finish_request_def Let_def split: option.splits if_splits)

lemma named_host_ascii:
  assumes "target_form m t th path" "host_named h th = Some host"
  shows "is_utf8 host"
proof -
  have "is_utf8 n" if "host_of fs = Some n" for fs n
    using that host_form_ascii by (auto simp: host_of_def split_host_iff split: list.splits)
  moreover have "is_utf8 n" if "th = Some n" for n
    using assms(1) that host_form_ascii by (auto simp: target_form_def)
  ultimately show ?thesis
    using assms(2) by (auto simp: host_named_def split: option.splits if_splits)
qed

lemma head_accepted:
  assumes ok: "head_syntax h"
  shows "accepted (print_head h @ rest) i \<longleftrightarrow> (\<exists>host path. head_meaning h host path \<and> i = head_info h host path)"
proof -
  define data where "data = print_head h @ rest"
  define fs where "fs = h_fields h"
  define pre where "pre = head_line h"
  obtain v th p where pt: "parse_target (h_method h) (h_target h) = (v, th, p)" by (cases "parse_target (h_method h) (h_target h)")
  define st where "st = read_fields (h_http10 h) (length pre) fs (parse_start v)"
  have line: "request_line_ok (h_method h) (h_target h)" "list_all field_ok fs" "h_target h \<noteq> []"
    using ok by (auto simp: head_syntax_def fs_def request_line_ok_def target_ok_def)
  have d: "data = pre @ field_text fs @ CRLF @ rest" by (simp add: data_def print_head_def pre_def fs_def)
  have ex: "extract_routing_info data = finish_request (h_method h) (h_http10 h) th p data (length pre)
      (header_loop data (h_http10 h) (length pre) (parse_start v))"
    using extract_line [OF line(1), of "h_http10 h" "field_text fs @ CRLF @ rest"]
    unfolding pt d pre_def head_line_def by simp
  note form = parse_target_iff [OF line(3), of "h_method h"]
  show ?thesis
  proof (cases "p_violation st")
    case True
    obtain pos b where "header_loop data (h_http10 h) (length pre) (parse_start v) = (pos, st, b)"
      using header_loop_state [OF line(2), of pre rest "h_http10 h" "parse_start v"] unfolding d st_def by (metis prod.collapse)
    then have "\<not> accepted data i" using ex finish_violated True unfolding accepted_def by metis
    moreover have "\<not> head_meaning h host path" for host path
    proof
      assume m: "head_meaning h host path"
      then obtain th' where "target_form (h_method h) (h_target h) th' path" and l: "lines_ok (h_http10 h) fs"
        by (auto simp: head_meaning_def fs_def)
      then have "v = False" using form pt by auto
      then show False using True l read_fields_core [of "h_http10 h" fs "length pre"] by (simp add: st_def core_of_def)
    qed
    ultimately show ?thesis by (simp add: data_def)
  next
    case False
    then have v: "v = False" by (cases v) (auto simp: st_def parse_start_def)
    have l: "lines_ok (h_http10 h) fs" "p_host st = host_of fs" "p_content_length st = length_of fs"
        "p_chunked st \<longleftrightarrow> field_values ''transfer-encoding'' fs \<noteq> []"
      using False read_fields_core [of "h_http10 h" fs "length pre"] by (simp_all add: st_def core_of_def v)
    have loop: "header_loop data (h_http10 h) (length pre) (parse_start v) = (length pre + length (field_text fs), st, True)"
      using header_loop_fields [OF line(2), of "h_http10 h" pre "parse_start v" rest] False unfolding d st_def by simp
    have n: "length_of fs = None \<longleftrightarrow> field_values ''content-length'' fs = []"
      using l(1) length_of_None by (simp add: lines_ok_def)
    have s: "subslice (length pre) (length pre + length (field_text fs)) data = field_text fs"
      by (simp add: subslice_def d)
    have hs: "head_state h = st" by (simp add: head_state_def st_def v pre_def fs_def)
    have pl: "length (print_head h) = length pre + length (field_text fs) + 2" by (simp add: print_head_def pre_def fs_def)
    have tf: "target_form (h_method h) (h_target h) th' q \<longleftrightarrow> th' = th \<and> q = p" for th' q
      using form [of th' q] pt v by auto
    have u: "is_utf8 host" if "host_named h th = Some host" for host
      using named_host_ascii that tf by blast
    have "accepted data i \<longleftrightarrow> (\<exists>host. host_named h th = Some host \<and> is_utf8 host \<and>
        (\<forall>t. th = Some t \<longrightarrow> eq_ignore_ascii_case t host) \<and> (host = [] \<longrightarrow> h_http10 h) \<and>
        (length_of fs = None \<or> field_values ''transfer-encoding'' fs = []) \<and> i = head_info h host p)"
      unfolding accepted_def ex loop finish_accepts [OF False]
      by (simp add: l s host_named_def fs_def [symmetric] head_info_def hs Let_def pl)
    also have "\<dots> \<longleftrightarrow> (\<exists>host path. head_meaning h host path \<and> i = head_info h host path)"
      using l(1) n u unfolding head_meaning_def fs_def [symmetric] tf by auto
    finally show ?thesis by (simp add: data_def)
  qed
qed

lemma accepted_headD:
  assumes a: "accepted data i"
  shows "\<exists>h host path rest. head_syntax h \<and> head_meaning h host path \<and> data = print_head h @ rest \<and>
      i = head_info h host path"
proof -
  obtain m t h10 r where r: "request_line_ok m t" "data = request_line m t h10 @ r"
    using a extract_lineD unfolding accepted_def by blast
  obtain v th p where pt: "parse_target m t = (v, th, p)" by (cases "parse_target m t")
  obtain pos st b where loop: "header_loop data h10 (length (request_line m t h10)) (parse_start v) = (pos, st, b)"
    by (cases "header_loop data h10 (length (request_line m t h10)) (parse_start v)")
  have "finish_request m h10 th p data (length (request_line m t h10)) (pos, st, b) = Inr i"
    using a extract_line [OF r(1), of h10 r] loop by (simp add: accepted_def pt r(2))
  then have "b" "\<not> p_violation st" using a finish_violated unfolding accepted_def by blast+
  then obtain fs rest where fs: "list_all field_ok fs" "r = field_text fs @ CRLF @ rest"
    using header_loop_fieldsD [of data h10 "length (request_line m t h10)" "parse_start v" pos st] loop by (auto simp: r(2))
  let ?h = "\<lparr>h_method = m, h_target = t, h_http10 = h10, h_fields = fs\<rparr>"
  have s: "head_syntax ?h" using r fs by (simp add: head_syntax_def)
  moreover have d: "data = print_head ?h @ rest" by (simp add: print_head_def head_line_def r fs)
  ultimately show ?thesis
    using head_accepted [OF s, of rest i] a by blast
qed

text \<open>
  C31. The parser accepts exactly the heads of the grammar that have one meaning, whatever bytes
  follow: its answer is what the printed head says, and every other input is refused. A served
  target, at most one Host, Content-Length and Transfer-Encoding line each, never the last two
  together, a length below \<open>2 ^ 64\<close> in plain digits, \<open>chunked\<close> only, no Connection token
  naming them, and an authority that names the Host.
\<close>

theorem accepted_heads:
  "accepted data i \<longleftrightarrow>
     (\<exists>h host path rest. head_syntax h \<and> head_meaning h host path \<and> data = print_head h @ rest \<and>
        i = head_info h host path)"
  using accepted_headD head_accepted by blast

section \<open>Where a head ends\<close>

lemma find_header_end_here:
  assumes "CHR 0x0D \<notin> set seg"
  shows "find_header_end_from (pre @ seg @ CRLF @ CRLF @ rest) (length pre) = Some (length pre + length seg + 4)"
  using memchr_first [OF assms, of "CHR 0x0A # CRLF @ rest"]
  by (subst find_header_end_from.simps) (simp add: nth_append)

lemma find_header_end_skip:
  assumes "CHR 0x0D \<notin> set seg" "c \<noteq> CHR 0x0D"
  shows "find_header_end_from (pre @ seg @ CRLF @ c # rest) (length pre) =
    find_header_end_from (pre @ seg @ CRLF @ c # rest) (length pre + length seg + 1)"
  using memchr_first [OF assms(1), of "CHR 0x0A # c # rest"] assms(2)
  by (subst find_header_end_from.simps) (simp add: nth_append)

lemma no_CR:
  "is_token n \<Longrightarrow> CHR 0x0D \<notin> set n" "\<forall>b \<in> set v. is_class b VALUE \<Longrightarrow> CHR 0x0D \<notin> set v"
  "target_ok t \<Longrightarrow> CHR 0x0D \<notin> set t"
proof -
  show "is_token n \<Longrightarrow> CHR 0x0D \<notin> set n" using class_marks(3) by (auto simp: is_token_def)
  show "\<forall>b \<in> set v. is_class b VALUE \<Longrightarrow> CHR 0x0D \<notin> set v" using class_marks(4) by blast
  have "\<not> target_byte (CHR 0x0D)" by (simp add: target_byte_def is_TARGET)
  then show "target_ok t \<Longrightarrow> CHR 0x0D \<notin> set t" by (auto simp: target_ok_def)
qed

lemma find_header_end_fields:
  assumes "list_all field_ok fs" "CHR 0x0D \<notin> set seg"
  shows "find_header_end_from (pre @ seg @ CRLF @ field_text fs @ CRLF @ rest) (length pre) =
    Some (length pre + length seg + length (field_text fs) + 4)"
  using assms
proof (induction fs arbitrary: pre seg)
  case Nil
  then show ?case using find_header_end_here by simp
next
  case (Cons f fs)
  have f: "is_token (fst f)" "\<forall>b \<in> set (snd f). is_class b VALUE" using Cons.prems by (auto simp: field_ok_def)
  obtain c s where cs: "fst f = c # s" "c \<noteq> CHR 0x0D" using token_head [OF f(1)] by auto
  let ?seg = "CHR 0x0A # fst f @ CHR '':'' # snd f"
  let ?data = "pre @ seg @ CRLF @ field_text (f # fs) @ CRLF @ rest"
  have "find_header_end_from ?data (length pre) = find_header_end_from ?data (length pre + length seg + 1)"
    using find_header_end_skip [OF Cons.prems(2) cs(2), of pre] by (simp add: line_bytes_def cs(1))
  also have "\<dots> = find_header_end_from ((pre @ seg @ [CHR 0x0D]) @ ?seg @ CRLF @ field_text fs @ CRLF @ rest)
      (length (pre @ seg @ [CHR 0x0D]))"
    by (simp add: line_bytes_def)
  also have "\<dots> = Some (length (pre @ seg @ [CHR 0x0D]) + length ?seg + length (field_text fs) + 4)"
    using Cons.prems no_CR [of "fst f"] no_CR(2) [of "snd f"] f by (intro Cons.IH) auto
  finally show ?case by (simp add: line_bytes_def)
qed

text \<open>
  C32. The head the parser reads is the one the reader waited for: it ends at the first blank
  line of the data, and the test that spares the search agrees that it is whole.
\<close>

theorem head_ends_at_blank_line:
  assumes "accepted data i"
  shows "find_header_end data = Some (i_head_len i) \<and> has_header_end data"
proof -
  obtain h host path rest where h: "head_syntax h" "data = print_head h @ rest" "i = head_info h host path"
    using accepted_headD [OF assms] by blast
  let ?seg = "h_method h @ CHR '' '' # h_target h @ (if h_http10 h then '' HTTP/1.0'' else '' HTTP/1.1'')"
  have "CHR 0x0D \<notin> set ?seg"
    using h(1) no_CR(1,3) by (auto simp: head_syntax_def request_line_ok_def)
  then have "find_header_end data = Some (length ?seg + length (field_text (h_fields h)) + 4)"
    using find_header_end_fields [of "h_fields h" ?seg "[]" rest] h(1)
    by (simp add: find_header_end_def h(2) print_head_def head_line_def request_line_def version_text_def head_syntax_def)
  moreover have "i_head_len i = length ?seg + length (field_text (h_fields h)) + 4"
    by (simp add: h(3) head_info_def Let_def print_head_def head_line_def request_line_def version_text_def)
  ultimately show ?thesis by (simp add: has_header_end_def)
qed

definition sample_head :: head where
  "sample_head = \<lparr>h_method = ''GET'', h_target = ''/a?b'', h_http10 = False,
     h_fields = [(''Host'', '' x:80''), (''Content-Length'', '' 2'')]\<rparr>"

lemma sample_syntax: "head_syntax sample_head"
  by (simp add: head_syntax_def sample_head_def request_line_ok_def is_token_def target_ok_def target_byte_def
      field_ok_def class_iffs any_of_def TCHAR_MARKS_def TARGET_HOLES_def VALUE_HOLES_def ascii_defs)

lemma sample_split: "split_host ''x:80'' = Some 1" "parse_digits ''2'' = Some 2"
  "trim_ows '' x:80'' = ''x:80''" "trim_ows '' 2'' = ''2''"
  by (simp_all add: split_host_iff host_form_def port_form_def is_HOST any_of_def ascii_defs parse_digits_def
      trim_ows_def is_ows_def)

lemma sample_values:
  "field_values ''host'' (h_fields sample_head) = ['' x:80'']"
  "field_values ''content-length'' (h_fields sample_head) = ['' 2'']"
  "field_values ''transfer-encoding'' (h_fields sample_head) = []"
  "field_values ''connection'' (h_fields sample_head) = []"
  by (simp_all add: field_values_def sample_head_def ascii_defs)

lemma sample_meaning: "head_meaning sample_head ''x'' ''/a?b''"
proof -
  have "target_form (h_method sample_head) (h_target sample_head) None ''/a?b''"
    by (simp add: target_form_def sample_head_def)
  then show ?thesis
    unfolding head_meaning_def
    by (intro exI [of _ None])
      (simp add: lines_ok_def sample_values sample_split at_most_one_def host_named_def host_of_def)
qed

lemma sample_accepted: "accepted (print_head sample_head @ ''hi'') (head_info sample_head ''x'' ''/a?b'')"
  using head_accepted [OF sample_syntax] sample_meaning by blast

theorem head_ends_at_blank_line_witness:
  "find_header_end (print_head sample_head @ ''hi'') = Some 52 \<and> has_header_end (print_head sample_head @ ''hi'')"
proof -
  have "length (print_head sample_head) = 52"
    by (simp add: print_head_def sample_head_def head_line_def request_line_def line_bytes_def)
  then show ?thesis using head_ends_at_blank_line [OF sample_accepted] by (simp add: head_info_def Let_def)
qed

end
