(* ===== verification/Path_Normalize.thy ===== *)
theory Path_Normalize
  imports Portail_Prelude
begin

text \<open>
  Path normalization of \<open>src/src/proxy/http_parser.rs\<close>: the path that is both routed and
  forwarded has its dot-segments removed. The code searches bytes and edits a buffer; here it is
  shown to resolve a list of segments.
\<close>

section \<open>The code\<close>

datatype dots = Segment nat | WithParams

fun dot_segment_from :: "nat \<Rightarrow> bytes \<Rightarrow> dots option" where
  "dot_segment_from n segment =
     (if n > 2 then None
      else case segment of
        [] \<Rightarrow> if n > 0 then Some (Segment n) else None
      | b # rest \<Rightarrow>
          if b = CHR ''.'' then dot_segment_from (n + 1) rest
          else if b = CHR ''%'' \<and> take 1 rest = ''2'' \<and> (take 1 (drop 1 rest) = ''e'' \<or> take 1 (drop 1 rest) = ''E'')
          then dot_segment_from (n + 1) (drop 2 rest)
          else if b = CHR ''/'' then (if n > 0 then Some (Segment n) else None)
          else if b = CHR '';'' then (if n > 0 then Some WithParams else None)
          else None)"

definition dot_segment :: "bytes \<Rightarrow> dots option" where
  "dot_segment segment = dot_segment_from 0 segment"

text \<open>\<open>str::rfind\<close> of a slash, or zero.\<close>

definition rfind_slash :: "bytes \<Rightarrow> nat" where
  "rfind_slash out = (case memchr (CHR ''/'') (rev out) of Some i \<Rightarrow> length out - Suc i | None \<Rightarrow> 0)"

fun remove_loop :: "bytes \<Rightarrow> bytes list \<Rightarrow> bytes option" where
  "remove_loop out [] = Some out"
| "remove_loop out (segment # segments) =
     (case dot_segment segment of
        None \<Rightarrow> remove_loop (out @ CHR ''/'' # segment) segments
      | Some WithParams \<Rightarrow> None
      | Some (Segment n) \<Rightarrow>
          let out = (if n = 1 then out else take (rfind_slash out) out)
          in remove_loop (if segments = [] then out @ ''/'' else out) segments)"

definition remove_dot_segments :: "bytes \<Rightarrow> bytes option" where
  "remove_dot_segments path = remove_loop [] (split_on (CHR ''/'') (drop 1 path))"

function normalize_from :: "bytes \<Rightarrow> nat \<Rightarrow> bytes option" where
  "normalize_from path from =
     (case position (\<lambda>b. b = CHR ''.'' \<or> b = CHR ''%'') (drop from path) of
        None \<Rightarrow> Some path
      | Some i \<Rightarrow>
          let at = from + i in
          if path ! (at - 1) = CHR ''/''
          then (case dot_segment (drop at path) of
                  Some (Segment _) \<Rightarrow> remove_dot_segments path
                | Some WithParams \<Rightarrow> None
                | None \<Rightarrow> normalize_from path (at + 1))
          else normalize_from path (at + 1))"
  by pat_completeness auto
termination
  by (relation "measure (\<lambda>(path, from). length path - from)") (auto dest!: position_SomeD)

declare normalize_from.simps [simp del] dot_segment_from.simps [simp del]

definition normalize_path :: "bytes \<Rightarrow> bytes option" where
  "normalize_path path =
     (if get path 0 \<noteq> Some (CHR ''/'') then Some path else normalize_from path 1)"

section \<open>Resolving segments\<close>

text \<open>RFC 3986 5.2.4 over segments. A trailing dot-segment leaves an empty one.\<close>

fun resolve :: "bytes list \<Rightarrow> bytes list \<Rightarrow> bytes list" where
  "resolve done [] = done"
| "resolve done (s # ss) =
     (case dot_segment s of
        None \<Rightarrow> resolve (done @ [s]) ss
      | Some d \<Rightarrow>
          let kept = (if d = Segment 1 then done else butlast done)
          in resolve (if ss = [] then kept @ [[]] else kept) ss)"

definition path_of :: "bytes list \<Rightarrow> bytes" where
  "path_of segs = concat (map (Cons (CHR ''/'')) segs)"

lemma path_of_simps [simp]:
  "path_of [] = []" "path_of (s # ss) = CHR ''/'' # s @ path_of ss" "path_of (xs @ ys) = path_of xs @ path_of ys"
  by (simp_all add: path_of_def)

lemma path_of_split: "path_of (split_on (CHR ''/'') q) = CHR ''/'' # q"
proof -
  have "ps \<noteq> [] \<Longrightarrow> path_of ps = CHR ''/'' # join_with (CHR ''/'') ps" for ps
  proof (induction ps)
    case (Cons p ps)
    then show ?case by (cases "ps = []") (auto simp: join_with_Cons)
  qed simp
  then show ?thesis by simp
qed

lemma rfind_slash_last:
  assumes "CHR ''/'' \<notin> set x"
  shows "rfind_slash (out @ CHR ''/'' # x) = length out"
  using memchr_first [of "CHR ''/''" "rev x" "rev out"] assms by (simp add: rfind_slash_def)

lemma truncate_path_of:
  assumes "\<forall>s \<in> set xs. CHR ''/'' \<notin> set s"
  shows "take (rfind_slash (path_of xs)) (path_of xs) = path_of (butlast xs)"
proof (cases xs rule: rev_cases)
  case (snoc ys y)
  then show ?thesis using assms rfind_slash_last [of y "path_of ys"] by simp
qed (simp add: rfind_slash_def)

lemma remove_loop_resolve:
  assumes "\<forall>s \<in> set done. CHR ''/'' \<notin> set s" "\<forall>s \<in> set ss. CHR ''/'' \<notin> set s"
    "\<forall>s \<in> set ss. dot_segment s \<noteq> Some WithParams"
  shows "remove_loop (path_of done) ss = Some (path_of (resolve done ss))"
  using assms
proof (induction ss arbitrary: "done")
  case (Cons s ss)
  show ?case
  proof (cases "dot_segment s")
    case None
    have "remove_loop (path_of (done @ [s])) ss = Some (path_of (resolve (done @ [s]) ss))"
      using Cons.prems by (intro Cons.IH) auto
    then show ?thesis using None by simp
  next
    case (Some d)
    then obtain n where d: "d = Segment n" using Cons.prems by (cases d) auto
    let ?kept = "if d = Segment 1 then done else butlast done"
    let ?next = "if ss = [] then ?kept @ [[]] else ?kept"
    have "remove_loop (path_of ?next) ss = Some (path_of (resolve ?next ss))"
      using Cons.prems by (intro Cons.IH) (auto dest: in_set_butlastD)
    then show ?thesis
      using Some d truncate_path_of [of "done"] Cons.prems
      by (cases "ss = []"; cases "n = 1") (simp_all add: Let_def)
  qed
qed simp

lemma remove_loop_params: "\<exists>s \<in> set ss. dot_segment s = Some WithParams \<Longrightarrow> remove_loop out ss = None"
  by (induction ss arbitrary: out) (auto simp: Let_def split: option.split dots.split)

lemma resolve_id: "\<forall>s \<in> set ss. dot_segment s = None \<Longrightarrow> resolve done ss = done @ ss"
  by (induction ss arbitrary: "done") auto

section \<open>The search for a dot-segment\<close>

lemma dot_segment_from_cut:
  "dot_segment_from n (takeWhile (\<lambda>b. b \<noteq> CHR ''/'') t) = dot_segment_from n t"
proof (induction n t rule: dot_segment_from.induct)
  case (1 n t)
  show ?case
  proof (cases t)
    case (Cons b rest)
    have r2: "take 1 rest = ''2'' \<Longrightarrow> take 1 (drop 1 rest) = ''e'' \<or> take 1 (drop 1 rest) = ''E'' \<Longrightarrow>
        takeWhile (\<lambda>b. b \<noteq> CHR ''/'') rest = take 2 rest @ takeWhile (\<lambda>b. b \<noteq> CHR ''/'') (drop 2 rest)"
      by (cases rest; cases "tl rest") auto
    have r1: "take 1 (takeWhile (\<lambda>b. b \<noteq> CHR ''/'') rest) = ''2'' \<and>
        (take 1 (drop 1 (takeWhile (\<lambda>b. b \<noteq> CHR ''/'') rest)) = ''e'' \<or>
         take 1 (drop 1 (takeWhile (\<lambda>b. b \<noteq> CHR ''/'') rest)) = ''E'') \<longleftrightarrow>
        take 1 rest = ''2'' \<and> (take 1 (drop 1 rest) = ''e'' \<or> take 1 (drop 1 rest) = ''E'')"
      by (cases rest; cases "tl rest") auto
    show ?thesis
    proof (cases "n > 2")
      case False
      have ih1: "b = CHR ''.'' \<Longrightarrow> dot_segment_from (n + 1) (takeWhile (\<lambda>b. b \<noteq> CHR ''/'') rest) = dot_segment_from (n + 1) rest"
        using "1.IH"(1) [OF False Cons] by simp
      have ih2: "b = CHR ''%'' \<Longrightarrow> take 1 rest = ''2'' \<and> (take 1 (drop 1 rest) = ''e'' \<or> take 1 (drop 1 rest) = ''E'') \<Longrightarrow>
          dot_segment_from (n + 1) (takeWhile (\<lambda>b. b \<noteq> CHR ''/'') (drop 2 rest)) = dot_segment_from (n + 1) (drop 2 rest)"
        using "1.IH"(2) [OF False Cons] by simp
      show ?thesis
      proof (cases "b = CHR ''%'' \<and> take 1 rest = ''2'' \<and> (take 1 (drop 1 rest) = ''e'' \<or> take 1 (drop 1 rest) = ''E'')")
        case True
        then have "drop 2 (takeWhile (\<lambda>b. b \<noteq> CHR ''/'') rest) = takeWhile (\<lambda>b. b \<noteq> CHR ''/'') (drop 2 rest)"
          using r2 by (cases rest; cases "tl rest") auto
        then show ?thesis
          using True False r1 ih2 Cons by (simp add: dot_segment_from.simps [of n "_ # _"])
      next
        case no: False
        then have "\<not> (b = CHR ''%'' \<and> take 1 (takeWhile (\<lambda>b. b \<noteq> CHR ''/'') rest) = ''2'' \<and>
          (take 1 (drop 1 (takeWhile (\<lambda>b. b \<noteq> CHR ''/'') rest)) = ''e'' \<or>
           take 1 (drop 1 (takeWhile (\<lambda>b. b \<noteq> CHR ''/'') rest)) = ''E''))" using r1 by blast
        then show ?thesis
          using no False ih1 Cons
          by (cases "b = CHR ''/''") (simp_all only: dot_segment_from.simps [of n "_ # _"] dot_segment_from.simps [of n "[]"]
              takeWhile.simps list.case if_True if_False simp_thms, simp_all)
      qed
    qed (simp add: dot_segment_from.simps)
  qed simp
qed

lemma dot_segment_cut: "dot_segment t = dot_segment (takeWhile (\<lambda>b. b \<noteq> CHR ''/'') t)"
  by (simp add: dot_segment_def dot_segment_from_cut)

lemma dot_segment_opens:
  "dot_segment t \<noteq> None \<Longrightarrow> \<exists>b r. t = b # r \<and> (b = CHR ''.'' \<or> b = CHR ''%'')"
  by (cases t) (auto simp: dot_segment_def dot_segment_from.simps [of 0] split: if_splits)

text \<open>What follows each slash of a path.\<close>

fun after_slashes :: "bytes \<Rightarrow> bytes list" where
  "after_slashes [] = []"
| "after_slashes (b # r) = (if b = CHR ''/'' then [r] else []) @ after_slashes r"

lemma after_slashes_split:
  "split_on (CHR ''/'') q = takeWhile (\<lambda>b. b \<noteq> CHR ''/'') q # map (takeWhile (\<lambda>b. b \<noteq> CHR ''/'')) (after_slashes q)"
  by (induction q) auto

lemma in_after_slashes:
  "t \<in> set (after_slashes p) \<longleftrightarrow> (\<exists>at. 1 \<le> at \<and> at \<le> length p \<and> p ! (at - 1) = CHR ''/'' \<and> t = drop at p)"
proof (induction p)
  case (Cons b r)
  show ?case
  proof
    assume "t \<in> set (after_slashes (b # r))"
    then consider "b = CHR ''/''" "t = r" | "t \<in> set (after_slashes r)" by (auto split: if_splits)
    then show "\<exists>at. 1 \<le> at \<and> at \<le> length (b # r) \<and> (b # r) ! (at - 1) = CHR ''/'' \<and> t = drop at (b # r)"
    proof cases
      case 2
      then obtain at where "1 \<le> at" "at \<le> length r" "r ! (at - 1) = CHR ''/''" "t = drop at r" using Cons.IH by auto
      then show ?thesis by (intro exI [of _ "Suc at"]) (auto simp: nth_Cons')
    qed (auto intro: exI [of _ 1])
  next
    assume "\<exists>at. 1 \<le> at \<and> at \<le> length (b # r) \<and> (b # r) ! (at - 1) = CHR ''/'' \<and> t = drop at (b # r)"
    then obtain at where at: "1 \<le> at" "at \<le> length (b # r)" "(b # r) ! (at - 1) = CHR ''/''" "t = drop at (b # r)" by blast
    show "t \<in> set (after_slashes (b # r))"
    proof (cases "at = 1")
      case False
      then have "\<exists>k. 1 \<le> k \<and> k \<le> length r \<and> r ! (k - 1) = CHR ''/'' \<and> t = drop k r"
        using at by (intro exI [of _ "at - 1"]) (auto simp: nth_Cons' drop_Cons' split: if_splits)
      then show ?thesis using Cons.IH by auto
    qed (use at in auto)
  qed
qed simp

lemma dot_segments_after:
  "(\<exists>s \<in> set (split_on (CHR ''/'') q). P (dot_segment s)) \<longleftrightarrow>
     (\<exists>t \<in> set (after_slashes (CHR ''/'' # q)). P (dot_segment t))"
  using dot_segment_cut [of q] dot_segment_cut by (simp add: after_slashes_split)

text \<open>A dot-segment opens at an offset; the search visits the dots and percent signs.\<close>

definition opens :: "bytes \<Rightarrow> nat \<Rightarrow> bool" where
  "opens path at \<longleftrightarrow> at \<le> length path \<and> path ! (at - 1) = CHR ''/'' \<and> dot_segment (drop at path) \<noteq> None"

abbreviation dotty :: "char \<Rightarrow> bool" where
  "dotty \<equiv> \<lambda>b. b = CHR ''.'' \<or> b = CHR ''%''"

lemma opens_dotty: "opens path at \<Longrightarrow> at < length path \<and> dotty (path ! at)"
proof -
  assume "opens path at"
  then obtain b r where "drop at path = b # r" "dotty b" using dot_segment_opens unfolding opens_def by blast
  then show ?thesis by (metis drop_eq_Nil leI list.distinct(1) nth_via_drop)
qed

lemma nothing_opens:
  assumes "position dotty (drop from path) = None" "from \<le> at"
  shows "\<not> opens path at"
proof
  assume "opens path at"
  note d = opens_dotty [OF this]
  then have "drop from path ! (at - from) \<in> set (drop from path)" using assms(2) by (intro nth_mem) (simp add: diff_less_mono)
  then have "\<not> dotty (drop from path ! (at - from))" by (rule position_NoneD [OF assms(1)])
  then show False using d assms(2) by simp
qed

lemma opens_next:
  assumes "position dotty (drop from path) = Some i"
  shows "(\<exists>k \<ge> from. opens path k) \<longleftrightarrow> opens path (from + i) \<or> (\<exists>k \<ge> from + i + 1. opens path k)"
proof
  assume "\<exists>k \<ge> from. opens path k"
  then obtain k where k: "from \<le> k" "opens path k" by blast
  have "\<not> k < from + i"
  proof
    assume "k < from + i"
    then have "\<not> dotty (drop from path ! (k - from))" using position_SomeD [OF assms] k(1) by auto
    then show False using opens_dotty [OF k(2)] k(1) by simp
  qed
  then have "k = from + i \<or> k \<ge> from + i + 1" by linarith
  then show "opens path (from + i) \<or> (\<exists>k \<ge> from + i + 1. opens path k)" using k by blast
next
  assume "opens path (from + i) \<or> (\<exists>k \<ge> from + i + 1. opens path k)"
  then show "\<exists>k \<ge> from. opens path k" by (meson add_leD1 le_add1)
qed

lemma normalize_from_iff:
  assumes "\<exists>t \<in> set (after_slashes path). dot_segment t = Some WithParams \<Longrightarrow> remove_dot_segments path = None"
    and "1 \<le> from"
  shows "normalize_from path from = (if \<exists>at \<ge> from. opens path at then remove_dot_segments path else Some path)"
  using assms
proof (induction path "from" rule: normalize_from.induct)
  case (1 path "from")
  show ?case
  proof (cases "position dotty (drop from path)")
    case None
    then show ?thesis using nothing_opens [OF None] by (auto simp: normalize_from.simps [of path])
  next
    case (Some i)
    define at where "at = from + i"
    have i: "at < length path" using position_SomeD [OF Some] by (auto simp: at_def)
    note split = opens_next [OF Some, folded at_def]
    have step: "normalize_from path from =
       (if path ! (at - 1) = CHR ''/''
        then (case dot_segment (drop at path) of
                Some (Segment _) \<Rightarrow> remove_dot_segments path | Some WithParams \<Rightarrow> None
              | None \<Rightarrow> normalize_from path (at + 1))
        else normalize_from path (at + 1))"
      unfolding normalize_from.simps [of path "from"] Some option.case Let_def at_def by (rule refl)
    show ?thesis
    proof (cases "opens path at")
      case True
      then obtain d where d: "dot_segment (drop at path) = Some d" and sl: "path ! (at - 1) = CHR ''/''"
        by (auto simp: opens_def)
      have "drop at path \<in> set (after_slashes path)"
        using sl i "1.prems"(2) by (auto simp: in_after_slashes at_def intro!: exI [of _ at])
      then have "remove_dot_segments path = None" if "d = WithParams" using d that "1.prems"(1) by blast
      then show ?thesis using step d sl True split by (cases d) auto
    next
      case False
      then have "normalize_from path (at + 1) = (if \<exists>k \<ge> at + 1. opens path k then remove_dot_segments path else Some path)"
        using "1.IH"(1) [OF Some at_def] "1.IH"(2) [OF Some at_def] i "1.prems"
        by (cases "path ! (at - 1) = CHR ''/''") (simp_all add: opens_def)
      then show ?thesis using step False split i by (auto simp: opens_def)
    qed
  qed
qed

section \<open>Normalized paths\<close>

lemma normalize_path_eq:
  "normalize_path (CHR ''/'' # q) =
     (if \<exists>s \<in> set (split_on (CHR ''/'') q). dot_segment s = Some WithParams then None
      else Some (path_of (resolve [] (split_on (CHR ''/'') q))))"
proof -
  let ?p = "CHR ''/'' # q" and ?ss = "split_on (CHR ''/'') q"
  have ns: "\<forall>s \<in> set ?ss. CHR ''/'' \<notin> set s" by (intro ballI split_on_no_sep)
  have none: "remove_dot_segments ?p = None" if "\<exists>t \<in> set (after_slashes ?p). dot_segment t = Some WithParams"
    using that remove_loop_params dot_segments_after [of q "\<lambda>d. d = Some WithParams"] by (simp add: remove_dot_segments_def)
  have some: "remove_dot_segments ?p = Some (path_of (resolve [] ?ss))"
    if "\<not> (\<exists>s \<in> set ?ss. dot_segment s = Some WithParams)"
    using that remove_loop_resolve [of "[]" ?ss] ns by (auto simp: remove_dot_segments_def)
  have ex: "(\<exists>at \<ge> 1. opens ?p at) \<longleftrightarrow>
      (\<exists>s \<in> set ?ss. dot_segment s \<noteq> None)"
    using dot_segments_after [of q "\<lambda>d. d \<noteq> None"] unfolding Bex_def [of "set (after_slashes _)"] in_after_slashes opens_def
    by (simp only:) blast
  have "normalize_path ?p = (if \<exists>s \<in> set ?ss. dot_segment s \<noteq> None then remove_dot_segments ?p else Some ?p)"
    using normalize_from_iff [OF none, of 1] ex by (simp add: normalize_path_def get_def)
  moreover have "Some ?p = Some (path_of (resolve [] ?ss))" if "\<not> (\<exists>s \<in> set ?ss. dot_segment s \<noteq> None)"
    using that resolve_id [of ?ss "[]"] path_of_split [of q] by simp
  moreover have "remove_dot_segments ?p = None" if "\<exists>s \<in> set ?ss. dot_segment s = Some WithParams"
    using none that dot_segments_after [of q "\<lambda>d. d = Some WithParams"] by blast
  ultimately show ?thesis using some by (auto split: if_splits)
qed

lemma normalize_other: "p = [] \<or> hd p \<noteq> CHR ''/'' \<Longrightarrow> normalize_path p = Some p"
  by (cases p) (auto simp: normalize_path_def)

lemma dot_segment_Nil [simp]: "dot_segment [] = None"
  by (simp add: dot_segment_def dot_segment_from.simps)

lemma resolve_no_dots:
  assumes "\<forall>s \<in> set done. dot_segment s = None"
  shows "\<forall>s \<in> set (resolve done ss). dot_segment s = None"
  using assms
proof (induction ss arbitrary: "done")
  case (Cons s ss)
  then show ?case by (auto simp: Let_def dest: in_set_butlastD split: option.split intro!: Cons.IH)
qed simp

lemma resolve_no_slash:
  assumes "\<forall>s \<in> set done \<union> set ss. CHR ''/'' \<notin> set s"
  shows "\<forall>s \<in> set (resolve done ss). CHR ''/'' \<notin> set s"
  using assms
proof (induction ss arbitrary: "done")
  case (Cons s ss)
  then show ?case by (auto simp: Let_def dest: in_set_butlastD split: option.split intro!: Cons.IH)
qed simp

lemma path_of_butlast: "length (path_of (butlast xs)) \<le> length (path_of xs)"
  by (cases xs rule: rev_cases) simp_all

lemma resolve_length: "length (path_of (resolve done ss)) \<le> length (path_of done) + length (path_of ss)"
proof (induction ss arbitrary: "done")
  case (Cons s ss)
  let ?d = "the (dot_segment s)"
  let ?kept = "if ?d = Segment 1 then done else butlast done"
  have k: "length (path_of ?kept) \<le> length (path_of done)" using path_of_butlast [of "done"] by simp
  show ?case
    using Cons.IH [of "done @ [s]"] Cons.IH [of ?kept] k
    by (cases "dot_segment s"; cases "ss = []") (simp_all add: Let_def)
qed simp

lemma resolve_nonempty: "ss \<noteq> [] \<Longrightarrow> resolve done ss \<noteq> []"
proof (induction ss arbitrary: "done")
  case (Cons s ss)
  then show ?case by (cases "ss = []") (auto simp: Let_def split: option.split)
qed simp

lemma split_path_of:
  assumes "xs \<noteq> []" "\<forall>s \<in> set xs. CHR ''/'' \<notin> set s"
  shows "\<exists>q. path_of xs = CHR ''/'' # q \<and> split_on (CHR ''/'') q = xs"
  using assms
proof (induction xs)
  case (Cons x xs)
  show ?case
  proof (cases xs)
    case Nil
    then show ?thesis using Cons.prems split_on_id by simp
  next
    case (Cons y ys)
    then obtain q where "path_of xs = CHR ''/'' # q" "split_on (CHR ''/'') q = xs"
      using Cons.IH Cons.prems by auto
    then show ?thesis using Cons.prems split_on_append_sep [of "CHR ''/''" x q] split_on_id [of "CHR ''/''" x] by simp
  qed
qed simp

text \<open>
  C33. A path is normalized as RFC 3986 resolves its segments, a dot written plainly or escaped;
  it is refused exactly when a dot-segment carries path parameters. Targets that are no paths pass.
\<close>

theorem normalize_resolves:
  "normalize_path p =
     (case p of
        b # q \<Rightarrow>
          if b \<noteq> CHR ''/'' then Some p
          else if list_ex (\<lambda>s. dot_segment s = Some WithParams) (split_on (CHR ''/'') q) then None
          else Some (path_of (resolve [] (split_on (CHR ''/'') q)))
      | [] \<Rightarrow> Some p)"
  by (cases p) (auto simp: normalize_path_eq normalize_other list_ex_iff)

text \<open>
  C34. The path routed and forwarded holds no dot-segment a backend could resolve to another one:
  it still starts at the root, normalizing it again changes nothing, and it is no longer than
  what the client sent.
\<close>

theorem normalized_is_final:
  assumes "normalize_path (CHR ''/'' # q) = Some r"
  shows "(\<exists>t. r = CHR ''/'' # t \<and> list_all (\<lambda>s. dot_segment s = None) (split_on (CHR ''/'') t)) \<and>
    normalize_path r = Some r \<and> length r \<le> Suc (length q)"
proof -
  define xs where "xs = resolve [] (split_on (CHR ''/'') q)"
  have r: "r = path_of xs" using assms by (simp add: normalize_path_eq xs_def split: if_splits)
  have n: "\<forall>s \<in> set xs. dot_segment s = None" unfolding xs_def by (rule resolve_no_dots) simp
  have "\<forall>s \<in> set xs. CHR ''/'' \<notin> set s"
    unfolding xs_def by (rule resolve_no_slash) (auto dest: split_on_no_sep)
  then obtain t where t: "r = CHR ''/'' # t" "split_on (CHR ''/'') t = xs"
    using split_path_of [of xs] resolve_nonempty [of "split_on (CHR ''/'') q" "[]"] unfolding r xs_def by auto
  have "length r \<le> Suc (length q)"
    using resolve_length [of "[]" "split_on (CHR ''/'') q"] path_of_split [of q] by (simp add: r xs_def)
  moreover have "normalize_path r = Some r"
    using n resolve_id [of xs "[]"] r unfolding t(1) normalize_path_eq t(2) by auto
  ultimately show ?thesis using t n by (auto simp: list_all_iff)
qed

theorem normalized_is_final_witness:
  "normalize_path ''/public/%2e./admin/.'' = Some ''/admin/'' \<and> normalize_path ''/admin/'' = Some ''/admin/''"
proof -
  have "normalize_path ''/public/%2e./admin/.'' = Some ''/admin/''" by code_simp
  then show ?thesis using normalized_is_final [of "''public/%2e./admin/.''"] by simp
qed

end
