(* ===== verification/Http_Filters.thy ===== *)
theory Http_Filters
  imports Http_Parser Route_Table
begin

text \<open>
  What goes out for a request and for a response: \<open>src/src/proxy/http_filters.rs\<close> and
  \<open>build_outgoing_headers\<close> of \<open>src/src/proxy/worker.rs\<close>. Heads are assembled by copying the
  gaps between the spans the parsers recorded, or line by line on a slow path; filters then
  rewrite lines. A buffer written by the code is the list a definition returns.
\<close>

section \<open>Lines\<close>

function header_lines_from :: "bytes \<Rightarrow> nat \<Rightarrow> bytes list" where
  "header_lines_from raw pos =
     (if pos < length raw
      then let stop = (case memchr (CHR 0x0A) (drop pos raw) of Some p \<Rightarrow> pos + p | None \<Rightarrow> length raw);
               line = (if stop > pos \<and> raw ! (stop - 1) = CHR 0x0D then subslice pos (stop - 1) raw
                       else subslice pos stop raw)
           in (if line \<noteq> [] then [line] else []) @ header_lines_from raw (stop + 1)
      else [])"
  by pat_completeness auto
termination
  by (relation "measure (\<lambda>(raw, pos). length raw - pos)")
    (auto simp: memchr_def split: option.splits dest!: position_SomeD)

definition header_lines :: "bytes \<Rightarrow> bytes list" where
  "header_lines raw = header_lines_from raw 0"

text \<open>\<open>str::trim\<close>: the code points of Unicode's \<open>White_Space\<close>, as UTF-8 writes them.\<close>

definition white_space :: "bytes list" where
  "white_space =
     map (\<lambda>n. [char_of (n :: nat)]) [0x09, 0x0A, 0x0B, 0x0C, 0x0D, 0x20] @
     map (map (char_of :: nat \<Rightarrow> char)) ([[0xC2, 0x85], [0xC2, 0xA0], [0xE1, 0x9A, 0x80]] @
       map (\<lambda>n. [0xE2, 0x80, n]) ([0x80..<0x8B] @ [0xA8, 0xA9, 0xAF]) @ [[0xE2, 0x81, 0x9F], [0xE3, 0x80, 0x80]])"

function trim_start :: "bytes list \<Rightarrow> bytes \<Rightarrow> bytes" where
  "trim_start ws s =
     (case find (\<lambda>w. w \<noteq> [] \<and> starts_with s w) ws of
        Some w \<Rightarrow> trim_start ws (drop (length w) s) | None \<Rightarrow> s)"
  by pat_completeness auto
termination
  by (relation "measure (\<lambda>(ws, s). length s)") (auto simp: find_Some_iff starts_with_iff)

declare header_lines_from.simps [simp del] trim_start.simps [simp del]

definition str_trim :: "bytes \<Rightarrow> bytes" where
  "str_trim s = rev (trim_start (map rev white_space) (rev (trim_start white_space s)))"

definition header_value_if :: "bytes \<Rightarrow> bytes \<Rightarrow> bytes option" where
  "header_value_if line name =
     (case memchr (CHR '':'') line of
        None \<Rightarrow> None
      | Some p \<Rightarrow>
          if \<not> eq_ignore_ascii_case (take p line) name then None
          else if is_utf8 (drop (p + 1) line) then Some (str_trim (drop (p + 1) line)) else None)"

definition is_hop_by_hop_request_header :: "bytes \<Rightarrow> bool" where
  "is_hop_by_hop_request_header name \<longleftrightarrow>
     (case name of [] \<Rightarrow> False | b # _ \<Rightarrow>
        let c = u8_to_ascii_lowercase b in
        if c = CHR ''c'' then eq_ignore_ascii_case name ''connection''
        else if c = CHR ''k'' then eq_ignore_ascii_case name ''keep-alive''
        else if c = CHR ''p'' then eq_ignore_ascii_case name ''proxy-connection''
        else if c = CHR ''t'' then eq_ignore_ascii_case name ''te'' \<or> eq_ignore_ascii_case name ''trailer''
        else if c = CHR ''e'' then eq_ignore_ascii_case name ''expect''
        else if c = CHR ''h'' then eq_ignore_ascii_case name ''http2-settings''
        else if c = CHR ''f'' \<or> c = CHR ''x'' then is_forwarding_claim name
        else False)"

definition is_hop_by_hop_response_header :: "bytes \<Rightarrow> bool" where
  "is_hop_by_hop_response_header name \<longleftrightarrow>
     (case name of [] \<Rightarrow> False | b # _ \<Rightarrow>
        let c = u8_to_ascii_lowercase b in
        if c = CHR ''c'' then eq_ignore_ascii_case name ''connection''
        else if c = CHR ''k'' then eq_ignore_ascii_case name ''keep-alive''
        else if c = CHR ''p'' then eq_ignore_ascii_case name ''proxy-connection''
        else if c = CHR ''t'' then eq_ignore_ascii_case name ''te'' \<or> eq_ignore_ascii_case name ''trailer''
        else if c = CHR ''u'' then eq_ignore_ascii_case name ''upgrade''
        else False)"

section \<open>Request lines\<close>

definition target_bounds :: "bytes \<Rightarrow> (nat \<times> nat) option" where
  "target_bounds line =
     (case memchr (CHR '' '') line of
        None \<Rightarrow> None
      | Some i \<Rightarrow> let start = i + 1 in
          (case memchr (CHR '' '') (drop start line) of None \<Rightarrow> None | Some j \<Rightarrow> Some (start, start + j)))"

definition query_glue :: "bytes \<Rightarrow> bytes" where
  "query_glue value_query = (if value_query = [] \<or> ends_with value_query ''&'' then [] else ''&'')"

definition put_request_line :: "bytes \<Rightarrow> bytes \<Rightarrow> bytes option \<Rightarrow> bytes" where
  "put_request_line line path value_query =
     (case target_bounds line of
        None \<Rightarrow> line
      | Some (start, stop) \<Rightarrow>
          let query = (case memchr (CHR ''?'') (subslice start stop line) of Some q \<Rightarrow> start + q | None \<Rightarrow> stop)
          in take start line @ path @
             (case value_query of
                None \<Rightarrow> subslice query stop line
              | Some vq \<Rightarrow> CHR ''?'' # vq @
                  (if stop > query + 1 then query_glue vq @ subslice (query + 1) stop line else [])) @
             drop stop line)"

section \<open>Forwarding a request head\<close>

definition put_host :: "bytes \<Rightarrow> bytes" where
  "put_host authority = ''Host: '' @ authority @ CRLF"

definition IP_TEXT_MAX :: nat where "IP_TEXT_MAX = 6 * 5 + 15"
definition FORWARDED_CAP :: nat where
  "FORWARDED_CAP = length (''X-Forwarded-For: '' @ CRLF @ ''X-Forwarded-Proto: https'' @ CRLF) + IP_TEXT_MAX"

text \<open>\<open>ip_text\<close> is how the standard library prints an address. The write stops at the buffer's end.\<close>

definition forwarded_lines :: "(ip_addr \<Rightarrow> bytes) \<Rightarrow> ip_addr \<Rightarrow> bool \<Rightarrow> bytes" where
  "forwarded_lines ip_text client_ip is_tls =
     take FORWARDED_CAP (''X-Forwarded-For: '' @ ip_text client_ip @ CRLF @ ''X-Forwarded-Proto: '' @
       (if is_tls then ''https'' else ''http'') @ CRLF)"

type_synonym span = "u32 \<times> u32"

record origin_form =
  of_authority :: bytes
  of_host_line :: "span option"

function host_line_from :: "bytes \<Rightarrow> nat \<Rightarrow> span option" where
  "host_line_from raw start =
     (case memchr (CHR 0x0A) (drop start raw) of
        None \<Rightarrow> None
      | Some len \<Rightarrow>
          let stop = start + len + 1 in
          if stop - start \<ge> 5 \<and> eq_ignore_ascii_case (take 5 (subslice start stop raw)) ''host:''
          then Some (word_of_nat start, word_of_nat stop)
          else host_line_from raw stop)"
  by pat_completeness auto
termination
  by (relation "measure (\<lambda>(raw, start). Suc (length raw) - start)")
    (auto simp: memchr_def dest!: position_SomeD)

declare host_line_from.simps [simp del]

definition host_line :: "bytes \<Rightarrow> span option" where
  "host_line raw = (case memchr (CHR 0x0A) raw of None \<Rightarrow> None | Some i \<Rightarrow> host_line_from raw (i + 1))"

definition origin_form_of :: "bytes \<Rightarrow> span option \<Rightarrow> origin_form option" where
  "origin_form_of raw path_span =
     (let path_start = map_option (\<lambda>(s, _). unat s) path_span in
      if (case path_start of Some s \<Rightarrow> raw ! (s - 1) = CHR '' '' | None \<Rightarrow> False) then None
      else case memchr (CHR '' '') raw of
        None \<Rightarrow> None
      | Some i \<Rightarrow> let target = i + 1 in
          if get raw target = None \<or> get raw target = Some (CHR ''/'') \<or> get raw target = Some (CHR ''*'') then None
          else let start = target + (if get raw (target + 4) = Some (CHR '':'') then 7 else 8) in
            (case (case path_start of
                     Some s \<Rightarrow> Some s
                   | None \<Rightarrow> map_option ((+) start) (memchr (CHR '' '') (drop start raw))) of
               None \<Rightarrow> None
             | Some stop \<Rightarrow> Some \<lparr>of_authority = subslice start stop raw, of_host_line = host_line raw\<rparr>))"

definition append_forward_headers :: "bytes \<Rightarrow> bool \<Rightarrow> origin_form option \<Rightarrow> bytes" where
  "append_forward_headers forwarded keep_upgrade origin =
     forwarded @ (if keep_upgrade then ''Connection: upgrade'' @ CRLF else []) @
     (case origin of
        Some og \<Rightarrow> if of_host_line og = None then put_host (of_authority og) else []
      | None \<Rightarrow> [])"

definition unspan :: "span \<Rightarrow> nat \<times> nat" where
  "unspan = (\<lambda>(s, e). (unat s, unat e))"

text \<open>
  The gap copies. \<open>cut\<close> copies up to a line outside the spans and replaces it; a state is the
  cursor, the output and the lines still to cut.
\<close>

definition cut_line :: "bytes \<Rightarrow> origin_form option \<Rightarrow> (nat \<times> nat) option \<Rightarrow> nat \<times> nat \<Rightarrow> nat \<times> bytes \<Rightarrow> nat \<times> bytes" where
  "cut_line raw origin hl se st =
     (snd se, snd st @ subslice (fst st) (fst se) raw @
        (case origin of Some og \<Rightarrow> if Some se = hl then put_host (of_authority og) else [] | None \<Rightarrow> []))"

fun cut_before :: "(nat \<times> nat \<Rightarrow> nat \<times> bytes \<Rightarrow> nat \<times> bytes) \<Rightarrow> nat \<Rightarrow> (nat \<times> nat) list \<Rightarrow> nat \<times> bytes \<Rightarrow>
    (nat \<times> nat) list \<times> nat \<times> bytes" where
  "cut_before ct s [] st = ([], st)"
| "cut_before ct s (l # ls) st = (if fst l < s then cut_before ct s ls (ct l st) else (l # ls, st))"

fun copy_gaps :: "bytes \<Rightarrow> (nat \<times> nat \<Rightarrow> nat \<times> bytes \<Rightarrow> nat \<times> bytes) \<Rightarrow> (nat \<times> nat) list \<Rightarrow> (nat \<times> nat) list \<Rightarrow>
    nat \<times> bytes \<Rightarrow> nat \<times> bytes" where
  "copy_gaps raw ct [] ls st = fold ct ls st"
| "copy_gaps raw ct ((s, e) # ss) ls st =
     (case cut_before ct s ls st of
        (ls', cursor, out) \<Rightarrow> copy_gaps raw ct ss ls' (e, out @ subslice cursor s raw))"

definition lex_less :: "nat \<times> nat \<Rightarrow> nat \<times> nat \<Rightarrow> bool" where
  "lex_less a b \<longleftrightarrow> fst a < fst b \<or> fst a = fst b \<and> snd a < snd b"

text \<open>The lines cut besides the spans, in head order.\<close>

definition other_lines :: "(nat \<times> nat) option \<Rightarrow> (nat \<times> nat) option \<Rightarrow> (nat \<times> nat) list" where
  "other_lines strip_upgrade hl =
     (case (strip_upgrade, hl) of
        (Some u, Some h) \<Rightarrow> if lex_less h u then [h, u] else [u, h]
      | (Some u, None) \<Rightarrow> [u] | (None, Some h) \<Rightarrow> [h] | (None, None) \<Rightarrow> [])"

definition assemble_forward_headers :: "bytes \<Rightarrow> bytes option \<Rightarrow> strip_spans \<Rightarrow> span option \<Rightarrow> bool \<Rightarrow>
    origin_form option \<Rightarrow> bytes \<Rightarrow> bytes" where
  "assemble_forward_headers raw path sp upgrade_span keep_upgrade origin forwarded =
     (let terminator_start = length raw - 2;
          strip_upgrade = (if keep_upgrade then None else map_option unspan upgrade_span);
          hl = (case origin of None \<Rightarrow> None | Some og \<Rightarrow> map_option unspan (of_host_line og));
          st = (case path of
                  None \<Rightarrow> (0, [])
                | Some p \<Rightarrow> let cursor = (case memchr (CHR 0x0D) raw of Some i \<Rightarrow> i | None \<Rightarrow> 0)
                            in (cursor, put_request_line (take cursor raw) p None))
      in case copy_gaps raw (cut_line raw origin hl) (iter_spans sp) (other_lines strip_upgrade hl) st of
           (cursor, out) \<Rightarrow>
             out @ subslice cursor terminator_start raw @ append_forward_headers forwarded keep_upgrade origin @ CRLF)"

text \<open>The slow path, line by line.\<close>

definition nominated_by :: "bytes \<Rightarrow> bytes list" where
  "nominated_by line =
     (case header_value_if line ''connection'' of
        None \<Rightarrow> []
      | Some value \<Rightarrow>
          filter (\<lambda>token. token \<noteq> [] \<and> \<not> list_ex (eq_ignore_ascii_case token)
              [''content-length'', ''transfer-encoding'', ''host''])
            (map str_trim (split_on (CHR '','') value)))"

definition slow_line :: "bool \<Rightarrow> origin_form option \<Rightarrow> bytes list \<Rightarrow> bytes \<Rightarrow> bytes" where
  "slow_line keep_upgrade origin nominated line =
     (case memchr (CHR '':'') line of
        None \<Rightarrow> line @ CRLF
      | Some name_end \<Rightarrow>
          let name = take name_end line in
          if origin \<noteq> None \<and> eq_ignore_ascii_case name ''host'' then put_host (of_authority (the origin))
          else let strip = (if eq_ignore_ascii_case name ''upgrade'' then \<not> keep_upgrade
                            else is_hop_by_hop_request_header name \<or> list_ex (eq_ignore_ascii_case name) nominated)
            in if strip then [] else line @ CRLF)"

definition assemble_forward_headers_slow :: "bytes \<Rightarrow> bytes option \<Rightarrow> bool \<Rightarrow> origin_form option \<Rightarrow> bytes \<Rightarrow> bytes" where
  "assemble_forward_headers_slow raw path keep_upgrade origin forwarded =
     (let lines = header_lines raw; nominated = concat (map nominated_by lines)
      in (case lines of
            [] \<Rightarrow> []
          | line # rest \<Rightarrow>
              (case path of Some p \<Rightarrow> put_request_line line p None | None \<Rightarrow> line) @ CRLF @
              concat (map (slow_line keep_upgrade origin nominated) rest)) @
         append_forward_headers forwarded keep_upgrade origin @ CRLF)"

section \<open>Sanitizing a response head\<close>

record response_cuts =
  rc_strip :: strip_spans
  rc_length :: "(span \<times> span) option"

definition put_length :: "bytes \<Rightarrow> bool \<Rightarrow> span \<times> span \<Rightarrow> nat \<times> bytes \<Rightarrow> nat \<times> bytes" where
  "put_length raw keep_length l st =
     (case l of ((s, e), (ds, de)) \<Rightarrow>
        (unat e, snd st @ subslice (fst st) (unat s) raw @
           (if keep_length then ''Content-Length: '' @ subslice (unat ds) (unat de) raw @ CRLF else [])))"

fun copy_cuts :: "bytes \<Rightarrow> bool \<Rightarrow> (nat \<times> nat) list \<Rightarrow> (span \<times> span) option \<Rightarrow> nat \<times> bytes \<Rightarrow> nat \<times> bytes" where
  "copy_cuts raw keep [] l st = (case l of Some line \<Rightarrow> put_length raw keep line st | None \<Rightarrow> st)"
| "copy_cuts raw keep ((s, e) # ss) l st =
     (case (case l of
              Some line \<Rightarrow> if unat (fst (fst line)) < s then (None, put_length raw keep line st) else (l, st)
            | None \<Rightarrow> (None, st)) of
        (l', cursor, out) \<Rightarrow> copy_cuts raw keep ss l' (e, out @ subslice cursor s raw))"

definition copy_around_cuts :: "bytes \<Rightarrow> bool \<Rightarrow> response_cuts \<Rightarrow> bytes" where
  "copy_around_cuts raw keep_length cuts =
     (case copy_cuts raw keep_length (iter_spans (rc_strip cuts)) (rc_length cuts) (0, []) of
        (cursor, out) \<Rightarrow> out @ subslice cursor (length raw - 2) raw)"

fun decimal_text :: "nat \<Rightarrow> bytes" where
  "decimal_text n = (if n < 10 then [char_of (48 + n)] else decimal_text (n div 10) @ [char_of (48 + n mod 10)])"

declare decimal_text.simps [simp del]

text \<open>\<open>content_length.take()\<close> leaves \<open>None\<close> for the lines after.\<close>

fun sanitize_lines :: "nat option \<Rightarrow> bytes list \<Rightarrow> bytes" where
  "sanitize_lines content_length [] = []"
| "sanitize_lines content_length (line # lines) =
     (case memchr (CHR '':'') line of
        Some p \<Rightarrow>
          if eq_ignore_ascii_case (take p line) ''content-length''
          then (case content_length of Some n \<Rightarrow> ''Content-Length: '' @ decimal_text n @ CRLF | None \<Rightarrow> []) @
               sanitize_lines None lines
          else (if is_hop_by_hop_response_header (take p line) then [] else line @ CRLF) @
               sanitize_lines content_length lines
      | None \<Rightarrow> line @ CRLF @ sanitize_lines content_length lines)"

definition copy_lines_sanitized :: "bytes \<Rightarrow> nat option \<Rightarrow> bytes" where
  "copy_lines_sanitized raw content_length =
     (case header_lines raw of
        [] \<Rightarrow> []
      | status_line # lines \<Rightarrow> status_line @ CRLF @ sanitize_lines content_length lines)"

definition sanitize_response_headers :: "bytes \<Rightarrow> nat option \<Rightarrow> response_cuts option \<Rightarrow> bool \<Rightarrow> bytes" where
  "sanitize_response_headers raw content_length cuts client_close =
     (case cuts of
        Some c \<Rightarrow> copy_around_cuts raw (content_length \<noteq> None) c
      | None \<Rightarrow> copy_lines_sanitized raw content_length) @
     (if client_close then ''Connection: close'' @ CRLF else []) @ CRLF"

section \<open>Filters\<close>

definition prefix_remainder :: "bytes \<Rightarrow> bytes \<Rightarrow> bytes" where
  "prefix_remainder rule_path request_path =
     (case strip_prefix request_path rule_path of Some r \<Rightarrow> r | None \<Rightarrow> [])"

definition join_prefix_path :: "bytes \<Rightarrow> bytes \<Rightarrow> bytes" where
  "join_prefix_path pre rest =
     (let pre = (if ends_with pre ''/'' \<and> starts_with rest ''/'' then take (length pre - 1) pre else pre);
          needs_slash = (\<not> ends_with pre ''/'' \<and> \<not> starts_with rest ''/'' \<and> rest \<noteq> []);
          result = pre @ (if needs_slash then ''/'' else []) @ rest
      in if result = [] then ''/'' else result)"

record header_modifications =
  md_add :: "http_header list"
  md_set :: "http_header list"
  md_remove :: "bytes list"

fun extract_header_mods :: "http_filter list \<Rightarrow> bool \<Rightarrow> header_modifications option" where
  "extract_header_mods [] is_response = None"
| "extract_header_mods (f # fs) is_response =
     (case f of
        RequestHeaderModifier a s r \<Rightarrow>
          if \<not> is_response then Some \<lparr>md_add = a, md_set = s, md_remove = r\<rparr> else extract_header_mods fs is_response
      | ResponseHeaderModifier a s r \<Rightarrow>
          if is_response then Some \<lparr>md_add = a, md_set = s, md_remove = r\<rparr> else extract_header_mods fs is_response
      | _ \<Rightarrow> extract_header_mods fs is_response)"

record rewritten_path =
  rp_path :: bytes
  rp_query :: "bytes option"

record url_rewrite =
  ur_hostname :: "bytes option"
  ur_path :: "rewritten_path option"

fun rewrite_path :: "bytes \<Rightarrow> bytes \<Rightarrow> url_rewrite_path \<Rightarrow> rewritten_path" where
  "rewrite_path rule_path request_path (ReplaceFullPath v) = \<lparr>rp_path = pv_path v, rp_query = pv_query v\<rparr>"
| "rewrite_path rule_path request_path (ReplacePrefixMatch v) =
     \<lparr>rp_path = join_prefix_path (pv_path v) (prefix_remainder rule_path request_path), rp_query = pv_query v\<rparr>"

fun extract_url_rewrite :: "http_filter list \<Rightarrow> bytes \<Rightarrow> bytes \<Rightarrow> url_rewrite option" where
  "extract_url_rewrite [] rule_path request_path = None"
| "extract_url_rewrite (f # fs) rule_path request_path =
     (case f of
        URLRewrite hostname path \<Rightarrow>
          Some \<lparr>ur_hostname = hostname, ur_path = map_option (rewrite_path rule_path request_path) path\<rparr>
      | _ \<Rightarrow> extract_url_rewrite fs rule_path request_path)"

definition header_text :: "http_header \<Rightarrow> bytes" where
  "header_text h = h_name h @ '': '' @ h_value h @ CRLF"

text \<open>
  One line under the modifications: its output, the flags of the \<open>set\<close> headers it replaced, and
  whether a rewritten Host is still missing.
\<close>

definition mod_line :: "header_modifications option \<Rightarrow> bytes option \<Rightarrow> bytes \<Rightarrow>
    bytes \<times> bool list \<times> bytes option \<Rightarrow> bytes \<times> bool list \<times> bytes option" where
  "mod_line mods rewrite_hostname line st =
     (case st of (out, set_applied, host_missing) \<Rightarrow>
      case memchr (CHR '':'') line of
        None \<Rightarrow> (out @ line @ CRLF, set_applied, host_missing)
      | Some colon_pos \<Rightarrow>
          let name = take colon_pos line in
          if rewrite_hostname \<noteq> None \<and> eq_ignore_ascii_case name ''host''
          then (out @ ''Host: '' @ the rewrite_hostname @ CRLF, set_applied, None)
          else (case mods of
                  None \<Rightarrow> (out @ line @ CRLF, set_applied, host_missing)
                | Some m \<Rightarrow>
                    if list_ex (\<lambda>r. eq_ignore_ascii_case r name) (md_remove m) then (out, set_applied, host_missing)
                    else (case position (\<lambda>h. eq_ignore_ascii_case (h_name h) name) (md_set m) of
                            Some idx \<Rightarrow> (out @ header_text (md_set m ! idx), set_applied[idx := True], host_missing)
                          | None \<Rightarrow> (out @ line @ CRLF, set_applied, host_missing))))"

definition apply_header_mods_inner :: "bytes \<Rightarrow> header_modifications option \<Rightarrow> bytes option \<Rightarrow> bytes" where
  "apply_header_mods_inner raw mods rewrite_hostname =
     (case fold (mod_line mods rewrite_hostname) (header_lines raw)
             ([], case mods of Some m \<Rightarrow> replicate (length (md_set m)) False | None \<Rightarrow> [], rewrite_hostname) of
        (out, set_applied, host_missing) \<Rightarrow>
          out @ (case host_missing of Some h \<Rightarrow> ''Host: '' @ h @ CRLF | None \<Rightarrow> []) @
          (case mods of
             None \<Rightarrow> []
           | Some m \<Rightarrow> concat (map (\<lambda>(h, applied). if applied then [] else header_text h) (zip (md_set m) set_applied)) @
                        concat (map header_text (md_add m))) @ CRLF)"

definition strip_suffix_byte :: "char \<Rightarrow> bytes \<Rightarrow> bytes" where
  "strip_suffix_byte b s = (if ends_with s [b] then take (length s - 1) s else s)"

definition split_first_line :: "bytes \<Rightarrow> bytes \<times> bytes" where
  "split_first_line raw =
     (let nl = (case memchr (CHR 0x0A) raw of Some p \<Rightarrow> p + 1 | None \<Rightarrow> length raw)
      in (strip_suffix_byte (CHR 0x0D) (strip_suffix_byte (CHR 0x0A) (take nl raw)), drop nl raw))"

definition rewrite_request_head :: "bytes \<Rightarrow> (bytes \<times> bytes option) option \<Rightarrow> header_modifications option \<Rightarrow>
    bytes option \<Rightarrow> bytes" where
  "rewrite_request_head header_region path header_mods rewrite_hostname =
     (case split_first_line header_region of (first_line, rest) \<Rightarrow>
        (case path of Some (p, vq) \<Rightarrow> put_request_line first_line p vq | None \<Rightarrow> first_line) @ CRLF @
        apply_header_mods_inner rest header_mods rewrite_hostname)"

definition apply_request_header_modifications :: "bytes \<Rightarrow> header_modifications option \<Rightarrow> url_rewrite option \<Rightarrow> bytes" where
  "apply_request_header_modifications header_region header_mods rewrite =
     rewrite_request_head header_region
       (case rewrite of None \<Rightarrow> None | Some r \<Rightarrow> map_option (\<lambda>p. (rp_path p, rp_query p)) (ur_path r))
       header_mods (case rewrite of None \<Rightarrow> None | Some r \<Rightarrow> ur_hostname r)"

definition apply_response_header_mods :: "bytes \<Rightarrow> header_modifications \<Rightarrow> bytes" where
  "apply_response_header_mods headers mods =
     (case split_first_line headers of (status_line, rest) \<Rightarrow>
        status_line @ CRLF @ apply_header_mods_inner rest (Some mods) None)"

text \<open>
  The mirrors dispatched for a request: each filter with the number its fraction draws and whether
  the semaphore grants it a permit.
\<close>

fun dispatch_mirrors :: "(http_filter \<times> nat \<times> bool) list \<Rightarrow> socket_addr list" where
  "dispatch_mirrors [] = []"
| "dispatch_mirrors ((f, draw, permit) # fs) =
     (case f of
        RequestMirror addr fraction \<Rightarrow>
          if \<not> sample fraction draw then dispatch_mirrors fs
          else if \<not> permit then dispatch_mirrors fs
          else addr # dispatch_mirrors fs
      | _ \<Rightarrow> dispatch_mirrors fs)"

end
