(* ===== verification/Head_Copy.thy ===== *)
theory Head_Copy
  imports Http_Filters
begin

text \<open>
  Heads as lists of lines, the spans of lines within them, and what copying the gaps between
  spans leaves of a head: the lemmas both forwarding paths rest on.
\<close>

section \<open>Heads as lines\<close>

definition lines_text :: "bytes list \<Rightarrow> bytes" where
  "lines_text ls = concat (map (\<lambda>l. l @ CRLF) ls)"

lemma lines_text_simps [simp]:
  "lines_text [] = []" "lines_text (l # ls) = l @ CRLF @ lines_text ls" "lines_text (xs @ ys) = lines_text xs @ lines_text ys"
  by (simp_all add: lines_text_def)

definition plain_line :: "bytes \<Rightarrow> bool" where
  "plain_line l \<longleftrightarrow> l \<noteq> [] \<and> CHR 0x0A \<notin> set l"

lemma header_lines_step:
  assumes "plain_line l"
  shows "header_lines_from (pre @ l @ CRLF @ rest) (length pre) =
    l # header_lines_from (pre @ l @ CRLF @ rest) (length pre + length l + 2)"
proof -
  have m: "memchr (CHR 0x0A) (l @ CHR 0x0D # CHR 0x0A # rest) = Some (Suc (length l))"
    using memchr_first [of "CHR 0x0A" "l @ [CHR 0x0D]" rest] assms by (simp add: plain_line_def)
  show ?thesis
    using assms m by (subst header_lines_from.simps) (simp add: Let_def nth_append subslice_def plain_line_def)
qed

lemma header_lines_end: "header_lines_from (pre @ CRLF) (length pre) = []"
proof -
  have "memchr (CHR 0x0A) CRLF = Some 1" by (simp add: memchr_def)
  then show ?thesis
    by (subst header_lines_from.simps) (simp add: Let_def nth_append subslice_def header_lines_from.simps)
qed

lemma header_lines_text_from:
  assumes "list_all plain_line ls"
  shows "header_lines_from (pre @ lines_text ls @ CRLF) (length pre) = ls"
  using assms
proof (induction ls arbitrary: pre)
  case Nil
  then show ?case using header_lines_end by simp
next
  case (Cons l ls)
  have "header_lines_from (pre @ l @ CRLF @ lines_text ls @ CRLF) (length pre) =
      l # header_lines_from ((pre @ l @ CRLF) @ lines_text ls @ CRLF) (length (pre @ l @ CRLF))"
    using header_lines_step [of l pre "lines_text ls @ CRLF"] Cons.prems by simp
  then show ?case using Cons.IH [of "pre @ l @ CRLF"] Cons.prems by simp
qed

lemma header_lines_text: "list_all plain_line ls \<Longrightarrow> header_lines (lines_text ls @ CRLF) = ls"
  using header_lines_text_from [of ls "[]"] by (simp add: header_lines_def)

definition field_line :: "bytes \<times> bytes \<Rightarrow> bytes" where
  "field_line f = fst f @ CHR '':'' # snd f"

definition first_line :: "bytes \<Rightarrow> bytes \<Rightarrow> bool \<Rightarrow> bytes" where
  "first_line m t h10 = m @ CHR '' '' # t @ (if h10 then '' HTTP/1.0'' else '' HTTP/1.1'')"

lemma line_bytes_line: "line_bytes f = field_line f @ CRLF"
  by (simp add: line_bytes_def field_line_def)

lemma field_text_lines: "field_text fs = lines_text (map field_line fs)"
  by (induction fs) (simp_all add: line_bytes_line)

lemma head_line_first: "head_line h = first_line (h_method h) (h_target h) (h_http10 h) @ CRLF"
  by (simp add: head_line_def request_line_def first_line_def version_text_def)

lemma print_head_lines:
  "print_head h = lines_text (first_line (h_method h) (h_target h) (h_http10 h) # map field_line (h_fields h)) @ CRLF"
  by (simp add: print_head_def head_line_first field_text_lines)

lemma no_LF:
  "is_token n \<Longrightarrow> CHR 0x0A \<notin> set n" "\<forall>b \<in> set v. is_class b VALUE \<Longrightarrow> CHR 0x0A \<notin> set v"
  "target_ok t \<Longrightarrow> CHR 0x0A \<notin> set t"
proof -
  have c: "\<not> is_class (CHR 0x0A) TCHAR" "\<not> is_class (CHR 0x0A) VALUE" "\<not> target_byte (CHR 0x0A)"
    by (simp_all add: class_iffs any_of_def TCHAR_MARKS_def ascii_defs target_byte_def)
  show "is_token n \<Longrightarrow> CHR 0x0A \<notin> set n" using c(1) by (auto simp: is_token_def)
  show "\<forall>b \<in> set v. is_class b VALUE \<Longrightarrow> CHR 0x0A \<notin> set v" using c(2) by blast
  show "target_ok t \<Longrightarrow> CHR 0x0A \<notin> set t" using c(3) by (auto simp: target_ok_def)
qed

lemma plain_field: "field_ok f \<Longrightarrow> plain_line (field_line f)"
  using no_LF(1) [of "fst f"] no_LF(2) [of "snd f"] by (auto simp: field_ok_def field_line_def plain_line_def)

lemma plain_first: "request_line_ok m t \<Longrightarrow> plain_line (first_line m t h10)"
  using no_LF(1) [of m] no_LF(3) [of t] by (auto simp: request_line_ok_def first_line_def plain_line_def)

lemma header_lines_head:
  assumes "head_syntax h"
  shows "header_lines (print_head h) = first_line (h_method h) (h_target h) (h_http10 h) # map field_line (h_fields h)"
  unfolding print_head_lines using assms plain_first plain_field
  by (intro header_lines_text) (auto simp: head_syntax_def list_all_iff)

lemma no_colon: "is_token n \<Longrightarrow> CHR '':'' \<notin> set n"
  using class_marks(1) by (auto simp: is_token_def)

lemma field_line_colon: "field_ok f \<Longrightarrow> memchr (CHR '':'') (field_line f) = Some (length (fst f))"
  using memchr_first [of "CHR '':''" "fst f" "snd f"] no_colon by (simp add: field_line_def field_ok_def)

section \<open>Lines the parser marks\<close>

text \<open>The names a request may not pass on, told by name alone.\<close>

definition hop_names :: "bytes list" where
  "hop_names = [''connection'', ''keep-alive'', ''proxy-connection'', ''te'', ''trailer'', ''expect'', ''http2-settings'',
     ''forwarded'', ''x-forwarded-ssl'', ''x-forwarded-host'', ''x-forwarded-port'', ''x-forwarded-proto'', ''x-forwarded-scheme'']"

lemma hop_by_hop_iff: "is_hop_by_hop_request_header name \<longleftrightarrow> to_ascii_lowercase name \<in> set hop_names"
proof (cases name)
  case (Cons b r)
  have "is_forwarding_claim name \<longleftrightarrow> to_ascii_lowercase name \<in> {''forwarded'', ''x-forwarded-ssl'', ''x-forwarded-host'',
      ''x-forwarded-port'', ''x-forwarded-proto'', ''x-forwarded-scheme''}"
    by (simp add: is_forwarding_claim_def eq_ignore_ascii_case_def)
  then show ?thesis
    by (auto simp: Cons is_hop_by_hop_request_header_def Let_def eq_ignore_ascii_case_def hop_names_def)
qed (simp add: is_hop_by_hop_request_header_def hop_names_def)

definition kind_of :: "bytes \<times> bytes \<Rightarrow> line_kind" where
  "kind_of f =
     (if eq_ignore_ascii_case (fst f) ''upgrade'' then (if offers_h2c (snd f) then Strip else UpgradeLine)
      else if is_hop_by_hop_request_header (fst f) then Strip else Keep)"

lemma header_field_kind: "snd (header_field h10 n v st) = kind_of (n, v)"
  by (auto simp: header_field_def kind_of_def hop_by_hop_iff hop_names_def is_forwarding_claim_def
      eq_ignore_ascii_case_def Let_def split: option.split)

fun spans_where :: "(bytes \<times> bytes \<Rightarrow> bool) \<Rightarrow> nat \<Rightarrow> (bytes \<times> bytes) list \<Rightarrow> (nat \<times> nat) list" where
  "spans_where P pos [] = []"
| "spans_where P pos (f # fs) =
     (if P f then [(pos, pos + length (line_bytes f))] else []) @ spans_where P (pos + length (line_bytes f)) fs"

abbreviation spans_at :: "line_kind \<Rightarrow> nat \<Rightarrow> (bytes \<times> bytes) list \<Rightarrow> (nat \<times> nat) list" where
  "spans_at k \<equiv> spans_where (\<lambda>f. kind_of f = k)"

lemma spans_at_snoc:
  "spans_where P pos (fs @ [f]) = spans_where P pos fs @
     (let p = pos + length (field_text fs) in if P f then [(p, p + length (line_bytes f))] else [])"
  by (induction fs arbitrary: pos) (simp_all add: Let_def add.assoc)

definition word_span :: "nat \<times> nat \<Rightarrow> span" where
  "word_span = (\<lambda>(s, e). (word_of_nat s, word_of_nat e))"

text \<open>Off the slow path, the state holds the spans of every line to strip and of the one Upgrade line.\<close>

definition marks :: "nat \<Rightarrow> (bytes \<times> bytes) list \<Rightarrow> parse_state \<Rightarrow> bool" where
  "marks pos fs st \<longleftrightarrow>
     spans (p_spans st) = map word_span (spans_at Strip pos fs) \<and>
     (case spans_at UpgradeLine pos fs of
        [] \<Rightarrow> p_upgrade_span st = None \<and> \<not> p_has_upgrade st
      | [u] \<Rightarrow> p_upgrade_span st = Some (word_span u) \<and> p_has_upgrade st
      | _ \<Rightarrow> False)"

lemma marks_step:
  assumes m: "marks pos fs st" and ok: "\<not> p_violation (header_line h10 (fst f) (snd f) p (p + length (line_bytes f)) st)"
    and fast: "\<not> needs_slow_path (p_spans (header_line h10 (fst f) (snd f) p (p + length (line_bytes f)) st))"
    and p: "p = pos + length (field_text fs)"
  shows "marks pos (fs @ [f]) (header_line h10 (fst f) (snd f) p (p + length (line_bytes f)) st)"
proof -
  obtain st' k where hf: "header_field h10 (fst f) (snd f) st = (st', k)" by (cases "header_field h10 (fst f) (snd f) st")
  have k: "k = kind_of f" using header_field_kind [of h10 "fst f" "snd f" st] hf by simp
  have v: "\<not> p_violation st'" using ok hf by (auto simp: header_line_def split: if_splits)
  have s: "spans (p_spans st') = spans (p_spans st)" "p_upgrade_span st' = p_upgrade_span st"
      "p_has_upgrade st' = (p_has_upgrade st \<or> k = UpgradeLine)"
      "k = UpgradeLine \<Longrightarrow> needs_slow_path (p_spans st') = (needs_slow_path (p_spans st) \<or> p_has_upgrade st)"
    using hf by (auto simp: header_field_def Let_def connection_tokens set_slow_path_def split: if_splits option.splits)
  show ?thesis
  proof (cases k)
    case Keep
    then show ?thesis
      using m v hf s k by (simp add: header_line_def marks_def spans_at_snoc Let_def split: list.splits)
  next
    case Strip
    then show ?thesis
      using m v hf s k fast p
      by (auto simp: header_line_def marks_def spans_at_snoc Let_def push_span_def word_span_def split: if_splits list.splits)
  next
    case UpgradeLine
    then have "\<not> p_has_upgrade st" using fast v hf s by (simp add: header_line_def)
    then have "spans_at UpgradeLine pos fs = []"
      using m by (auto simp: marks_def split: list.splits)
    then show ?thesis
      using UpgradeLine m v hf s k p by (simp add: header_line_def marks_def spans_at_snoc Let_def word_span_def)
  qed
qed

lemma slow_path_stays_field:
  "needs_slow_path (p_spans st) \<Longrightarrow> needs_slow_path (p_spans (fst (header_field h10 n v st)))"
  by (simp add: header_field_def Let_def set_slow_path_def connection_tokens split: option.split)

lemma slow_path_stays:
  assumes "needs_slow_path (p_spans st)"
  shows "needs_slow_path (p_spans (header_line h10 n v s e st))"
proof -
  obtain st' k where "header_field h10 n v st = (st', k)" by (cases "header_field h10 n v st")
  then show ?thesis
    using slow_path_stays_field [OF assms, of h10 n v] by (cases k) (simp_all add: header_line_def push_span_def)
qed

lemma marks_fields:
  assumes "\<not> p_violation (read_fields h10 pos fs (parse_start False))"
    "\<not> needs_slow_path (p_spans (read_fields h10 pos fs (parse_start False)))"
  shows "marks pos fs (read_fields h10 pos fs (parse_start False))"
  using assms
proof (induction fs rule: rev_induct)
  case Nil
  then show ?case by (simp add: marks_def parse_start_def no_spans_def)
next
  case (snoc f fs)
  let ?st = "read_fields h10 pos fs (parse_start False)" and ?p = "pos + length (field_text fs)"
  have v: "\<not> p_violation ?st" using snoc.prems by (auto simp: read_fields_snoc Let_def split: if_splits)
  then have e: "read_fields h10 pos (fs @ [f]) (parse_start False) =
      header_line h10 (fst f) (snd f) ?p (?p + length (line_bytes f)) ?st"
    by (simp add: read_fields_snoc Let_def)
  then have "\<not> needs_slow_path (p_spans ?st)" using snoc.prems slow_path_stays by metis
  then show ?case using snoc v e marks_step [of pos fs ?st h10 f ?p] by simp
qed

section \<open>Copying gaps\<close>

lemma spans_where_bounds:
  "se \<in> set (spans_where P pos fs) \<Longrightarrow> pos \<le> fst se \<and> fst se < snd se \<and> snd se \<le> pos + length (field_text fs)"
proof (induction fs arbitrary: pos)
  case (Cons f fs)
  have "0 < length (line_bytes f)" by (simp add: line_bytes_def)
  then show ?case using Cons.IH [of "pos + length (line_bytes f)"] Cons.prems by (auto split: if_splits)
qed simp

lemma cut_before_none: "\<forall>l \<in> set ls. s \<le> fst l \<Longrightarrow> cut_before ct s ls st = (ls, st)"
  by (cases ls) auto

lemma copy_gaps_cut: "\<forall>se \<in> set ss. fst l < fst se \<Longrightarrow> copy_gaps raw ct ss (l # ls) st = copy_gaps raw ct ss ls (ct l st)"
  by (cases ss) auto

lemma subslice_extend:
  assumes "c \<le> p" "p \<le> q"
  shows "subslice c q raw = subslice c p raw @ subslice p q raw"
proof -
  have "q - c = (p - c) + (q - p)" using assms by simp
  then have "take (q - c) (drop c raw) = take (p - c) (drop c raw) @ take (q - p) (drop (p - c) (drop c raw))"
    by (metis take_add)
  then show ?thesis using assms by (simp add: subslice_def)
qed

lemma subslice_line: "subslice (length pre) (length pre + length l) (pre @ l @ rest) = l"
  by (simp add: subslice_def)

text \<open>The lines copied: those of \<open>strip\<close> left out, those of \<open>special\<close> replaced.\<close>

fun copied :: "(bytes \<times> bytes \<Rightarrow> bool) \<Rightarrow> (bytes \<times> bytes \<Rightarrow> bool) \<Rightarrow> (nat \<times> nat \<Rightarrow> bytes) \<Rightarrow> nat \<Rightarrow> (bytes \<times> bytes) list \<Rightarrow> bytes" where
  "copied strip special rep pos [] = []"
| "copied strip special rep pos (f # fs) =
     (if strip f then [] else if special f then rep (pos, pos + length (line_bytes f)) else line_bytes f) @
     copied strip special rep (pos + length (line_bytes f)) fs"

lemma copy_gaps_copied:
  assumes ct: "\<And>se st. ct se st = (snd se, snd st @ subslice (fst st) (fst se) raw @ rep se)"
    and dj: "\<And>f. \<not> (strip f \<and> special f)"
    and raw: "raw = pre @ field_text fs @ rest" and c: "cursor \<le> length pre"
  shows "\<exists>c' out'. copy_gaps raw ct (spans_where strip (length pre) fs) (spans_where special (length pre) fs) (cursor, out) = (c', out') \<and>
    out' @ subslice c' (length pre + length (field_text fs)) raw =
    out @ subslice cursor (length pre) raw @ copied strip special rep (length pre) fs"
  using raw c
proof (induction fs arbitrary: pre cursor out)
  case (Cons f fs)
  let ?p = "length pre" and ?q = "length pre + length (line_bytes f)"
  have raw': "raw = (pre @ line_bytes f) @ field_text fs @ rest" using Cons.prems by simp
  have q: "length (pre @ line_bytes f) = ?q" by simp
  have line: "subslice ?p ?q raw = line_bytes f" unfolding Cons.prems(1) by (simp add: subslice_line)
  have ext: "subslice cursor ?q raw = subslice cursor ?p raw @ line_bytes f"
    using subslice_extend [of cursor ?p ?q raw] Cons.prems(2) line by simp
  note IH = Cons.IH [OF raw', unfolded q]
  have pos: "?p < ?q" by (simp add: line_bytes_def)
  have ge: "\<forall>se \<in> set (spans_where P ?q fs). ?q \<le> fst se" for P using spans_where_bounds by blast
  have lt: "\<forall>se \<in> set (spans_where strip ?q fs). ?p < fst se" using ge [of strip] pos less_le_trans by blast
  have nil: "subslice ?q ?q raw = []" by (simp add: subslice_def)
  consider "strip f" "\<not> special f" | "special f" "\<not> strip f" | "\<not> strip f" "\<not> special f" using dj by blast
  then show ?case
  proof cases
    case 1
    have "cut_before ct ?p (spans_where special ?q fs) (cursor, out) = (spans_where special ?q fs, cursor, out)"
      using ge [of special] pos by (intro cut_before_none) auto
    then show ?thesis using 1 IH [of ?q "out @ subslice cursor ?p raw"] by (simp add: nil add.assoc)
  next
    case 2
    then have "copy_gaps raw ct (spans_where strip ?p (f # fs)) (spans_where special ?p (f # fs)) (cursor, out) =
        copy_gaps raw ct (spans_where strip ?q fs) (spans_where special ?q fs) (ct (?p, ?q) (cursor, out))"
      using copy_gaps_cut [of "spans_where strip ?q fs" "(?p, ?q)"] lt by simp
    then show ?thesis
      using 2 IH [of ?q "out @ subslice cursor ?p raw @ rep (?p, ?q)"] 
      by (simp add: ct [of "(?p, ?q)" "(cursor, out)"] nil add.assoc)
  next
    case 3
    then show ?thesis using IH [of cursor out] Cons.prems(2) by (simp add: ext add.assoc)
  qed
qed simp

section \<open>The lines cut besides the spans\<close>

definition is_host :: "bytes \<times> bytes \<Rightarrow> bool" where
  "is_host f \<longleftrightarrow> eq_ignore_ascii_case (fst f) ''host''"

definition first_of :: "'a list \<Rightarrow> 'a option" where
  "first_of xs = (case xs of [] \<Rightarrow> None | x # _ \<Rightarrow> Some x)"

lemma lower_colon: "u8_to_ascii_lowercase c = CHR '':'' \<Longrightarrow> c = CHR '':''"
  using of_char_or_0x20 [of c] by (auto simp: u8_to_ascii_lowercase_def is_ascii_uppercase_def split: if_splits)

lemma host_prefix:
  assumes "field_ok f"
  shows "5 \<le> length (line_bytes f) \<and> eq_ignore_ascii_case (take 5 (line_bytes f)) ''host:'' \<longleftrightarrow> is_host f"
proof
  assume a: "5 \<le> length (line_bytes f) \<and> eq_ignore_ascii_case (take 5 (line_bytes f)) ''host:''"
  then have "Suc (Suc (Suc (Suc (Suc 0)))) \<le> length (line_bytes f)" by simp
  then obtain c0 c1 c2 c3 c4 r where l: "line_bytes f = c0 # c1 # c2 # c3 # c4 # r"
    unfolding Suc_le_length_iff by blast
  have c: "to_ascii_lowercase [c0, c1, c2, c3] = ''host''" "c4 = CHR '':''"
    using a lower_colon [of c4] by (auto simp: l eq_ignore_ascii_case_def)
  have n: "CHR '':'' \<notin> set (fst f)" using assms no_colon by (simp add: field_ok_def)
  have nc: "c0 \<noteq> CHR '':''" "c1 \<noteq> CHR '':''" "c2 \<noteq> CHR '':''" "c3 \<noteq> CHR '':''" using c(1) by auto
  have "takeWhile (\<lambda>b. b \<noteq> CHR '':'') (line_bytes f) = fst f"
    unfolding line_bytes_def using n by (intro takeWhile_stop) auto
  moreover have "takeWhile (\<lambda>b. b \<noteq> CHR '':'') (line_bytes f) = [c0, c1, c2, c3]" by (simp add: l nc c(2))
  ultimately show "is_host f" using c(1) by (simp add: is_host_def eq_ignore_ascii_case_def)
next
  assume h: "is_host f"
  then have "length (fst f) = 4" using eq_ignore_ascii_case_length by (fastforce simp: is_host_def)
  then show "5 \<le> length (line_bytes f) \<and> eq_ignore_ascii_case (take 5 (line_bytes f)) ''host:''"
    using h by (simp add: line_bytes_def is_host_def eq_ignore_ascii_case_def take_Cons')
qed

lemma host_line_fields:
  assumes "list_all field_ok fs"
  shows "host_line_from (pre @ field_text fs @ CRLF) (length pre) =
    map_option word_span (first_of (spans_where is_host (length pre) fs))"
  using assms
proof (induction fs arbitrary: pre)
  case Nil
  have "memchr (CHR 0x0A) CRLF = Some 1" "memchr (CHR 0x0A) [] = None" by (simp_all add: memchr_def)
  then show ?case
    by (subst host_line_from.simps) (simp add: Let_def first_of_def host_line_from.simps [of _ "Suc (Suc _)"])
next
  case (Cons f fs)
  have f: "field_ok f" using Cons.prems by simp
  have "CHR 0x0A \<notin> set (field_line f @ [CHR 0x0D])" using plain_field [OF f] by (simp add: plain_line_def)
  then have m: "memchr (CHR 0x0A) (line_bytes f @ field_text fs @ CRLF) = Some (length (line_bytes f) - 1)"
    using memchr_first [of "CHR 0x0A" "field_line f @ [CHR 0x0D]" "field_text fs @ CRLF"] by (simp add: line_bytes_line)
  have l: "length pre + (length (line_bytes f) - 1) + 1 = length pre + length (line_bytes f)" by (simp add: line_bytes_def)
  have s: "subslice (length pre) (length pre + length (line_bytes f)) (pre @ line_bytes f @ field_text fs @ CRLF) = line_bytes f"
    by (rule subslice_line)
  show ?case
    using Cons.IH [of "pre @ line_bytes f"] Cons.prems host_prefix [OF f]
    by (subst host_line_from.simps)
      (auto simp: m l s Let_def first_of_def word_span_def simp del: One_nat_def Suc_pred)
qed

lemma host_line_head:
  assumes "head_syntax h"
  shows "host_line (print_head h) =
    map_option word_span (first_of (spans_where is_host (length (head_line h)) (h_fields h)))"
proof -
  let ?l = "first_line (h_method h) (h_target h) (h_http10 h)"
  have "CHR 0x0A \<notin> set (?l @ [CHR 0x0D])"
    using assms plain_first [of "h_method h" "h_target h"] by (simp add: head_syntax_def plain_line_def)
  then have "memchr (CHR 0x0A) (print_head h) = Some (Suc (length ?l))"
    using memchr_first [of "CHR 0x0A" "?l @ [CHR 0x0D]" "field_text (h_fields h) @ CRLF"]
    by (simp add: print_head_def head_line_first)
  moreover have "Suc (length ?l) + 1 = length (head_line h)" by (simp add: head_line_first)
  ultimately show ?thesis
    using host_line_fields [of "h_fields h" "head_line h"] assms by (simp add: host_line_def print_head_def head_syntax_def)
qed

lemma spans_where_False [simp]: "spans_where (\<lambda>_. False) pos fs = []"
  by (induction fs arbitrary: pos) auto

lemma spans_where_Nil: "spans_where P pos fs = [] \<Longrightarrow> spans_where (\<lambda>f. P f \<or> Q f) pos fs = spans_where Q pos fs"
  by (induction fs arbitrary: pos) (auto split: if_splits)

lemma spans_where_merge:
  assumes "length (spans_where P pos fs) \<le> 1" "length (spans_where Q pos fs) \<le> 1" "\<And>f. \<not> (P f \<and> Q f)"
  shows "spans_where (\<lambda>f. P f \<or> Q f) pos fs = other_lines (first_of (spans_where P pos fs)) (first_of (spans_where Q pos fs))"
  using assms(1,2)
proof (induction fs arbitrary: pos)
  case (Cons f fs)
  let ?q = "pos + length (line_bytes f)"
  have "pos < ?q" by (simp add: line_bytes_def)
  then have ge: "se \<in> set (spans_where R ?q fs) \<Longrightarrow> pos < fst se" for R se
    using spans_where_bounds less_le_trans by blast
  consider "P f" "\<not> Q f" | "Q f" "\<not> P f" | "\<not> P f" "\<not> Q f" using assms(3) by blast
  then show ?case
  proof cases
    case 1
    then have "spans_where P ?q fs = []" using Cons.prems by simp
    then show ?thesis
      using 1 spans_where_Nil [of P ?q fs Q] Cons.prems ge [of _ Q]
      by (cases "spans_where Q ?q fs") (auto simp: other_lines_def first_of_def lex_less_def)
  next
    case 2
    then have n: "spans_where Q ?q fs = []" using Cons.prems by simp
    have "spans_where (\<lambda>f. P f \<or> Q f) ?q fs = spans_where P ?q fs"
      using spans_where_Nil [OF n, of P] by (simp add: disj_commute)
    then show ?thesis
      using 2 n Cons.prems ge [of _ P]
      by (cases "spans_where P ?q fs") (auto simp: other_lines_def first_of_def lex_less_def)
  next
    case 3
    then show ?thesis using Cons by simp
  qed
qed (simp add: other_lines_def first_of_def)

lemma spans_where_disjoint:
  assumes "\<And>f. \<not> (P f \<and> Q f)" "se \<in> set (spans_where P pos fs)"
  shows "se \<notin> set (spans_where Q pos fs)"
  using assms(2)
proof (induction fs arbitrary: pos)
  case (Cons f fs)
  let ?q = "pos + length (line_bytes f)"
  have "pos < ?q" by (simp add: line_bytes_def)
  then have ge: "(pos, e) \<notin> set (spans_where R ?q fs)" for R e using spans_where_bounds [of "(pos, e)" R ?q fs] by auto
  show ?case
    using Cons assms(1) [of f] ge by (auto split: if_splits)
qed simp

end
