(* ===== verification/Http_Forward.thy ===== *)
theory Http_Forward
  imports Head_Copy
begin

text \<open>
  What the backend receives. The fast path of forwarding, which copies the gaps between recorded
  spans, and the slow one, which goes line by line, are both shown to print a head: the client's
  head without the lines that must not pass. That head is then read again, to show that proxy and
  backend agree on the message.
\<close>

section \<open>The fast path\<close>

abbreviation is_upgrade_line :: "bytes \<times> bytes \<Rightarrow> bool" where
  "is_upgrade_line f \<equiv> eq_ignore_ascii_case (fst f) ''upgrade''"

definition host_field :: "bytes \<Rightarrow> bytes \<times> bytes" where
  "host_field authority = (''Host'', CHR '' '' # authority)"

lemma put_host_line: "put_host a = line_bytes (host_field a)"
  by (simp add: put_host_def host_field_def line_bytes_def)

definition pass_marked :: "bool \<Rightarrow> bytes option \<Rightarrow> bytes \<times> bytes \<Rightarrow> (bytes \<times> bytes) list" where
  "pass_marked keep auth f =
     (if kind_of f = Strip \<or> kind_of f = UpgradeLine \<and> \<not> keep then []
      else case auth of Some a \<Rightarrow> if is_host f then [host_field a] else [f] | None \<Rightarrow> [f])"

lemma host_kind: "is_host f \<Longrightarrow> kind_of f = Keep"
  by (auto simp: is_host_def kind_of_def hop_by_hop_iff hop_names_def eq_ignore_ascii_case_def)

lemma copied_fields:
  assumes "\<And>se. se \<in> set (spans_where (\<lambda>f. auth \<noteq> None \<and> is_host f) pos fs) \<Longrightarrow> rep se = put_host (the auth)"
    "\<And>se. se \<in> set (spans_where (\<lambda>f. \<not> keep \<and> kind_of f = UpgradeLine) pos fs) \<Longrightarrow> rep se = []"
  shows "copied (\<lambda>f. kind_of f = Strip) (\<lambda>f. \<not> keep \<and> kind_of f = UpgradeLine \<or> auth \<noteq> None \<and> is_host f) rep pos fs =
    field_text (concat (map (pass_marked keep auth) fs))"
  using assms
proof (induction fs arbitrary: pos)
  case (Cons f fs)
  let ?q = "pos + length (line_bytes f)"
  have IH: "copied (\<lambda>f. kind_of f = Strip) (\<lambda>f. \<not> keep \<and> kind_of f = UpgradeLine \<or> auth \<noteq> None \<and> is_host f) rep ?q fs =
      field_text (concat (map (pass_marked keep auth) fs))"
    using Cons.prems by (intro Cons.IH) auto
  have "(if kind_of f = Strip then []
         else if \<not> keep \<and> kind_of f = UpgradeLine \<or> auth \<noteq> None \<and> is_host f then rep (pos, ?q) else line_bytes f) =
      field_text (pass_marked keep auth f)"
    using Cons.prems(1,2) [of "(pos, ?q)"] host_kind [of f]
    by (cases auth) (auto simp: pass_marked_def put_host_line)
  then show ?case by (simp only: copied.simps IH list.map concat.simps field_text_simps)
qed simp

lemma unspan_word: "snd se < 2 ^ 32 \<Longrightarrow> fst se < snd se \<Longrightarrow> unspan (word_span se) = se"
  by (cases se) (simp add: unspan_def word_span_def unsigned_of_nat take_bit_nat_eq_self)

lemma unspan_spans:
  assumes "pos + length (field_text fs) < 2 ^ 32"
  shows "map unspan (map word_span (spans_where P pos fs)) = spans_where P pos fs"
proof -
  have "unspan (word_span se) = se" if "se \<in> set (spans_where P pos fs)" for se
    using spans_where_bounds [OF that] assms by (intro unspan_word) auto
  then show ?thesis by (simp add: map_idI)
qed

lemma put_request_line_first:
  assumes "CHR '' '' \<notin> set m" "CHR '' '' \<notin> set t"
  shows "put_request_line (first_line m t h10) p None = first_line m (p @ dropWhile (\<lambda>b. b \<noteq> CHR ''?'') t) h10"
proof -
  define v where "v = (if h10 then ''HTTP/1.0'' else ''HTTP/1.1'')"
  have l: "first_line m t' h10 = m @ CHR '' '' # t' @ CHR '' '' # v" for t'
    by (simp add: first_line_def v_def)
  have b: "target_bounds (first_line m t h10) = Some (length m + 1, length m + 1 + length t)"
    using memchr_first [OF assms(1), of "t @ CHR '' '' # v"] memchr_first [OF assms(2), of v]
    by (simp add: target_bounds_def l)
  have s: "subslice (length m + 1) (length m + 1 + length t) (first_line m t h10) = t"
    by (simp add: subslice_def l)
  have q: "(case memchr (CHR ''?'') t of Some q \<Rightarrow> length m + 1 + q | None \<Rightarrow> length m + 1 + length t) =
      length m + 1 + length (takeWhile (\<lambda>b. b \<noteq> CHR ''?'') t)"
  proof (cases "CHR ''?'' \<in> set t")
    case True
    then obtain x y where t: "t = x @ CHR ''?'' # y" "CHR ''?'' \<notin> set x" by (meson split_list_first)
    have "takeWhile (\<lambda>b. b \<noteq> CHR ''?'') t = x" unfolding t(1) using t(2) by (intro takeWhile_stop) auto
    then show ?thesis using memchr_first [OF t(2), of y] by (simp only: t(1)) simp
  next
    case False
    then have tw: "takeWhile (\<lambda>b. b \<noteq> CHR ''?'') t = t" by (subst takeWhile_eq_all_conv) auto
    show ?thesis by (simp only: memchr_None [OF False] option.case tw)
  qed
  have d: "subslice (length m + 1 + length (takeWhile (\<lambda>b. b \<noteq> CHR ''?'') t)) (length m + 1 + length t) (first_line m t h10) =
      dropWhile (\<lambda>b. b \<noteq> CHR ''?'') t"
  proof -
    have "t = takeWhile (\<lambda>b. b \<noteq> CHR ''?'') t @ dropWhile (\<lambda>b. b \<noteq> CHR ''?'') t" by simp
    then have "length t = length (takeWhile (\<lambda>b. b \<noteq> CHR ''?'') t) + length (dropWhile (\<lambda>b. b \<noteq> CHR ''?'') t)"
      by (metis length_append)
    then show ?thesis by (simp add: subslice_def l dropWhile_eq_drop)
  qed
  show ?thesis
    unfolding put_request_line_def b option.case prod.case Let_def s q d
    by (simp add: l)
qed

definition out_line :: "head \<Rightarrow> bytes option \<Rightarrow> bytes" where
  "out_line h path =
     (case path of
        None \<Rightarrow> first_line (h_method h) (h_target h) (h_http10 h)
      | Some p \<Rightarrow> first_line (h_method h) (p @ dropWhile (\<lambda>b. b \<noteq> CHR ''?'') (h_target h)) (h_http10 h))"

lemma no_space:
  assumes "request_line_ok m t"
  shows "CHR '' '' \<notin> set m" "CHR '' '' \<notin> set t"
  using assms class_marks(2) space_not_target by (auto simp: request_line_ok_def is_token_def target_ok_def)

text \<open>The head is good for the fast path, and an origin form carries the Host line of the head.\<close>

definition fast_head :: "head \<Rightarrow> bool" where
  "fast_head h \<longleftrightarrow> head_syntax h \<and> \<not> p_violation (head_state h) \<and> \<not> needs_slow_path (p_spans (head_state h)) \<and>
     length (print_head h) < 2 ^ 32"

definition origin_ok :: "head \<Rightarrow> origin_form option \<Rightarrow> bool" where
  "origin_ok h origin \<longleftrightarrow> (case origin of None \<Rightarrow> True | Some og \<Rightarrow> of_host_line og = host_line (print_head h))"

lemma one_host:
  assumes "\<not> p_violation (head_state h)"
  shows "length (spans_where is_host pos (h_fields h)) \<le> 1"
proof -
  have "lines_ok (h_http10 h) (h_fields h)"
    using assms read_fields_core [of "h_http10 h" "h_fields h"] by (simp add: head_state_def core_of_def)
  then have "length (field_values ''host'' (h_fields h)) \<le> 1"
    by (cases "field_values ''host'' (h_fields h)"; cases "tl (field_values ''host'' (h_fields h))")
      (auto simp: lines_ok_def at_most_one_def)
  moreover have "length (spans_where is_host pos fs) = length (field_values ''host'' fs)" for fs
    by (induction fs arbitrary: pos) (simp_all add: is_host_def field_values_def)
  ultimately show ?thesis by simp
qed

lemma fast_path_lines:
  assumes f: "fast_head h" and og: "origin_ok h origin"
  defines "n \<equiv> length (head_line h)" and "auth \<equiv> map_option of_authority origin" and "fs \<equiv> h_fields h"
  shows "iter_spans (p_spans (head_state h)) = spans_at Strip n fs"
    and "other_lines (if keep then None else map_option unspan (p_upgrade_span (head_state h)))
        (case origin of None \<Rightarrow> None | Some og \<Rightarrow> map_option unspan (of_host_line og)) =
      spans_where (\<lambda>f. \<not> keep \<and> kind_of f = UpgradeLine \<or> auth \<noteq> None \<and> is_host f) n fs"
    and "(case origin of None \<Rightarrow> None | Some og \<Rightarrow> map_option unspan (of_host_line og)) =
      first_of (spans_where (\<lambda>f. auth \<noteq> None \<and> is_host f) n fs)"
proof -
  have m: "marks n fs (head_state h)"
    using f marks_fields by (simp add: fast_head_def head_state_def n_def fs_def)
  have len: "n + length (field_text fs) < 2 ^ 32" using f by (simp add: fast_head_def print_head_def n_def fs_def)
  have un: "map unspan (map word_span (spans_where P n fs)) = spans_where P n fs" for P
    using unspan_spans [OF len] .
  show "iter_spans (p_spans (head_state h)) = spans_at Strip n fs"
    using m un [of "\<lambda>f. kind_of f = Strip"] by (simp add: iter_spans_def marks_def unspan_def)
  have u: "map_option unspan (p_upgrade_span (head_state h)) = first_of (spans_at UpgradeLine n fs)"
      "length (spans_at UpgradeLine n fs) \<le> 1"
    using m un [of "\<lambda>f. kind_of f = UpgradeLine"] unfolding marks_def first_of_def
    by (cases "spans_at UpgradeLine n fs"; cases "tl (spans_at UpgradeLine n fs)"; simp)+
  show hl: "(case origin of None \<Rightarrow> None | Some og \<Rightarrow> map_option unspan (of_host_line og)) =
      first_of (spans_where (\<lambda>f. auth \<noteq> None \<and> is_host f) n fs)"
    using og f host_line_head [of h] un [of is_host]
    by (cases origin)
      (auto simp: origin_ok_def auth_def fast_head_def n_def fs_def first_of_def option.map_comp split: list.splits)
  have "length (spans_where (\<lambda>f. auth \<noteq> None \<and> is_host f) n fs) \<le> 1"
    using one_host [of h n] f by (cases auth) (simp_all add: fast_head_def fs_def)
  moreover have "length (spans_where (\<lambda>f. \<not> keep \<and> kind_of f = UpgradeLine) n fs) \<le> 1"
      "(if keep then None else map_option unspan (p_upgrade_span (head_state h))) =
       first_of (spans_where (\<lambda>f. \<not> keep \<and> kind_of f = UpgradeLine) n fs)"
    using u by (cases keep; simp add: first_of_def)+
  moreover have "\<not> ((\<not> keep \<and> kind_of f = UpgradeLine) \<and> (auth \<noteq> None \<and> is_host f))" for f
    using host_kind [of f] by auto
  ultimately show "other_lines (if keep then None else map_option unspan (p_upgrade_span (head_state h)))
        (case origin of None \<Rightarrow> None | Some og \<Rightarrow> map_option unspan (of_host_line og)) =
      spans_where (\<lambda>f. \<not> keep \<and> kind_of f = UpgradeLine \<or> auth \<noteq> None \<and> is_host f) n fs"
    unfolding hl by (subst spans_where_merge) auto
qed

lemma fast_path_prints:
  assumes f: "fast_head h" and og: "origin_ok h origin"
  shows "assemble_forward_headers (print_head h) path (p_spans (head_state h)) (p_upgrade_span (head_state h)) keep origin fwd =
    out_line h path @ CRLF @ field_text (concat (map (pass_marked keep (map_option of_authority origin)) (h_fields h))) @
    append_forward_headers fwd keep origin @ CRLF"
proof -
  define n where "n = length (head_line h)"
  define auth where "auth = map_option of_authority origin"
  define fs where "fs = h_fields h"
  define raw where "raw = print_head h"
  define hl where "hl = (case origin of None \<Rightarrow> None | Some og \<Rightarrow> map_option unspan (of_host_line og))"
  define rep where "rep se = (case origin of Some og \<Rightarrow> if Some se = hl then put_host (of_authority og) else [] | None \<Rightarrow> [])" for se
  let ?strip = "\<lambda>f. kind_of f = Strip"
  let ?special = "\<lambda>f. \<not> keep \<and> kind_of f = UpgradeLine \<or> auth \<noteq> None \<and> is_host f"
  let ?l = "first_line (h_method h) (h_target h) (h_http10 h)"
  note L = fast_path_lines [OF f og, folded n_def auth_def fs_def]
  have syn: "head_syntax h" using f by (simp add: fast_head_def)
  have raw: "raw = head_line h @ field_text fs @ CRLF" by (simp add: raw_def print_head_def fs_def)
  have ct: "cut_line raw origin hl se st = (snd se, snd st @ subslice (fst st) (fst se) raw @ rep se)" for se st
    by (simp add: cut_line_def rep_def split: option.split)
  have dj: "\<not> (?strip f \<and> ?special f)" for f by (cases "is_host f") (simp_all add: host_kind)
  have hl1: "set (spans_where (\<lambda>f. auth \<noteq> None \<and> is_host f) n fs) \<subseteq> {se. Some se = hl}"
    using L(3) one_host [of h n] f unfolding hl_def
    by (cases auth; cases "spans_where is_host n fs") (auto simp: first_of_def fast_head_def fs_def)
  have up: "rep se = []" if se: "se \<in> set (spans_where (\<lambda>f. \<not> keep \<and> kind_of f = UpgradeLine) n fs)" for se
  proof -
    have "se \<notin> set (spans_where (\<lambda>f. auth \<noteq> None \<and> is_host f) n fs)"
      by (rule spans_where_disjoint [OF _ se]) (metis host_kind line_kind.distinct(3))
    then have "Some se \<noteq> hl" using L(3) unfolding hl_def by (auto simp: first_of_def split: list.splits)
    then show ?thesis by (simp add: rep_def split: option.split)
  qed
  have body: "copied ?strip ?special rep n fs = field_text (concat (map (pass_marked keep auth) fs))"
  proof (rule copied_fields)
    show "rep se = put_host (the auth)" if "se \<in> set (spans_where (\<lambda>f. auth \<noteq> None \<and> is_host f) n fs)" for se
      using subsetD [OF hl1 that] that by (cases origin) (simp_all add: rep_def auth_def)
  qed (rule up)
  have cr: "memchr (CHR 0x0D) raw = Some (length ?l)"
    using memchr_first [of "CHR 0x0D" ?l "CHR 0x0A # field_text fs @ CRLF"] no_CR(1) [of "h_method h"] no_CR(3) [of "h_target h"] syn
    by (auto simp: raw head_line_first first_line_def head_syntax_def request_line_ok_def)
  define st where "st = (case path of None \<Rightarrow> (0, [])
      | Some p \<Rightarrow> (length ?l, put_request_line (take (length ?l) raw) p None))"
  have st: "fst st \<le> n" "snd st @ subslice (fst st) n raw = out_line h path @ CRLF"
    using no_space [of "h_method h" "h_target h"] syn
    by (auto simp: st_def n_def raw head_line_first out_line_def subslice_def put_request_line_first head_syntax_def split: option.split)
  obtain c' out' where g: "copy_gaps raw (cut_line raw origin hl) (spans_where ?strip n fs) (spans_where ?special n fs) st = (c', out')"
      "out' @ subslice c' (n + length (field_text fs)) raw = snd st @ subslice (fst st) n raw @ copied ?strip ?special rep n fs"
    using copy_gaps_copied [of "cut_line raw origin hl" raw rep ?strip ?special "head_line h" fs CRLF "fst st" "snd st"] ct dj raw st(1)
    by (auto simp: n_def)
  have "length raw - 2 = n + length (field_text fs)" by (simp add: raw n_def)
  then show ?thesis
    unfolding assemble_forward_headers_def Let_def raw_def [symmetric] auth_def [symmetric] fs_def [symmetric]
      hl_def [symmetric] cr option.case L(1) st_def [symmetric]
    using L(2) [folded hl_def] g(1) g(2) [unfolded body] st(2) by simp
qed

section \<open>Tokens a Connection line nominates\<close>

text \<open>On text whose ends are plain, Unicode trimming is the trimming of optional white space.\<close>

definition plain_ends :: "bytes \<Rightarrow> bool" where
  "plain_ends s \<longleftrightarrow> trim_ows s = [] \<or>
     (33 \<le> ord8 (hd (trim_ows s)) \<and> ord8 (hd (trim_ows s)) < 127) \<and>
     (33 \<le> ord8 (last (trim_ows s)) \<and> ord8 (last (trim_ows s)) < 127)"

definition good_start :: "bytes list \<Rightarrow> bool" where
  "good_start ws \<longleftrightarrow> list_all (\<lambda>w. w \<noteq> [] \<and> (128 \<le> ord8 (hd w) \<or> tl w = [] \<and> ord8 (hd w) < 33)) ws \<and>
     [CHR '' ''] \<in> set ws \<and> [CHR 0x09] \<in> set ws"

lemma good_starts: "good_start white_space" "good_start (map rev white_space)"
  by code_simp+

lemma good_start_find:
  assumes "good_start ws"
  shows "is_ows c \<Longrightarrow> find (\<lambda>w. w \<noteq> [] \<and> starts_with (c # s) w) ws = Some [c]"
    "33 \<le> ord8 c \<Longrightarrow> ord8 c < 127 \<Longrightarrow> find (\<lambda>w. w \<noteq> [] \<and> starts_with (c # s) w) ws = None"
    "find (\<lambda>w. w \<noteq> [] \<and> starts_with [] w) ws = None"
proof -
  have w: "w \<noteq> [] \<and> (128 \<le> ord8 (hd w) \<or> w = [hd w] \<and> ord8 (hd w) < 33)" if "w \<in> set ws" for w
    using assms that by (cases w) (auto simp: good_start_def list_all_iff)
  have hd: "hd w = c" if "starts_with (c # s) w" "w \<noteq> []" for w using that by (cases w) (auto simp: starts_with_iff)
  show "find (\<lambda>w. w \<noteq> [] \<and> starts_with (c # s) w) ws = Some [c]" if o: "is_ows c"
  proof (cases "find (\<lambda>w. w \<noteq> [] \<and> starts_with (c # s) w) ws")
    case None
    moreover have "[c] \<in> set ws" "starts_with (c # s) [c]"
      using o assms by (auto simp: is_ows_def good_start_def starts_with_iff)
    ultimately show ?thesis by (auto simp: find_None_iff)
  next
    case (Some x)
    then have x: "x \<in> set ws" "x \<noteq> []" "starts_with (c # s) x" by (auto simp: find_Some_iff)
    then have "ord8 (hd x) < 128" using hd [of x] o by (auto simp: is_ows_def)
    then have "x = [c]" using w [OF x(1)] hd [of x] x by auto
    then show ?thesis using Some by simp
  qed
  show "find (\<lambda>w. w \<noteq> [] \<and> starts_with (c # s) w) ws = None" if "33 \<le> ord8 c" "ord8 c < 127"
    using that w hd by (fastforce simp: find_None_iff)
  show "find (\<lambda>w. w \<noteq> [] \<and> starts_with [] w) ws = None"
    by (auto simp: find_None_iff starts_with_iff)
qed

lemma trim_start_ows:
  assumes "good_start ws" "dropWhile is_ows s = [] \<or> 33 \<le> ord8 (hd (dropWhile is_ows s)) \<and> ord8 (hd (dropWhile is_ows s)) < 127"
  shows "trim_start ws s = dropWhile is_ows s"
  using assms(2)
proof (induction s)
  case Nil
  then show ?case using good_start_find(3) [OF assms(1)] by (subst trim_start.simps) simp
next
  case (Cons c s)
  show ?case
  proof (cases "is_ows c")
    case True
    then have "find (\<lambda>w. w \<noteq> [] \<and> starts_with (c # s) w) ws = Some [c]" by (rule good_start_find(1) [OF assms(1)])
    then show ?thesis using Cons True by (subst trim_start.simps) simp
  next
    case False
    then have "find (\<lambda>w. w \<noteq> [] \<and> starts_with (c # s) w) ws = None" using good_start_find(2) [OF assms(1), of c s] Cons.prems by simp
    then show ?thesis using False by (subst trim_start.simps) simp
  qed
qed

lemma str_trim_ows:
  assumes "plain_ends s"
  shows "str_trim s = trim_ows s"
proof -
  define r where "r = dropWhile is_ows s"
  have t: "trim_ows s = rev (dropWhile is_ows (rev r))" by (simp add: trim_ows_def r_def)
  have e: "trim_ows s = [] \<longleftrightarrow> r = []"
  proof
    assume "trim_ows s = []"
    then have "\<forall>x \<in> set r. is_ows x" by (simp add: t)
    moreover have "r \<noteq> [] \<Longrightarrow> \<not> is_ows (hd r)" using hd_dropWhile [of is_ows s] by (simp add: r_def)
    ultimately show "r = []" by (cases r) auto
  qed (simp add: t)
  have h: "hd (trim_ows s) = hd r" if "r \<noteq> []"
  proof -
    have "trim_ows s \<noteq> []" using that e by simp
    moreover have "rev r = takeWhile is_ows (rev r) @ rev (trim_ows s)" by (simp add: t)
    then have "r = trim_ows s @ rev (takeWhile is_ows (rev r))" by (metis rev_append rev_rev_ident)
    ultimately show ?thesis by (metis hd_append2)
  qed
  have 1: "trim_start white_space s = r"
    unfolding r_def using good_starts(1)
    by (rule trim_start_ows) (use assms e h in \<open>auto simp: plain_ends_def r_def [symmetric]\<close>)
  have "dropWhile is_ows (rev r) = [] \<or> 33 \<le> ord8 (hd (dropWhile is_ows (rev r))) \<and> ord8 (hd (dropWhile is_ows (rev r))) < 127"
    using assms unfolding plain_ends_def t by (cases "dropWhile is_ows (rev r)") auto
  then have "trim_start (map rev white_space) (rev r) = dropWhile is_ows (rev r)"
    by (rule trim_start_ows [OF good_starts(2)])
  then show ?thesis by (simp add: str_trim_def 1 t)
qed

lemma trim_ows_Cons: "is_ows c \<Longrightarrow> trim_ows (c # s) = trim_ows s"
  by (simp add: trim_ows_def)

lemma trim_ows_snoc: "is_ows c \<Longrightarrow> trim_ows (s @ [c]) = trim_ows s"
  by (cases "\<exists>x \<in> set s. \<not> is_ows x") (auto simp: trim_ows_def dropWhile_append dest: set_dropWhileD)

lemma trim_ows_parts: "\<exists>a b. s = a @ trim_ows s @ b \<and> (\<forall>x \<in> set a. is_ows x) \<and> (\<forall>x \<in> set b. is_ows x)"
proof -
  let ?r = "dropWhile is_ows s"
  have "rev ?r = takeWhile is_ows (rev ?r) @ rev (trim_ows s)" by (simp add: trim_ows_def)
  then have "?r = trim_ows s @ rev (takeWhile is_ows (rev ?r))" by (metis rev_append rev_rev_ident)
  then have "s = takeWhile is_ows s @ trim_ows s @ rev (takeWhile is_ows (rev ?r))" by (metis takeWhile_dropWhile_id)
  then show ?thesis
    by (intro exI [of _ "takeWhile is_ows s"] exI [of _ "rev (takeWhile is_ows (rev ?r))"]) (auto dest: set_takeWhileD)
qed

lemma split_on_snoc:
  "c \<noteq> sep \<Longrightarrow> split_on sep (v @ [c]) = butlast (split_on sep v) @ [last (split_on sep v) @ [c]]"
proof (induction v)
  case (Cons x v)
  obtain p ps where "split_on sep v = p # ps" by (cases "split_on sep v") auto
  then show ?case using Cons by (cases ps) auto
qed simp

lemma tokens_trim_start:
  "\<forall>x \<in> set a. is_ows x \<Longrightarrow> map trim_ows (split_on (CHR '','') (a @ v)) = map trim_ows (split_on (CHR '','') v)"
proof (induction a)
  case (Cons c a)
  then have "c \<noteq> CHR '',''" "is_ows c" by (auto simp: is_ows_def)
  then show ?case using Cons by (cases "split_on (CHR '','') (a @ v)") (auto simp: trim_ows_Cons)
qed simp

lemma tokens_trim_end:
  "\<forall>x \<in> set b. is_ows x \<Longrightarrow> map trim_ows (split_on (CHR '','') (v @ b)) = map trim_ows (split_on (CHR '','') v)"
proof (induction b rule: rev_induct)
  case (snoc c b)
  let ?ts = "split_on (CHR '','') (v @ b)"
  have c: "c \<noteq> CHR '',''" "is_ows c" using snoc.prems by (auto simp: is_ows_def)
  have "map trim_ows ?ts = map trim_ows (butlast ?ts) @ [trim_ows (last ?ts)]"
    using append_butlast_last_id [of ?ts] by (metis map_append list.simps(8,9) split_on_not_Nil)
  then show ?case
    using split_on_snoc [OF c(1), of "v @ b"] c(2) snoc by (simp add: trim_ows_snoc)
qed simp

lemma tokens_trim: "map trim_ows (split_on (CHR '','') (trim_ows v)) = map trim_ows (split_on (CHR '','') v)"
  using trim_ows_parts [of v] tokens_trim_start tokens_trim_end by metis

text \<open>The tokens a head may carry off the slow path.\<close>

definition quiet_token :: "bytes \<Rightarrow> bool" where
  "quiet_token t \<longleftrightarrow> t = [] \<or> to_ascii_lowercase t \<in> set [''close'', ''keep-alive'', ''upgrade'', ''http2-settings'']"

definition quiet :: "(bytes \<times> bytes) list \<Rightarrow> bool" where
  "quiet fs \<longleftrightarrow> (\<forall>v \<in> set (field_values ''connection'' fs). \<forall>t \<in> set (split_on (CHR '','') v). quiet_token (trim_ows t))"

definition h2c_line :: "bytes \<times> bytes \<Rightarrow> bool" where
  "h2c_line f \<longleftrightarrow> is_upgrade_line f \<and> offers_h2c (snd f)"

lemma slow_token_stays: "needs_slow_path (p_spans st) \<Longrightarrow> needs_slow_path (p_spans (connection_token t st))"
  by (simp add: connection_token_def Let_def set_slow_path_def)

lemma quiet_tokens:
  assumes "\<not> p_violation (fold connection_token ts st)" "\<not> needs_slow_path (p_spans (fold connection_token ts st))" "t \<in> set ts"
  shows "quiet_token (trim_ows t)"
  using assms
proof (induction ts arbitrary: st)
  case (Cons u ts)
  have n: "\<not> framing_token u" using Cons.prems connection_violation [of "u # ts" st] by auto
  have "\<not> needs_slow_path (p_spans (connection_token u st))"
    using Cons.prems(2) connection_tokens(7) [of "connection_token u st" ts] by auto
  then have "quiet_token (trim_ows u)"
    using n by (auto simp: connection_token_def Let_def set_slow_path_def framing_token_def quiet_token_def
        eq_ignore_ascii_case_def split: if_splits)
  then show ?case using Cons by auto
qed simp

lemma fold_h2c: "p_h2c (fold connection_token ts st) = p_h2c st"
  by (induction ts arbitrary: st) (simp_all add: connection_token_def set_slow_path_def Let_def)

lemma header_line_h2c: "p_h2c st \<or> h2c_line (n, v) \<Longrightarrow> p_h2c (header_line h10 n v s e st) \<or> p_violation (header_line h10 n v s e st)"
proof -
  assume a: "p_h2c st \<or> h2c_line (n, v)"
  obtain st' k where hf: "header_field h10 n v st = (st', k)" by (cases "header_field h10 n v st")
  have "p_h2c st' \<or> p_violation st'"
  proof (cases "to_ascii_lowercase n = ''upgrade''")
    case True
    then show ?thesis
      using a hf by (auto simp: header_field_def eq_ignore_ascii_case_def h2c_line_def set_slow_path_def split: if_splits)
  next
    case False
    then have "p_h2c st" using a by (simp add: h2c_line_def eq_ignore_ascii_case_def)
    then have "p_h2c (fst (header_field h10 n v st))"
      by (simp add: header_field_def Let_def fold_h2c set_slow_path_def split: option.split)
    then show ?thesis by (simp add: hf)
  qed
  then show ?thesis using hf by (cases k) (auto simp: header_line_def)
qed

lemma header_line_quiet:
  assumes "\<not> p_violation (header_line h10 n v s e st)" "\<not> needs_slow_path (p_spans (header_line h10 n v s e st))"
    "eq_ignore_ascii_case n ''connection''" "t \<in> set (split_on (CHR '','') v)"
  shows "quiet_token (trim_ows t)"
proof -
  have hf: "header_field h10 n v st = (fold connection_token (split_on (CHR '','') v) st, Strip)"
    using assms(3) by (simp add: header_field_def eq_ignore_ascii_case_def)
  then have "\<not> p_violation (fold connection_token (split_on (CHR '','') v) st)"
      "\<not> needs_slow_path (p_spans (fold connection_token (split_on (CHR '','') v) st))"
    using assms(1,2) by (auto simp: header_line_def push_span_def split: if_splits)
  then show ?thesis using quiet_tokens assms(4) by blast
qed

lemma read_fields_quiet:
  assumes "\<not> p_violation (read_fields h10 pos fs (parse_start False))"
    "\<not> needs_slow_path (p_spans (read_fields h10 pos fs (parse_start False)))"
  shows "quiet fs"
  using assms
proof (induction fs rule: rev_induct)
  case (snoc f fs)
  let ?st = "read_fields h10 pos fs (parse_start False)" and ?p = "pos + length (field_text fs)"
  have v: "\<not> p_violation ?st" using snoc.prems by (auto simp: read_fields_snoc Let_def split: if_splits)
  then have e: "read_fields h10 pos (fs @ [f]) (parse_start False) =
      header_line h10 (fst f) (snd f) ?p (?p + length (line_bytes f)) ?st"
    by (simp add: read_fields_snoc Let_def)
  then have "\<not> needs_slow_path (p_spans ?st)" using snoc.prems slow_path_stays by metis
  then show ?case
    using snoc v e header_line_quiet [of h10 "fst f" "snd f" ?p "?p + length (line_bytes f)" ?st]
    by (auto simp: quiet_def field_values_snoc)
qed (simp add: quiet_def field_values_def)

lemma read_fields_h2c:
  assumes "\<not> p_violation (read_fields h10 pos fs (parse_start False))" "\<not> p_h2c (read_fields h10 pos fs (parse_start False))"
    "f \<in> set fs"
  shows "\<not> h2c_line f"
  using assms
proof (induction fs rule: rev_induct)
  case (snoc g fs)
  let ?st = "read_fields h10 pos fs (parse_start False)" and ?p = "pos + length (field_text fs)"
  have v: "\<not> p_violation ?st" using snoc.prems by (auto simp: read_fields_snoc Let_def split: if_splits)
  then have e: "read_fields h10 pos (fs @ [g]) (parse_start False) =
      header_line h10 (fst g) (snd g) ?p (?p + length (line_bytes g)) ?st"
    by (simp add: read_fields_snoc Let_def)
  then have "\<not> p_h2c ?st" "\<not> h2c_line g"
    using snoc.prems header_line_h2c [of ?st "fst g" "snd g" h10 ?p "?p + length (line_bytes g)"] by auto
  then show ?case using snoc v by auto
qed simp

section \<open>The slow path\<close>

definition nominated :: "(bytes \<times> bytes) list \<Rightarrow> bytes list" where
  "nominated fs = concat (map (\<lambda>f. nominated_by (field_line f)) fs)"

definition pass_named :: "bool \<Rightarrow> bytes option \<Rightarrow> bytes list \<Rightarrow> bytes \<times> bytes \<Rightarrow> (bytes \<times> bytes) list" where
  "pass_named keep auth nom f =
     (if auth \<noteq> None \<and> is_host f then [host_field (the auth)]
      else if (if is_upgrade_line f then \<not> keep
               else is_hop_by_hop_request_header (fst f) \<or> list_ex (eq_ignore_ascii_case (fst f)) nom) then []
      else [f])"

lemma first_line_nominates:
  assumes "is_token m"
  shows "nominated_by (first_line m t h10) = []"
proof (cases "memchr (CHR '':'') (first_line m t h10)")
  case (Some p)
  obtain r where l: "first_line m t h10 = m @ CHR '' '' # r" by (simp add: first_line_def)
  have "position (\<lambda>c. c = CHR '':'') m = None"
    using memchr_None [OF no_colon [OF assms]] by (simp add: memchr_def)
  then obtain q where "p = length m + Suc q"
    using Some by (auto simp: l memchr_def position_append)
  then have "CHR '' '' \<in> set (take p (first_line m t h10))" by (simp add: l)
  then have "CHR '' '' \<in> set (to_ascii_lowercase (take p (first_line m t h10)))"
    unfolding to_ascii_lowercase_def set_map by (rule rev_image_eqI) simp
  then have "to_ascii_lowercase (take p (first_line m t h10)) \<noteq> ''connection''" by auto
  then show ?thesis using Some by (simp add: nominated_by_def header_value_if_def eq_ignore_ascii_case_def)
qed (simp add: nominated_by_def header_value_if_def)

lemma slow_line_field:
  assumes "field_ok f"
  shows "slow_line keep origin nom (field_line f) = field_text (pass_named keep (map_option of_authority origin) nom f)"
proof -
  have "take (length (fst f)) (field_line f) = fst f" by (simp add: field_line_def)
  then show ?thesis
    using field_line_colon [OF assms]
    by (cases origin) (auto simp: slow_line_def Let_def pass_named_def is_host_def put_host_line line_bytes_line)
qed

lemma slow_path_prints:
  assumes "head_syntax h"
  shows "assemble_forward_headers_slow (print_head h) path keep origin fwd =
    out_line h path @ CRLF @
    field_text (concat (map (pass_named keep (map_option of_authority origin) (nominated (h_fields h))) (h_fields h))) @
    append_forward_headers fwd keep origin @ CRLF"
proof -
  let ?l = "first_line (h_method h) (h_target h) (h_http10 h)"
  have l: "(case path of Some p \<Rightarrow> put_request_line ?l p None | None \<Rightarrow> ?l) = out_line h path"
    using no_space [of "h_method h" "h_target h"] assms
    by (auto simp: out_line_def put_request_line_first head_syntax_def split: option.split)
  have n: "nominated_by ?l @ concat (map (nominated_by \<circ> field_line) (h_fields h)) = nominated (h_fields h)"
    using first_line_nominates [of "h_method h"] assms
    by (simp add: nominated_def head_syntax_def request_line_ok_def comp_def)
  have "concat (map (slow_line keep origin nom) (map field_line fs)) =
      field_text (concat (map (pass_named keep (map_option of_authority origin) nom) fs))" if "list_all field_ok fs" for fs nom
    using that by (induction fs) (simp_all add: slow_line_field)
  then show ?thesis
    using assms by (simp add: assemble_forward_headers_slow_def Let_def n l header_lines_head head_syntax_def)
qed

section \<open>The two paths agree\<close>

lemma lower_plain: "33 \<le> ord8 (u8_to_ascii_lowercase c) \<and> ord8 (u8_to_ascii_lowercase c) < 127 \<Longrightarrow> 33 \<le> ord8 c \<and> ord8 c < 127"
proof (cases "is_ascii_uppercase c")
  case True
  then show ?thesis unfolding is_ascii_uppercase_def by linarith
qed simp

lemma quiet_token_plain:
  assumes "quiet_token t" "t \<noteq> []"
  shows "33 \<le> ord8 (hd t) \<and> ord8 (hd t) < 127" "33 \<le> ord8 (last t) \<and> ord8 (last t) < 127"
proof -
  have "list_all (list_all (\<lambda>c. 33 \<le> ord8 c \<and> ord8 c < 127)) [''close'', ''keep-alive'', ''upgrade'', ''http2-settings'']"
    by simp
  then have "list_all (\<lambda>c. 33 \<le> ord8 c \<and> ord8 c < 127) (to_ascii_lowercase t)"
    using assms unfolding quiet_token_def list_all_iff [of "list_all _"] by blast
  then have "\<forall>c \<in> set t. 33 \<le> ord8 (u8_to_ascii_lowercase c) \<and> ord8 (u8_to_ascii_lowercase c) < 127"
    unfolding to_ascii_lowercase_def list_all_iff by simp
  then have "\<forall>c \<in> set t. 33 \<le> ord8 c \<and> ord8 c < 127" using lower_plain by blast
  then show "33 \<le> ord8 (hd t) \<and> ord8 (hd t) < 127" "33 \<le> ord8 (last t) \<and> ord8 (last t) < 127"
    using hd_in_set [OF assms(2)] last_in_set [OF assms(2)] by blast+
qed

lemma trim_ows_ends:
  assumes "trim_ows s \<noteq> []"
  shows "\<not> is_ows (hd (trim_ows s))" "\<not> is_ows (last (trim_ows s))"
proof -
  let ?r = "dropWhile is_ows s"
  have r: "?r \<noteq> []"
  proof
    assume e: "?r = []"
    show False using assms unfolding trim_ows_def e by simp
  qed
  have "rev ?r = takeWhile is_ows (rev ?r) @ rev (trim_ows s)" by (simp add: trim_ows_def)
  then have "?r = trim_ows s @ rev (takeWhile is_ows (rev ?r))" by (metis rev_append rev_rev_ident)
  then have "hd ?r = hd (trim_ows s)" using assms by (metis hd_append2)
  then show "\<not> is_ows (hd (trim_ows s))" using hd_dropWhile [OF r] by simp
  have "dropWhile is_ows (rev ?r) \<noteq> []" using assms by (simp add: trim_ows_def)
  then show "\<not> is_ows (last (trim_ows s))"
    using hd_dropWhile [of is_ows "rev ?r"] by (simp add: trim_ows_def last_rev)
qed

lemma trim_ows_keeps:
  "t \<noteq> [] \<Longrightarrow> \<not> is_ows (hd t) \<Longrightarrow> trim_ows t \<noteq> [] \<and> hd (trim_ows t) = hd t"
  "t \<noteq> [] \<Longrightarrow> \<not> is_ows (last t) \<Longrightarrow> trim_ows t \<noteq> [] \<and> last (trim_ows t) = last t"
proof -
  define c where "c = trim_ows t"
  obtain a b where ab: "t = a @ c @ b" "\<forall>x \<in> set a. is_ows x" "\<forall>x \<in> set b. is_ows x"
    using trim_ows_parts unfolding c_def by blast
  show "trim_ows t \<noteq> [] \<and> hd (trim_ows t) = hd t" if t: "t \<noteq> []" "\<not> is_ows (hd t)"
  proof -
    have "a = []" using ab t by (cases a) auto
    then have "c \<noteq> []" using ab t by (cases b) auto
    then show ?thesis unfolding c_def [symmetric] using ab(1) \<open>a = []\<close> by simp
  qed
  show "trim_ows t \<noteq> [] \<and> last (trim_ows t) = last t" if t: "t \<noteq> []" "\<not> is_ows (last t)"
  proof -
    have "b = []" using ab t by (cases b rule: rev_cases) auto
    then have "c \<noteq> []" using ab t by (cases a rule: rev_cases) auto
    then show ?thesis unfolding c_def [symmetric] using ab(1) \<open>b = []\<close> by simp
  qed
qed

lemma tokens_same:
  assumes "t \<in> set (split_on (CHR '','') (trim_ows v))"
  shows "\<exists>t' \<in> set (split_on (CHR '','') v). trim_ows t' = trim_ows t"
proof -
  have "trim_ows t \<in> set (map trim_ows (split_on (CHR '','') (trim_ows v)))" using assms by simp
  then have "trim_ows t \<in> set (map trim_ows (split_on (CHR '','') v))" by (simp only: tokens_trim)
  then show ?thesis by auto
qed

lemma quiet_end_plain:
  assumes "quiet_token (trim_ows t)"
  shows "t = c # r \<Longrightarrow> \<not> is_ows c \<Longrightarrow> 33 \<le> ord8 c \<and> ord8 c < 127"
    and "t = r @ [c] \<Longrightarrow> \<not> is_ows c \<Longrightarrow> 33 \<le> ord8 c \<and> ord8 c < 127"
proof -
  define u where "u = trim_ows t"
  have q: "quiet_token u" using assms by (simp only: u_def)
  show "33 \<le> ord8 c \<and> ord8 c < 127" if t: "t = c # r" "\<not> is_ows c"
  proof -
    have "t \<noteq> []" "\<not> is_ows (hd t)" "hd t = c" using t by simp_all
    then have "u \<noteq> []" "hd u = c" using trim_ows_keeps(1) [of t] unfolding u_def by blast+
    then show ?thesis using quiet_token_plain(1) [OF q] by blast
  qed
  show "33 \<le> ord8 c \<and> ord8 c < 127" if t: "t = r @ [c]" "\<not> is_ows c"
  proof -
    have "t \<noteq> []" "\<not> is_ows (last t)" "last t = c" using t by simp_all
    then have "u \<noteq> []" "last u = c" using trim_ows_keeps(2) [of t] unfolding u_def by blast+
    then show ?thesis using quiet_token_plain(2) [OF q] by blast
  qed
qed

lemma comma_plain: "33 \<le> ord8 (CHR '','') \<and> ord8 (CHR '','') < 127"
  by simp

lemma split_on_head: "c \<noteq> d \<Longrightarrow> \<exists>p. c # p \<in> set (split_on d (c # s))"
  by (cases "split_on d s") auto

lemma quiet_plain_ends:
  assumes "\<forall>t \<in> set (split_on (CHR '','') v). quiet_token (trim_ows t)"
  shows "plain_ends v"
proof (cases "trim_ows v = []")
  case False
  define w where "w = trim_ows v"
  obtain c s where cs: "w = c # s" using False unfolding w_def by (cases "trim_ows v") blast+
  obtain r d where rd: "w = r @ [d]" using False unfolding w_def by (cases "trim_ows v" rule: rev_cases) blast+
  have ends: "\<not> is_ows c" "\<not> is_ows d"
    using trim_ows_ends(1) [OF False, folded w_def, unfolded cs] trim_ows_ends(2) [OF False, folded w_def, unfolded rd] by simp_all
  have q: "quiet_token (trim_ows t)" if t: "t \<in> set (split_on (CHR '','') w)" for t
  proof -
    obtain t' where "t' \<in> set (split_on (CHR '','') v)" "trim_ows t' = trim_ows t"
      using tokens_same [OF t [unfolded w_def]] by blast
    then show ?thesis using assms by fastforce
  qed
  have "33 \<le> ord8 c \<and> ord8 c < 127"
  proof (cases "c = CHR '',''")
    case no: False
    obtain p where "c # p \<in> set (split_on (CHR '','') w)" unfolding cs using split_on_head [OF no] by blast
    from quiet_end_plain(1) [OF q [OF this] refl ends(1)] show ?thesis .
  next
    case True
    show ?thesis unfolding True by (rule comma_plain)
  qed
  moreover have "33 \<le> ord8 d \<and> ord8 d < 127"
  proof (cases "d = CHR '',''")
    case no: False
    then have "last (split_on (CHR '','') r) @ [d] \<in> set (split_on (CHR '','') w)"
      unfolding rd split_on_snoc [OF no] by simp
    from quiet_end_plain(2) [OF q [OF this] refl ends(2)] show ?thesis .
  next
    case True
    show ?thesis unfolding True by (rule comma_plain)
  qed
  moreover have "hd w = c" unfolding cs by simp
  moreover have "last w = d" unfolding rd by simp
  ultimately show ?thesis unfolding plain_ends_def w_def [symmetric] by blast
qed (simp add: plain_ends_def)

lemma quiet_nominated:
  assumes "quiet fs" "list_all field_ok fs" "n \<in> set (nominated fs)"
  shows "quiet_token n \<and> n \<noteq> []"
proof -
  obtain f where f: "f \<in> set fs" "n \<in> set (nominated_by (field_line f))" using assms(3) by (auto simp: nominated_def)
  have ok: "field_ok f" using assms(2) f(1) by (simp add: list_all_iff)
  have cut: "take (length (fst f)) (field_line f) = fst f" "drop (length (fst f) + 1) (field_line f) = snd f"
    by (simp_all add: field_line_def)
  let ?v = "snd f"
  have c: "eq_ignore_ascii_case (fst f) ''connection''" and n: "n \<noteq> []" "n \<in> str_trim ` set (split_on (CHR '','') (str_trim ?v))"
    using f(2) field_line_colon [OF ok] cut by (auto simp: nominated_by_def header_value_if_def split: if_splits)
  have "?v \<in> set (field_values ''connection'' fs)" using f(1) c by (force simp: field_values_def)
  then have q: "\<forall>t \<in> set (split_on (CHR '','') ?v). quiet_token (trim_ows t)" using assms(1) by (simp add: quiet_def)
  have v: "str_trim ?v = trim_ows ?v" by (rule str_trim_ows [OF quiet_plain_ends [OF q]])
  obtain t where t: "t \<in> set (split_on (CHR '','') (trim_ows ?v))" "n = str_trim t" using n(2) unfolding v by blast
  obtain t' where "t' \<in> set (split_on (CHR '','') ?v)" "trim_ows t' = trim_ows t" using tokens_same [OF t(1)] by blast
  then have qt: "quiet_token (trim_ows t)" using q by fastforce
  have "plain_ends t" using quiet_token_plain [OF qt] unfolding plain_ends_def by blast
  then have "n = trim_ows t" using t(2) str_trim_ows by simp
  then show ?thesis using qt n(1) by blast
qed

lemma quiet_names:
  assumes "quiet fs" "list_all field_ok fs" "list_ex (eq_ignore_ascii_case n) (nominated fs)"
  shows "to_ascii_lowercase n \<in> set [''close'', ''keep-alive'', ''upgrade'', ''http2-settings'']"
proof -
  obtain t where t: "t \<in> set (nominated fs)" "to_ascii_lowercase n = to_ascii_lowercase t"
    using assms(3) by (auto simp: list_ex_iff eq_ignore_ascii_case_def)
  show ?thesis using quiet_nominated [OF assms(1,2) t(1)] unfolding quiet_token_def t(2) by blast
qed

lemma pass_agree:
  assumes q: "quiet fs" "list_all field_ok fs" and c: "\<not> eq_ignore_ascii_case (fst f) ''close''"
    and h: "keep \<Longrightarrow> \<not> h2c_line f"
  shows "pass_marked keep auth f = pass_named keep auth (nominated fs) f"
proof (cases "is_host f")
  case True
  have "to_ascii_lowercase (fst f) = ''host''" using True by (simp add: is_host_def eq_ignore_ascii_case_def)
  then have "\<not> list_ex (eq_ignore_ascii_case (fst f)) (nominated fs)" "\<not> is_upgrade_line f" "\<not> is_hop_by_hop_request_header (fst f)"
    using quiet_names [OF q, of "fst f"] by (auto simp: eq_ignore_ascii_case_def hop_by_hop_iff hop_names_def)
  then show ?thesis using True host_kind [OF True] by (cases auth) (simp_all add: pass_marked_def pass_named_def)
next
  case False
  show ?thesis
  proof (cases "is_upgrade_line f")
    case True
    then show ?thesis
      using False h by (cases auth) (auto simp: pass_marked_def pass_named_def kind_of_def h2c_line_def)
  next
    case no: False
    have "list_ex (eq_ignore_ascii_case (fst f)) (nominated fs) \<Longrightarrow> is_hop_by_hop_request_header (fst f)"
      using quiet_names [OF q, of "fst f"] c no by (auto simp: hop_by_hop_iff hop_names_def eq_ignore_ascii_case_def)
    then show ?thesis
      using False no by (cases auth) (auto simp: pass_marked_def pass_named_def kind_of_def)
  qed
qed

lemma paths_agree:
  assumes f: "fast_head h" and og: "origin_ok h origin"
    and c: "\<forall>f \<in> set (h_fields h). \<not> eq_ignore_ascii_case (fst f) ''close''"
    and k: "keep \<Longrightarrow> \<not> p_h2c (head_state h)"
  shows "assemble_forward_headers (print_head h) path (p_spans (head_state h)) (p_upgrade_span (head_state h)) keep origin fwd =
    assemble_forward_headers_slow (print_head h) path keep origin fwd"
proof -
  have syn: "head_syntax h" and v: "\<not> p_violation (head_state h)" "\<not> needs_slow_path (p_spans (head_state h))"
    using f by (simp_all add: fast_head_def)
  have ok: "list_all field_ok (h_fields h)" using syn by (simp add: head_syntax_def)
  have q: "quiet (h_fields h)" using read_fields_quiet v unfolding head_state_def by blast
  have "pass_marked keep auth x = pass_named keep auth (nominated (h_fields h)) x" if x: "x \<in> set (h_fields h)" for auth x
  proof (rule pass_agree [OF q ok])
    show "\<not> h2c_line x" if "keep"
      using read_fields_h2c [OF _ _ x] v(1) k [OF that] unfolding head_state_def by blast
  qed (use c x in blast)
  then have "map (pass_marked keep auth) (h_fields h) = map (pass_named keep auth (nominated (h_fields h))) (h_fields h)" for auth
    by (intro map_cong) auto
  then show ?thesis by (simp only: fast_path_prints [OF f og] slow_path_prints [OF syn])
qed

lemma accepted_state:
  assumes "head_meaning h host path"
  shows "\<not> p_violation (head_state h)"
  using assms read_fields_core [of "h_http10 h" "h_fields h"] by (auto simp: head_meaning_def head_state_def core_of_def)

lemma origin_form_line: "origin_form_of raw sp = Some og \<Longrightarrow> of_host_line og = host_line raw"
  by (auto simp: origin_form_of_def Let_def split: if_splits option.splits)

lemma origin_form_ok: "origin_ok h (origin_form_of (print_head h) sp)"
  using origin_form_line [of "print_head h" sp] by (simp add: origin_ok_def split: option.split)


text \<open>A head with a hop-by-hop line, and the same head with a field the Connection line nominates.\<close>

definition hop_head :: head where
  "hop_head = \<lparr>h_method = ''GET'', h_target = ''/'', h_http10 = False,
     h_fields = [(''Host'', '' x''), (''Connection'', '' close''), (''TE'', '' gzip'')]\<rparr>"

definition close_head :: head where
  "close_head = hop_head\<lparr>h_fields := h_fields hop_head @ [(''Close'', ''1'')]\<rparr>"

lemmas head_eval = hop_head_def close_head_def class_iffs any_of_def TCHAR_MARKS_def TARGET_HOLES_def VALUE_HOLES_def ascii_defs

lemma hop_syntax: "head_syntax hop_head" "head_syntax close_head"
  by (simp_all add: head_syntax_def request_line_ok_def is_token_def target_ok_def target_byte_def field_ok_def head_eval)

lemma hop_host: "split_host ''x'' = Some 1"
  by (simp add: split_host_iff host_form_def port_form_def is_HOST any_of_def ascii_defs)

lemma hop_meaning: "head_meaning hop_head ''x'' ''/''" "head_meaning close_head ''x'' ''/''"
proof -
  have v: "field_values ''host'' (h_fields h) = ['' x'']" "field_values ''content-length'' (h_fields h) = []"
      "field_values ''transfer-encoding'' (h_fields h) = []" "field_values ''connection'' (h_fields h) = ['' close'']"
      "target_form (h_method h) (h_target h) None ''/''"
    if "h = hop_head \<or> h = close_head" for h
    using that by (auto simp: field_values_def target_form_def head_eval)
  have s: "split_host ''x'' = Some 1" "trim_ows '' x'' = ''x''" "\<not> framing_token '' close''"
    by (simp_all add: hop_host ascii_defs trim_ows_def is_ows_def framing_token_def)
  have "head_meaning h ''x'' ''/''" if h: "h = hop_head \<or> h = close_head" for h
    unfolding head_meaning_def using v [OF h] s
    by (intro exI [of _ None]) (simp add: lines_ok_def at_most_one_def host_named_def host_of_def)
  then show "head_meaning hop_head ''x'' ''/''" "head_meaning close_head ''x'' ''/''" by simp_all
qed

lemma hop_fast: "fast_head hop_head" "fast_head close_head"
proof -
  have "\<not> needs_slow_path (p_spans (head_state hop_head))" "\<not> needs_slow_path (p_spans (head_state close_head))"
    by (simp_all add: head_state_def head_eval parse_start_def header_line_def header_field_def connection_token_def
        hop_host no_spans_def MAX_STRIP_SPANS_def trim_ows_def is_ows_def push_span_def set_slow_path_def eq_ignore_ascii_case_def Let_def)
  then show "fast_head hop_head" "fast_head close_head"
    using hop_syntax hop_meaning [THEN accepted_state]
    by (simp_all add: fast_head_def print_head_def head_line_def request_line_def line_bytes_def hop_head_def close_head_def)
qed


text \<open>The one difference: a field called \<open>Close\<close> beside \<open>Connection: close\<close> passes on the fast path only.\<close>

lemma close_field_passes:
  "assemble_forward_headers (print_head close_head) None (p_spans (head_state close_head))
     (p_upgrade_span (head_state close_head)) False None fwd \<noteq>
   assemble_forward_headers_slow (print_head close_head) None False None fwd"
proof -
  have m: "concat (map (pass_marked False None) (h_fields close_head)) = [(''Host'', '' x''), (''Close'', ''1'')]"
    by (simp add: pass_marked_def kind_of_def hop_by_hop_iff hop_names_def head_eval)
  have t: "str_trim '' close'' = ''close''" "str_trim ''close'' = ''close''"
    by (subst str_trim_ows; simp add: plain_ends_def trim_ows_def is_ows_def)+
  have u: "is_utf8 '' close''" by code_simp
  have "nominated_by ''Connection: close'' = [''close'']"
    by (simp add: nominated_by_def header_value_if_def memchr_def ascii_defs u t)
  moreover have "nominated_by ''Host: x'' = []" "nominated_by ''TE: gzip'' = []" "nominated_by ''Close:1'' = []"
    by (simp_all add: nominated_by_def header_value_if_def memchr_def ascii_defs)
  ultimately have "nominated (h_fields close_head) = [''close'']"
    by (simp add: nominated_def close_head_def hop_head_def field_line_def)
  then have n: "concat (map (pass_named False None (nominated (h_fields close_head))) (h_fields close_head)) = [(''Host'', '' x'')]"
    by (simp add: pass_named_def hop_by_hop_iff hop_names_def head_eval)
  show ?thesis
    using fast_path_prints [OF hop_fast(2), of None] slow_path_prints [OF hop_syntax(2)]
    by (simp add: origin_ok_def m n line_bytes_def)
qed

end
