(* ===== verification/Backend_Pool.thy ===== *)
theory Backend_Pool
  imports Portail_Prelude
begin

text \<open>
  Idle backend connections (\<open>src/src/proxy/backend_pool.rs\<close>): the pool of one client connection,
  the pool shared by the process, the handle that hides which of the two a task got, the
  classification of connect errors, and the throttle of repeated log lines.

  A connection is a value of \<open>'c\<close>; \<open>alive\<close> is what the probe of an idle connection finds. A
  vector is a list whose last element is popped first. The shared pool's operations each hold the
  lock of the address they touch, so they are single steps.
\<close>

section \<open>Idle connections\<close>

record 'c idle_conns =
  ic_plain :: "'c list"
  ic_tls :: "(bytes \<times> 'c list) list"

definition idle_default :: "'c idle_conns" where
  "idle_default = \<lparr>ic_plain = [], ic_tls = []\<rparr>"

record pool_metrics =
  pool_hits :: nat
  pool_misses :: nat
  pool_stale_discards :: nat
  pool_overflow_drops :: nat
  upstream_connects :: nat

text \<open>The loop that pops until a connection is alive, on the vector from its end.\<close>

fun pop_live :: "('c \<Rightarrow> bool) \<Rightarrow> 'c list \<Rightarrow> pool_metrics \<Rightarrow> 'c option \<times> 'c list \<times> pool_metrics" where
  "pop_live alive [] m = (None, [], m)"
| "pop_live alive (c # cs) m =
     (if alive c then (Some c, cs, m\<lparr>pool_hits := pool_hits m + 1\<rparr>)
      else pop_live alive cs (m\<lparr>pool_stale_discards := pool_stale_discards m + 1\<rparr>))"

definition take_live :: "('c \<Rightarrow> bool) \<Rightarrow> bytes option \<Rightarrow> 'c idle_conns \<Rightarrow> pool_metrics \<Rightarrow>
    'c option \<times> 'c idle_conns \<times> pool_metrics" where
  "take_live alive s ic m =
     (case s of
        None \<Rightarrow> (case pop_live alive (rev (ic_plain ic)) m of
                    (r, cs, m') \<Rightarrow> (r, ic\<lparr>ic_plain := rev cs\<rparr>, m'))
      | Some name \<Rightarrow>
          (case map_of (ic_tls ic) name of
             None \<Rightarrow> (None, ic, m)
           | Some conns \<Rightarrow> (case pop_live alive (rev conns) m of
               (r, cs, m') \<Rightarrow> (r, ic\<lparr>ic_tls := upsert name [] (\<lambda>_. rev cs) (ic_tls ic)\<rparr>, m'))))"

definition push_idle :: "nat \<Rightarrow> 'c \<Rightarrow> 'c list \<Rightarrow> 'c list" where
  "push_idle max_idle c conns = (if length conns < max_idle then conns @ [c] else conns)"

definition sni_conns :: "bytes option \<Rightarrow> 'c idle_conns \<Rightarrow> 'c list" where
  "sni_conns s ic = (case s of None \<Rightarrow> ic_plain ic | Some name \<Rightarrow>
     (case map_of (ic_tls ic) name of Some cs \<Rightarrow> cs | None \<Rightarrow> []))"

definition put :: "bytes option \<Rightarrow> 'c \<Rightarrow> nat \<Rightarrow> 'c idle_conns \<Rightarrow> pool_metrics \<Rightarrow> 'c idle_conns \<times> pool_metrics" where
  "put s c max_idle ic m =
     ((case s of
         None \<Rightarrow> ic\<lparr>ic_plain := push_idle max_idle c (ic_plain ic)\<rparr>
       | Some name \<Rightarrow> ic\<lparr>ic_tls := upsert name [] (push_idle max_idle c) (ic_tls ic)\<rparr>),
      if length (sni_conns s ic) < max_idle then m else m\<lparr>pool_overflow_drops := pool_overflow_drops m + 1\<rparr>)"

definition sni :: "bool \<Rightarrow> bytes \<Rightarrow> bytes option" where
  "sni use_tls server_name = (if use_tls then Some server_name else None)"

section \<open>Connecting\<close>

datatype errno = EMFILE | ENFILE | ENOBUFS | ENOMEM | OtherErrno int

datatype connect_err = Local errno | BackendFailed

definition out_of_fds_or_memory :: "errno \<Rightarrow> bool" where
  "out_of_fds_or_memory e \<longleftrightarrow> e \<in> {EMFILE, ENFILE, ENOBUFS, ENOMEM}"

definition connect_error :: "errno \<Rightarrow> connect_err" where
  "connect_error e = (if out_of_fds_or_memory e then Local e else BackendFailed)"

text \<open>
  What the network answers to one attempt: the connect (no answer within the timeout is
  \<open>None\<close>), the socket option, and the handshake with the name it is asked for.
\<close>

record 'c dial =
  d_connect :: "(errno + 'c) option"
  d_nodelay :: "errno option"
  d_handshake :: "bytes \<Rightarrow> 'c option"

definition connect_tcp :: "'c dial \<Rightarrow> connect_err + 'c" where
  "connect_tcp d =
     (case d_connect d of
        Some (Inr tcp) \<Rightarrow> (case d_nodelay d of Some e \<Rightarrow> Inl (connect_error e) | None \<Rightarrow> Inr tcp)
      | Some (Inl e) \<Rightarrow> Inl (connect_error e)
      | None \<Rightarrow> Inl BackendFailed)"

text \<open>\<open>valid_name\<close> tells which server names the TLS library takes.\<close>

definition connect_new :: "(bytes \<Rightarrow> bool) \<Rightarrow> 'c dial \<Rightarrow> bool \<Rightarrow> bytes \<Rightarrow> pool_metrics \<Rightarrow>
    (connect_err + 'c) \<times> pool_metrics" where
  "connect_new valid_name d use_tls server_name m =
     (case connect_tcp d of
        Inl e \<Rightarrow> (Inl e, m)
      | Inr tcp \<Rightarrow>
          let m = m\<lparr>upstream_connects := upstream_connects m + 1\<rparr> in
          if use_tls
          then (case d_handshake d (if valid_name server_name then server_name else ''localhost'') of
                  Some tls_stream \<Rightarrow> (Inr tls_stream, m) | None \<Rightarrow> (Inl BackendFailed, m))
          else (Inr tcp, m))"

section \<open>The pools\<close>

record 'c backend_pool =
  pools :: "(socket_addr \<times> 'c idle_conns) list"
  max_idle_per_backend :: nat

definition pool_new :: "nat \<Rightarrow> 'c backend_pool" where
  "pool_new max_idle = \<lparr>pools = [], max_idle_per_backend = max_idle\<rparr>"

definition take_idle :: "('c \<Rightarrow> bool) \<Rightarrow> socket_addr \<Rightarrow> bool \<Rightarrow> bytes \<Rightarrow> 'c backend_pool \<Rightarrow> pool_metrics \<Rightarrow>
    'c option \<times> 'c backend_pool \<times> pool_metrics" where
  "take_idle alive addr use_tls server_name p m =
     (case map_of (pools p) addr of
        None \<Rightarrow> (None, p, m)
      | Some idle \<Rightarrow> (case take_live alive (sni use_tls server_name) idle m of
          (r, idle', m') \<Rightarrow> (r, p\<lparr>pools := upsert addr idle_default (\<lambda>_. idle') (pools p)\<rparr>, m')))"

definition acquire_fresh :: "(bytes \<Rightarrow> bool) \<Rightarrow> 'c dial \<Rightarrow> bool \<Rightarrow> bytes \<Rightarrow> pool_metrics \<Rightarrow>
    (connect_err + 'c) \<times> pool_metrics" where
  "acquire_fresh valid_name d use_tls server_name m = connect_new valid_name d use_tls server_name m"

definition acquire :: "(bytes \<Rightarrow> bool) \<Rightarrow> ('c \<Rightarrow> bool) \<Rightarrow> 'c dial \<Rightarrow> socket_addr \<Rightarrow> bool \<Rightarrow> bytes \<Rightarrow> 'c backend_pool \<Rightarrow>
    pool_metrics \<Rightarrow> (connect_err + 'c \<times> bool) \<times> 'c backend_pool \<times> pool_metrics" where
  "acquire valid_name alive d addr use_tls server_name p m =
     (case take_idle alive addr use_tls server_name p m of
        (Some conn, p', m') \<Rightarrow> (Inr (conn, True), p', m')
      | (None, p', m') \<Rightarrow>
          (case connect_new valid_name d use_tls server_name (m'\<lparr>pool_misses := pool_misses m' + 1\<rparr>) of
             (Inl e, m'') \<Rightarrow> (Inl e, p', m'')
           | (Inr conn, m'') \<Rightarrow> (Inr (conn, False), p', m'')))"

definition release :: "socket_addr \<Rightarrow> bool \<Rightarrow> bytes \<Rightarrow> 'c \<Rightarrow> 'c backend_pool \<Rightarrow> pool_metrics \<Rightarrow>
    'c backend_pool \<times> pool_metrics" where
  "release addr use_tls server_name c p m =
     (let s = sni use_tls server_name; cap = max_idle_per_backend p;
          idle = (case map_of (pools p) addr of Some i \<Rightarrow> i | None \<Rightarrow> idle_default)
      in (p\<lparr>pools := upsert addr idle_default (\<lambda>i. fst (put s c cap i m)) (pools p)\<rparr>, snd (put s c cap idle m)))"

text \<open>
  The pools of a process: one per client connection, numbered, and the shared one. A handle names
  the one its task uses.
\<close>

datatype pool_handle = PerConn nat | Shared

record 'c process_pools =
  own_pool :: "nat \<Rightarrow> 'c backend_pool"
  shared_pool :: "'c backend_pool"

definition handle_pool :: "pool_handle \<Rightarrow> 'c process_pools \<Rightarrow> 'c backend_pool" where
  "handle_pool h w = (case h of PerConn i \<Rightarrow> own_pool w i | Shared \<Rightarrow> shared_pool w)"

definition set_pool :: "pool_handle \<Rightarrow> 'c backend_pool \<Rightarrow> 'c process_pools \<Rightarrow> 'c process_pools" where
  "set_pool h p w = (case h of PerConn i \<Rightarrow> w\<lparr>own_pool := (own_pool w)(i := p)\<rparr> | Shared \<Rightarrow> w\<lparr>shared_pool := p\<rparr>)"

definition handle_take_idle :: "('c \<Rightarrow> bool) \<Rightarrow> pool_handle \<Rightarrow> socket_addr \<Rightarrow> bool \<Rightarrow> bytes \<Rightarrow> 'c process_pools \<Rightarrow>
    pool_metrics \<Rightarrow> 'c option \<times> 'c process_pools \<times> pool_metrics" where
  "handle_take_idle alive h addr use_tls server_name w m =
     (case take_idle alive addr use_tls server_name (handle_pool h w) m of (r, p, m') \<Rightarrow> (r, set_pool h p w, m'))"

definition handle_acquire :: "(bytes \<Rightarrow> bool) \<Rightarrow> ('c \<Rightarrow> bool) \<Rightarrow> 'c dial \<Rightarrow> pool_handle \<Rightarrow> socket_addr \<Rightarrow> bool \<Rightarrow> bytes \<Rightarrow>
    'c process_pools \<Rightarrow> pool_metrics \<Rightarrow> (connect_err + 'c \<times> bool) \<times> 'c process_pools \<times> pool_metrics" where
  "handle_acquire valid_name alive d h addr use_tls server_name w m =
     (case acquire valid_name alive d addr use_tls server_name (handle_pool h w) m of (r, p, m') \<Rightarrow> (r, set_pool h p w, m'))"

definition handle_release :: "pool_handle \<Rightarrow> socket_addr \<Rightarrow> bool \<Rightarrow> bytes \<Rightarrow> 'c \<Rightarrow> 'c process_pools \<Rightarrow> pool_metrics \<Rightarrow>
    'c process_pools \<times> pool_metrics" where
  "handle_release h addr use_tls server_name c w m =
     (case release addr use_tls server_name c (handle_pool h w) m of (p, m') \<Rightarrow> (set_pool h p w, m'))"

section \<open>The log throttle\<close>

text \<open>\<open>loaded\<close> is what the first load read: it differs from the field when another call won.\<close>

record log_throttle =
  lt_next :: u64
  lt_suppressed :: u64

definition throttle_new :: log_throttle where
  "throttle_new = \<lparr>lt_next = 0, lt_suppressed = 0\<rparr>"

definition admit :: "u64 \<Rightarrow> u64 \<Rightarrow> u64 \<Rightarrow> log_throttle \<Rightarrow> u64 option \<times> log_throttle" where
  "admit loaded now every t =
     (if now < loaded \<or> lt_next t \<noteq> loaded then (None, t\<lparr>lt_suppressed := lt_suppressed t + 1\<rparr>)
      else (Some (lt_suppressed t), t\<lparr>lt_next := now + every, lt_suppressed := 0\<rparr>))"

definition FLOOD_LOG_EVERY :: u64 where "FLOOD_LOG_EVERY = 10"

definition admit_now :: "u64 \<Rightarrow> log_throttle \<Rightarrow> u64 option \<times> log_throttle" where
  "admit_now now t = admit (lt_next t) now FLOOD_LOG_EVERY t"

section \<open>The contract of a pool\<close>

text \<open>
  A pool is a stack of idle connections per key. Taking pops down to the first live connection and
  forgets the dead ones above it; giving back pushes, up to the cap.
\<close>

locale idle_stacks =
  fixes idle :: "'p \<Rightarrow> 'k \<Rightarrow> 'c list"
    and cap :: "'p \<Rightarrow> 'k \<Rightarrow> nat"
    and key :: "'q \<Rightarrow> 'k"
    and take_one :: "('c \<Rightarrow> bool) \<Rightarrow> 'q \<Rightarrow> 'p \<Rightarrow> 'c option \<times> 'p"
    and give_back :: "'q \<Rightarrow> 'c \<Rightarrow> 'p \<Rightarrow> 'p"
  assumes take_some: "take_one alive q p = (Some c, p') \<Longrightarrow>
      \<exists>dead kept. idle p (key q) = kept @ c # dead \<and> (\<forall>d \<in> set dead. \<not> alive d) \<and> alive c \<and>
        idle p' = (idle p)(key q := kept) \<and> cap p' = cap p"
    and take_none: "take_one alive q p = (None, p') \<Longrightarrow>
      (\<forall>d \<in> set (idle p (key q)). \<not> alive d) \<and> idle p' = (idle p)(key q := []) \<and> cap p' = cap p"
    and give_idle: "idle (give_back q c p) = (idle p)(key q := push_idle (cap p (key q)) c (idle p (key q)))"
    and give_cap: "cap (give_back q c p) = cap p"

text \<open>
  Who has which connection: \<open>opened\<close> is the identity each was opened for, \<open>out\<close> those that
  tasks hold, for the identity they asked for. No connection is in two places.
\<close>

definition pool_inv :: "('k \<Rightarrow> 'c list) \<Rightarrow> ('k \<Rightarrow> nat) \<Rightarrow> ('k \<Rightarrow> 'i) \<Rightarrow> ('c \<rightharpoonup> 'i) \<Rightarrow> ('c \<rightharpoonup> 'i) \<Rightarrow> bool" where
  "pool_inv idle cap idn opened out \<longleftrightarrow>
     (\<forall>k. distinct (idle k) \<and> length (idle k) \<le> cap k) \<and>
     (\<forall>k. \<forall>c \<in> set (idle k). opened c = Some (idn k) \<and> out c = None \<and> (\<forall>k'. c \<in> set (idle k') \<longrightarrow> k' = k)) \<and>
     (\<forall>c i. out c = Some i \<longrightarrow> opened c = Some i)"

lemma pool_inv_shrink:
  assumes "pool_inv idle cap idn opened out" "idle k = kept @ gone"
  shows "pool_inv (idle(k := kept)) cap idn opened out"
  unfolding pool_inv_def
proof (intro conjI allI)
  have d: "distinct kept" "length kept \<le> cap k" "set kept \<subseteq> set (idle k)"
    using assms distinct_append [of kept gone] unfolding pool_inv_def by (metis, metis length_append le_add1 order_trans, simp)
  show "distinct ((idle(k := kept)) x)" "length ((idle(k := kept)) x) \<le> cap x" for x
    using d assms(1) by (simp_all add: pool_inv_def)
  show "\<forall>c \<in> set ((idle(k := kept)) x). opened c = Some (idn x) \<and> out c = None \<and>
      (\<forall>k'. c \<in> set ((idle(k := kept)) k') \<longrightarrow> k' = x)" for x
    using assms(1) d(3) unfolding pool_inv_def by (auto split: if_splits)
  show "out c = Some i \<longrightarrow> opened c = Some i" for c i using assms(1) by (simp add: pool_inv_def)
qed

lemma pool_inv_drop: "pool_inv idle cap idn opened out \<Longrightarrow> pool_inv idle cap idn opened (out(c := None))"
  by (simp add: pool_inv_def)

lemma pool_inv_out:
  assumes "pool_inv idle cap idn opened out" "opened c = Some i" "\<And>k. c \<notin> set (idle k)"
  shows "pool_inv idle cap idn opened (out(c \<mapsto> i))"
  using assms unfolding pool_inv_def by (metis fun_upd_apply option.inject)

lemma pool_inv_push:
  assumes inv: "pool_inv idle cap idn opened out" and c: "out c = Some (idn k)"
  shows "pool_inv (idle(k := push_idle (cap k) c (idle k))) cap idn opened (out(c := None))"
proof -
  have o: "opened c = Some (idn k)" and nowhere: "c \<notin> set (idle x)" for x
    using inv c unfolding pool_inv_def by (blast, metis option.distinct(1))
  have k: "distinct (idle k)" "length (idle k) \<le> cap k" using inv by (simp_all add: pool_inv_def)
  show ?thesis
  proof (cases "length (idle k) < cap k")
    case True
    then show ?thesis
      using inv o nowhere k by (auto simp: pool_inv_def push_idle_def)
  next
    case False
    then show ?thesis using pool_inv_drop [OF inv, of c] by (simp add: push_idle_def)
  qed
qed

context idle_stacks
begin

lemma take_inv:
  assumes "pool_inv (idle p) (cap p) idn opened out" "take_one alive q p = (r, p')"
  shows "pool_inv (idle p') (cap p') idn opened (case r of Some c \<Rightarrow> out(c \<mapsto> idn (key q)) | None \<Rightarrow> out)"
proof (cases r)
  case None
  then show ?thesis using take_none [of alive q p p'] pool_inv_shrink [OF assms(1), of "key q" "[]"] assms(2) by simp
next
  case (Some c)
  obtain dead kept where k: "idle p (key q) = kept @ c # dead" "idle p' = (idle p)(key q := kept)" "cap p' = cap p"
    using take_some [OF assms(2) [unfolded Some]] by blast
  have "c \<in> set (idle p (key q))" "c \<notin> set kept"
    using k(1) assms(1) by (simp, metis (no_types, lifting) distinct_append disjoint_iff list.set_intros(1) pool_inv_def)
  then have "opened c = Some (idn (key q))" "c \<notin> set ((idle p') x)" for x
    using assms(1) k(2) by (auto simp: pool_inv_def)
  then show ?thesis
    using pool_inv_shrink [OF assms(1) k(1)] k(2,3) by (simp add: Some pool_inv_out)
qed

lemma give_inv:
  assumes "pool_inv (idle p) (cap p) idn opened out" "out c = Some (idn (key q))"
  shows "pool_inv (idle (give_back q c p)) (cap (give_back q c p)) idn opened (out(c := None))"
  using pool_inv_push [OF assms] by (simp add: give_idle give_cap)

lemma taken:
  assumes "pool_inv (idle p) (cap p) idn opened out" "take_one alive q p = (Some c, p')"
  shows "alive c \<and> opened c = Some (idn (key q)) \<and> out c = None"
proof -
  have "alive c" "c \<in> set (idle p (key q))" using take_some [OF assms(2)] by auto
  then show ?thesis using assms(1) unfolding pool_inv_def by blast
qed

end

section \<open>The pools meet the contract\<close>

type_synonym identity = "socket_addr \<times> bytes option"
type_synonym pool_request = "pool_handle \<times> socket_addr \<times> bool \<times> bytes"

definition idle_at :: "'c backend_pool \<Rightarrow> identity \<Rightarrow> 'c list" where
  "idle_at p i = (case map_of (pools p) (fst i) of None \<Rightarrow> [] | Some ic \<Rightarrow> sni_conns (snd i) ic)"

definition process_idle :: "'c process_pools \<Rightarrow> pool_handle \<times> identity \<Rightarrow> 'c list" where
  "process_idle w k = idle_at (handle_pool (fst k) w) (snd k)"

definition process_cap :: "'c process_pools \<Rightarrow> pool_handle \<times> identity \<Rightarrow> nat" where
  "process_cap w k = max_idle_per_backend (handle_pool (fst k) w)"

definition request_key :: "pool_request \<Rightarrow> pool_handle \<times> identity" where
  "request_key = (\<lambda>(h, addr, use_tls, name). (h, addr, sni use_tls name))"

definition process_take :: "pool_metrics \<Rightarrow> ('c \<Rightarrow> bool) \<Rightarrow> pool_request \<Rightarrow> 'c process_pools \<Rightarrow> 'c option \<times> 'c process_pools" where
  "process_take m alive = (\<lambda>(h, addr, use_tls, name) w.
     case handle_take_idle alive h addr use_tls name w m of (r, w', _) \<Rightarrow> (r, w'))"

definition process_give :: "pool_metrics \<Rightarrow> pool_request \<Rightarrow> 'c \<Rightarrow> 'c process_pools \<Rightarrow> 'c process_pools" where
  "process_give m = (\<lambda>(h, addr, use_tls, name) c w. fst (handle_release h addr use_tls name c w m))"

lemma pop_live_some:
  "pop_live alive cs m = (Some c, kept, m') \<Longrightarrow> \<exists>dead. cs = dead @ c # kept \<and> (\<forall>d \<in> set dead. \<not> alive d) \<and> alive c"
proof (induction cs arbitrary: m)
  case (Cons x cs)
  show ?case
  proof (cases "alive x")
    case False
    then obtain dead where "cs = dead @ c # kept" "\<forall>d \<in> set dead. \<not> alive d" "alive c"
      using Cons.IH Cons.prems by auto
    then show ?thesis using False by (intro exI [of _ "x # dead"]) simp
  qed (use Cons.prems in simp)
qed simp

lemma pop_live_none:
  "pop_live alive cs m = (None, kept, m') \<Longrightarrow> kept = [] \<and> (\<forall>d \<in> set cs. \<not> alive d)"
  by (induction cs arbitrary: m) (auto split: if_splits)

lemma sni_conns_default [simp]: "sni_conns s idle_default = []"
  by (simp add: sni_conns_def idle_default_def split: option.split)

lemma take_live_conns:
  assumes "take_live alive s ic m = (r, ic', m')"
  shows "\<exists>kept m'. pop_live alive (rev (sni_conns s ic)) m = (r, kept, m') \<and>
    sni_conns x ic' = (if x = s then rev kept else sni_conns x ic)"
  using assms by (cases s; cases x) (auto simp: take_live_def sni_conns_def split: option.splits prod.splits)

lemma put_conns:
  "sni_conns x (fst (put s c cap ic m)) = (if x = s then push_idle cap c (sni_conns s ic) else sni_conns x ic)"
  by (cases s; cases x) (auto simp: put_def sni_conns_def push_idle_def split: option.splits)

lemma take_idle_conns:
  assumes "take_idle alive addr use_tls name p m = (r, p', m')"
  shows "\<exists>kept m'. pop_live alive (rev (idle_at p (addr, sni use_tls name))) m = (r, kept, m') \<and>
    idle_at p' = (idle_at p)((addr, sni use_tls name) := rev kept) \<and> max_idle_per_backend p' = max_idle_per_backend p"
proof (cases "map_of (pools p) addr")
  case None
  then show ?thesis using assms by (auto simp: take_idle_def idle_at_def fun_eq_iff)
next
  case (Some ic)
  obtain ic' m'' where t: "take_live alive (sni use_tls name) ic m = (r, ic', m'')"
      "p' = p\<lparr>pools := upsert addr idle_default (\<lambda>_. ic') (pools p)\<rparr>"
    using assms Some by (auto simp: take_idle_def split: prod.splits)
  obtain kept n where k: "pop_live alive (rev (sni_conns (sni use_tls name) ic)) m = (r, kept, n)"
    using take_live_conns [OF t(1)] by blast
  have "sni_conns x ic' = (if x = sni use_tls name then rev kept else sni_conns x ic)" for x
    using take_live_conns [OF t(1), of x] k by auto
  then show ?thesis using k Some by (auto simp: t(2) idle_at_def fun_eq_iff)
qed

lemma release_conns:
  "idle_at (fst (release addr use_tls name c p m)) = (idle_at p)((addr, sni use_tls name) :=
     push_idle (max_idle_per_backend p) c (idle_at p (addr, sni use_tls name)))"
  "max_idle_per_backend (fst (release addr use_tls name c p m)) = max_idle_per_backend p"
  by (auto simp: release_def Let_def idle_at_def put_conns fun_eq_iff split: option.split)

lemma handle_set [simp]: "handle_pool h' (set_pool h p w) = (if h' = h then p else handle_pool h' w)"
  by (cases h; cases h') (auto simp: handle_pool_def set_pool_def)

lemma process_set: "process_idle (set_pool h p w) = (\<lambda>k. if fst k = h then idle_at p (snd k) else process_idle w k)"
  "process_cap (set_pool h p w) = (\<lambda>k. if fst k = h then max_idle_per_backend p else process_cap w k)"
  by (auto simp: process_idle_def process_cap_def)

interpretation process: idle_stacks process_idle process_cap request_key "process_take m" "process_give m" for m
proof unfold_locales
  fix alive :: "'a \<Rightarrow> bool" and q :: pool_request and p p' :: "'a process_pools" and c
  obtain h addr t name where q: "q = (h, addr, t, name)" by (cases q)
  let ?i = "(addr, sni t name)"
  have taken: "\<exists>kept m'. pop_live alive (rev (process_idle p (request_key q))) m = (r, kept, m') \<and>
      process_idle p' = (process_idle p)(request_key q := rev kept) \<and> process_cap p' = process_cap p"
    if r: "process_take m alive q p = (r, p')" for r
  proof -
    obtain b n where b: "take_idle alive addr t name (handle_pool h p) m = (r, b, n)" "p' = set_pool h b p"
      using r by (auto simp: q process_take_def handle_take_idle_def split: prod.splits)
    then show ?thesis
      using take_idle_conns [OF b(1)]
      by (auto simp: process_set process_idle_def process_cap_def request_key_def q fun_eq_iff)
  qed
  show "\<exists>dead kept. process_idle p (request_key q) = kept @ c # dead \<and> (\<forall>d \<in> set dead. \<not> alive d) \<and> alive c \<and>
      process_idle p' = (process_idle p)(request_key q := kept) \<and> process_cap p' = process_cap p"
    if r: "process_take m alive q p = (Some c, p')"
  proof -
    obtain kept m' where k: "pop_live alive (rev (process_idle p (request_key q))) m = (Some c, kept, m')"
        "process_idle p' = (process_idle p)(request_key q := rev kept)" "process_cap p' = process_cap p"
      using taken [OF r] by blast
    obtain dead where d: "rev (process_idle p (request_key q)) = dead @ c # kept" "\<forall>d \<in> set dead. \<not> alive d" "alive c"
      using pop_live_some [OF k(1)] by blast
    have "process_idle p (request_key q) = rev kept @ c # rev dead" using arg_cong [OF d(1), of rev] by simp
    then show ?thesis using k d by (intro exI [of _ "rev dead"] exI [of _ "rev kept"]) simp
  qed
  show "(\<forall>d \<in> set (process_idle p (request_key q)). \<not> alive d) \<and>
      process_idle p' = (process_idle p)(request_key q := []) \<and> process_cap p' = process_cap p"
    if "process_take m alive q p = (None, p')"
    using taken [OF that] pop_live_none by fastforce
  have g: "process_give m q c p = set_pool h (fst (release addr t name c (handle_pool h p) m)) p"
    by (simp add: q process_give_def handle_release_def split: prod.splits)
  show "process_idle (process_give m q c p) = (process_idle p)(request_key q :=
      push_idle (process_cap p (request_key q)) c (process_idle p (request_key q)))"
    "process_cap (process_give m q c p) = process_cap p"
    unfolding g by (auto simp: process_set release_conns process_idle_def process_cap_def request_key_def q fun_eq_iff)
qed

section \<open>Tasks sharing connections\<close>

text \<open>
  Tasks interleave freely. A task takes an idle connection, or finds none and opens one; it gives
  a connection back under the identity it asked for, or closes it.
\<close>

type_synonym 'c pool_state = "'c process_pools \<times> ('c \<rightharpoonup> identity) \<times> ('c \<rightharpoonup> identity)"

inductive pool_step :: "'c pool_state \<Rightarrow> 'c pool_state \<Rightarrow> bool" where
  hit: "handle_take_idle alive h addr use_tls name w m = (Some c, w', m') \<Longrightarrow>
    pool_step (w, opened, out) (w', opened, out(c \<mapsto> (addr, sni use_tls name)))"
| miss: "handle_take_idle alive h addr use_tls name w m = (None, w', m') \<Longrightarrow>
    pool_step (w, opened, out) (w', opened, out)"
| connected: "opened c = None \<Longrightarrow> pool_step (w, opened, out) (w, opened(c \<mapsto> i), out(c \<mapsto> i))"
| released: "out c = Some (addr, sni use_tls name) \<Longrightarrow>
    pool_step (w, opened, out) (fst (handle_release h addr use_tls name c w m), opened, out(c := None))"
| closed: "pool_step (w, opened, out) (w, opened, out(c := None))"

definition pools_ok :: "'c pool_state \<Rightarrow> bool" where
  "pools_ok = (\<lambda>(w, opened, out). pool_inv (process_idle w) (process_cap w) snd opened out)"

lemma take_request: "handle_take_idle alive h addr use_tls name w m = (r, w', m') \<Longrightarrow>
    process_take m alive (h, addr, use_tls, name) w = (r, w')"
  by (simp add: process_take_def)

lemma request_identity [simp]: "snd (request_key (h, addr, use_tls, name)) = (addr, sni use_tls name)"
  by (simp add: request_key_def)

lemma pool_step_ok: "pool_step s s' \<Longrightarrow> pools_ok s \<Longrightarrow> pools_ok s'"
proof (induction rule: pool_step.induct)
  case (hit alive h addr use_tls name w m c w' m' opened out)
  then show ?case using process.take_inv [OF _ take_request [OF hit(1)], of snd opened out] by (simp add: pools_ok_def)
next
  case (miss alive h addr use_tls name w m w' m' opened out)
  then show ?case using process.take_inv [OF _ take_request [OF miss(1)], of snd opened out] by (simp add: pools_ok_def)
next
  case (connected opened c w out i)
  then show ?case by (auto simp: pools_ok_def pool_inv_def)
next
  case (released out c addr use_tls name w opened h m)
  have "process_give m (h, addr, use_tls, name) c w = fst (handle_release h addr use_tls name c w m)"
    by (simp add: process_give_def)
  then show ?case
    using process.give_inv [of w snd opened out c "(h, addr, use_tls, name)" m] released by (simp add: pools_ok_def)
next
  case (closed w opened out c)
  then show ?case using pool_inv_drop by (simp add: pools_ok_def)
qed

definition pools_start :: "nat \<Rightarrow> 'c pool_state" where
  "pools_start n = (\<lparr>own_pool = \<lambda>_. pool_new n, shared_pool = pool_new n\<rparr>, Map.empty, Map.empty)"

lemma pools_ok_start: "pools_ok (pools_start n)"
  by (simp add: pools_ok_def pools_start_def pool_inv_def process_idle_def idle_at_def handle_pool_def pool_new_def
      split: pool_handle.splits)

interpretation pooling: transition_system "\<lambda>s. \<exists>n. s = pools_start n" pool_step pools_ok
  by unfold_locales (auto intro: pools_ok_start pool_step_ok)

text \<open>
  C36. However the tasks of a process interleave, a connection a pool hands out was opened for that
  very address, protocol and server name, was probed alive, and is held by no other task; and no
  pool keeps more idle connections of one identity than its limit.
\<close>

theorem connections_never_cross:
  assumes "pool_step\<^sup>*\<^sup>* (pools_start n) (w, opened, out)"
  shows "(handle_take_idle alive h addr use_tls name w m = (Some c, w', m') \<longrightarrow>
      alive c \<and> opened c = Some (addr, sni use_tls name) \<and> out c = None) \<and>
    length (idle_at (handle_pool h w) i) \<le> max_idle_per_backend (handle_pool h w)"
proof -
  have ok: "pool_inv (process_idle w) (process_cap w) snd opened out"
    using pooling.reachable_inv [OF _ assms] by (auto simp: pools_ok_def)
  have "length (process_idle w (h, i)) \<le> process_cap w (h, i)" using ok unfolding pool_inv_def by blast
  moreover have "alive c \<and> opened c = Some (addr, sni use_tls name) \<and> out c = None"
    if "handle_take_idle alive h addr use_tls name w m = (Some c, w', m')"
    using process.taken [OF ok take_request [OF that]] by simp
  ultimately show ?thesis by (simp add: process_idle_def process_cap_def)
qed

definition no_metrics :: pool_metrics where
  "no_metrics = \<lparr>pool_hits = 0, pool_misses = 0, pool_stale_discards = 0, pool_overflow_drops = 0, upstream_connects = 0\<rparr>"

theorem connections_never_cross_witness:
  "\<exists>w opened out w' m'. pool_step\<^sup>*\<^sup>* (pools_start 1 :: nat pool_state) (w, opened, out) \<and>
     handle_take_idle (\<lambda>c. c = 7) Shared (SocketAddr (V4 1) 443) True ''a'' w no_metrics = (Some 7, w', m') \<and>
     opened 7 = Some (SocketAddr (V4 1) 443, sni True ''a'') \<and>
     length (idle_at (handle_pool Shared w) (SocketAddr (V4 1) 443, Some ''a'')) \<le> 1"
proof -
  let ?a = "SocketAddr (V4 1) 443" and ?i = "(SocketAddr (V4 1) 443, sni True ''a'')"
  define s :: "nat pool_state" where "s = pools_start 1"
  define w where "w = fst (handle_release Shared ?a True ''a'' 7 (fst s) no_metrics)"
  have s: "s = (fst s, Map.empty, Map.empty)" by (simp add: s_def pools_start_def)
  have "pool_step s (fst s, Map.empty(7 \<mapsto> ?i), Map.empty(7 \<mapsto> ?i))"
    using pool_step.connected [of Map.empty 7 "fst s" Map.empty ?i] s by simp
  moreover have "pool_step (fst s, Map.empty(7 \<mapsto> ?i), Map.empty(7 \<mapsto> ?i))
      (w, Map.empty(7 \<mapsto> ?i), (Map.empty(7 \<mapsto> ?i))(7 := None))"
    unfolding w_def by (rule pool_step.released) simp
  ultimately have r: "pool_step\<^sup>*\<^sup>* (pools_start 1) (w, Map.empty(7 \<mapsto> ?i), (Map.empty(7 \<mapsto> ?i))(7 := None))"
    unfolding s_def [symmetric] by (meson r_into_rtranclp rtranclp.rtrancl_into_rtrancl)
  have w: "handle_pool Shared w = \<lparr>pools = [(?a, \<lparr>ic_plain = [], ic_tls = [(''a'', [7])]\<rparr>)], max_idle_per_backend = 1\<rparr>"
    by (simp add: w_def s_def pools_start_def handle_release_def handle_pool_def release_def put_def pool_new_def
        idle_default_def push_idle_def sni_def set_pool_def Let_def)
  obtain w' m' where t: "handle_take_idle (\<lambda>c. c = 7) Shared ?a True ''a'' w no_metrics = (Some 7, w', m')"
    by (simp add: handle_take_idle_def w take_idle_def take_live_def sni_def)
  note c = connections_never_cross [OF r, of "\<lambda>c. c = 7" Shared ?a True "''a''" no_metrics 7 w' m' "(?a, Some ''a'')"]
  have "length (idle_at (handle_pool Shared w) (?a, Some ''a'')) \<le> 1" using c by (simp add: w)
  then show ?thesis using c r t by (intro exI conjI) blast+
qed

text \<open>An acquired connection is the pool's own step first; only without a live one is another opened.\<close>

lemma acquire_takes:
  assumes "acquire valid_name alive d addr use_tls name p m = (r, p', m')"
  shows "\<exists>idle n. take_idle alive addr use_tls name p m = (idle, p', n) \<and>
    (case idle of Some c \<Rightarrow> r = Inr (c, True)
     | None \<Rightarrow> (\<exists>c. r = Inr (c, False)) \<or> r = Inl BackendFailed \<or> (\<exists>e. r = Inl (Local e) \<and> out_of_fds_or_memory e))"
  using assms
  by (auto simp: acquire_def connect_new_def connect_tcp_def connect_error_def Let_def split: prod.splits option.splits sum.splits if_splits)

text \<open>A line that goes out keeps the next ones back for a whole window, and counts them.\<close>

lemma throttle_window:
  assumes "admit_now now t = (Some n, t')" "now' < now + FLOOD_LOG_EVERY"
  shows "admit_now now' t' = (None, t'\<lparr>lt_suppressed := 1\<rparr>)"
  using assms by (auto simp: admit_now_def admit_def split: if_splits)

end
