(* ===== verification/Request_Processor.thy ===== *)
theory Request_Processor
  imports Http_Filters Path_Normalize Backend_Select Backend_Pool Http_Method
begin

text \<open>
  The request pipeline (\<open>src/src/proxy/request_processor.rs\<close>): from the bytes a connection
  read to a routing decision. It composes the protocol sniff, the head parser, path
  normalization, the route lookup, redirects and backend selection.

  The analysis of an HTTP request returns its decision, the counter of the rule it selected a
  backend of (when it did), and the count of rejected requests. A borrowed slice of the request
  data is its offset there.
\<close>

section \<open>Decisions\<close>

record request_meta =
  m_head_len :: nat
  m_content_length :: "nat option"
  m_is_chunked :: bool
  m_is_upgrade :: bool
  m_is_head :: bool
  m_idempotent :: bool
  m_keepalive :: bool
  m_path_span :: "span option"
  m_normalized_path :: "bytes option"
  m_strip_spans :: strip_spans
  m_upgrade_span :: "span option"
  m_expect_continue :: bool
  m_local_reply_reusable :: bool
  m_client_done :: bool

definition meta_path :: "request_meta \<Rightarrow> bytes \<Rightarrow> bytes" where
  "meta_path meta head =
     (case m_normalized_path meta of
        Some path \<Rightarrow> path
      | None \<Rightarrow>
          (case m_path_span meta of
             None \<Rightarrow> ''/''
           | Some (s, e) \<Rightarrow>
               if unat s \<le> unat e \<and> unat e \<le> length head \<and> is_utf8 (subslice (unat s) (unat e) head)
               then subslice (unat s) (unat e) head else ''/''))"

record local_reply =
  lr_status :: nat
  lr_location :: "bytes option"
  lr_reusable :: bool
  lr_client_done :: bool
  lr_head :: bool

datatype routing_result =
    HttpForward backend http_route_rule request_meta
  | LocalReply local_reply
  | TcpForward socket_addr
  | UdpForward socket_addr
  | CloseConnection

definition head_is_whole :: "http_request_info \<Rightarrow> bool" where
  "head_is_whole i \<longleftrightarrow> \<not> i_is_upgrade i \<and> \<not> i_is_chunked i \<and>
     (case i_content_length i of Some n \<Rightarrow> n | None \<Rightarrow> 0) = 0"

definition local_reply_reusable :: "http_request_info \<Rightarrow> bool" where
  "local_reply_reusable i \<longleftrightarrow> i_keepalive i \<and> head_is_whole i"

record client_sent =
  cs_keepalive :: bool
  cs_request_in :: bool
  cs_seen_past :: bool

definition client_done :: "client_sent \<Rightarrow> bool" where
  "client_done sent \<longleftrightarrow> \<not> cs_keepalive sent \<and> cs_request_in sent \<and> \<not> cs_seen_past sent"

section \<open>Redirects\<close>

definition build_redirect_location :: "bytes option \<Rightarrow> bytes \<Rightarrow> u16 option \<Rightarrow> bytes \<times> bytes option \<Rightarrow> bytes \<Rightarrow> bytes \<Rightarrow>
    u16 \<Rightarrow> bytes" where
  "build_redirect_location scheme hostname port pv query default_scheme incoming_port =
     (let final_scheme = (case scheme of Some s \<Rightarrow> s | None \<Rightarrow> default_scheme);
          (query_mark, value_query, glue) =
            (case snd pv of
               None \<Rightarrow> if query = [] then ([], [], []) else (''?'', [], [])
             | Some vq \<Rightarrow> if query = [] then (''?'', vq, []) else (''?'', vq, query_glue vq));
          scheme_changed = (scheme \<noteq> None \<and> final_scheme \<noteq> default_scheme);
          effective_port = (case port of Some p \<Rightarrow> Some p | None \<Rightarrow> if scheme_changed then None else Some incoming_port);
          tail = fst pv @ query_mark @ value_query @ glue @ query
      in case effective_port of
           Some p \<Rightarrow>
             if \<not> (final_scheme = ''http'' \<and> p = 80 \<or> final_scheme = ''https'' \<and> p = 443)
             then final_scheme @ ''://'' @ hostname @ '':'' @ decimal_text p @ tail
             else final_scheme @ ''://'' @ hostname @ tail
         | None \<Rightarrow> final_scheme @ ''://'' @ hostname @ tail)"

fun build_redirect_from :: "http_filter list \<Rightarrow> http_route_rule \<Rightarrow> bytes \<Rightarrow> bytes \<Rightarrow> bytes \<Rightarrow> bool \<Rightarrow> u16 \<Rightarrow>
    (u16 \<times> bytes) option" where
  "build_redirect_from [] rule request_host request_path query is_tls server_port = None"
| "build_redirect_from (f # fs) rule request_host request_path query is_tls server_port =
     (case f of
        RequestRedirect scheme hostname port path status_code \<Rightarrow>
          let pv = (case path of
                      Some (ReplaceFullPath v) \<Rightarrow> (pv_path v, pv_query v)
                    | Some (ReplacePrefixMatch v) \<Rightarrow>
                        (join_prefix_path (pv_path v) (prefix_remainder (r_path rule) request_path), pv_query v)
                    | None \<Rightarrow> (request_path, None));
              default_scheme = (if is_tls then ''https'' else ''http'')
          in Some (status_code,
               build_redirect_location scheme (case hostname of Some h \<Rightarrow> h | None \<Rightarrow> request_host) port pv query
                 default_scheme server_port)
      | _ \<Rightarrow> build_redirect_from fs rule request_host request_path query is_tls server_port)"

definition build_redirect :: "http_route_rule \<Rightarrow> bytes \<Rightarrow> bytes \<Rightarrow> bytes \<Rightarrow> bool \<Rightarrow> u16 \<Rightarrow> (u16 \<times> bytes) option" where
  "build_redirect rule = build_redirect_from (r_filters rule) rule"

section \<open>HTTP\<close>

text \<open>
  Where in the target the parser's path starts; \<open>None\<close> when it is the parser's own text, which
  lies outside the request data.
\<close>

definition target_path_at :: "bytes \<Rightarrow> bytes \<Rightarrow> nat option" where
  "target_path_at method target =
     (if method = ''CONNECT'' \<or> get target 0 = Some (CHR ''/'') \<or> target = ''*'' then Some 0
      else case absolute_scheme_len target of
        None \<Rightarrow> Some 0
      | Some scheme_len \<Rightarrow>
          let rest = drop scheme_len target;
              authority_len = (case memchr (CHR ''/'') rest of Some i \<Rightarrow> i | None \<Rightarrow> length rest)
          in if authority_len < length rest then Some (scheme_len + authority_len) else None)"

definition path_offset :: "bytes \<Rightarrow> nat option" where
  "path_offset data =
     (let method_end = scan_bytes data 0 TCHAR; target_start = method_end + 1; target_end = target_scan data target_start
      in map_option ((+) target_start) (target_path_at (take method_end data) (subslice target_start target_end data)))"

definition subslice_span :: "nat option \<Rightarrow> bytes \<Rightarrow> span option" where
  "subslice_span sub_start sub =
     map_option (\<lambda>off. (word_of_nat off, word_of_nat (off + length sub))) sub_start"

definition BAD_REQUEST :: routing_result where
  "BAD_REQUEST = LocalReply \<lparr>lr_status = 400, lr_location = None, lr_reusable = False, lr_client_done = False, lr_head = False\<rparr>"

text \<open>
  \<open>normalize_path\<close> owns its result exactly when it changed the path. \<open>counter\<close> reads the
  counter of a rule.
\<close>

type_synonym analysis = "routing_result \<times> u64 option \<times> nat"

definition analyze_http_request :: "route_table \<Rightarrow> (http_route_rule \<Rightarrow> u64) \<Rightarrow> bytes \<Rightarrow> (socket_addr \<Rightarrow> bool) \<Rightarrow> bool \<Rightarrow>
    u16 \<Rightarrow> nat \<Rightarrow> analysis" where
  "analyze_http_request routes counter data health is_tls server_port rejected =
     (case extract_routing_info data of
        Inl _ \<Rightarrow> (BAD_REQUEST, None, rejected + 1)
      | Inr i \<Rightarrow>
          if i_header_violation i then (BAD_REQUEST, None, rejected + 1)
          else
            let reusable = local_reply_reusable i;
                done = client_done \<lparr>cs_keepalive = i_keepalive i, cs_request_in = head_is_whole i,
                                    cs_seen_past = (length data > i_head_len i)\<rparr>;
                is_head = eq_ignore_ascii_case (i_method i) ''HEAD'';
                reply = (\<lambda>code location. LocalReply \<lparr>lr_status = code, lr_location = location,
                           lr_reusable = reusable, lr_client_done = done, lr_head = is_head\<rparr>)
            in case normalize_path (i_path i) of
              None \<Rightarrow> (BAD_REQUEST, None, rejected + 1)
            | Some path \<Rightarrow>
                (case find_http_route routes (i_host i)
                        \<lparr>q_method = i_method i, q_path = path, q_header_data = i_header_data i, q_query = i_query_string i\<rparr>
                        server_port of
                   None \<Rightarrow> (reply 404 None, None, rejected)
                 | Some rule \<Rightarrow>
                     (case (if has_filters rule
                            then build_redirect rule (i_host i) path (i_query_string i) is_tls server_port else None) of
                        Some (code, location) \<Rightarrow> (reply code (Some location), None, rejected)
                      | None \<Rightarrow>
                          if r_backends rule = [] then (reply 500 None, None, rejected)
                          else case select_healthy_weighted_backend rule health (counter rule) of
                            (None, c) \<Rightarrow> (reply 503 None, Some c, rejected)
                          | (Some idx, c) \<Rightarrow>
                              let b = r_backends rule ! idx in
                              if b_action b = Reject then (reply 500 None, Some c, rejected)
                              else (HttpForward b rule
                                \<lparr>m_head_len = i_head_len i, m_content_length = i_content_length i,
                                 m_is_chunked = i_is_chunked i, m_is_upgrade = i_is_upgrade i, m_is_head = is_head,
                                 m_idempotent = is_idempotent (i_method i), m_keepalive = i_keepalive i,
                                 m_path_span = subslice_span (path_offset data) (i_path i),
                                 m_normalized_path = (if path = i_path i then None else Some path),
                                 m_strip_spans = i_strip_spans i, m_upgrade_span = i_upgrade_span i,
                                 m_expect_continue = i_expect_continue i, m_local_reply_reusable = reusable,
                                 m_client_done = done\<rparr>, Some c, rejected))))"

section \<open>Layer 4\<close>

record l4_throttles =
  l4_no_route :: log_throttle
  l4_no_backends :: log_throttle
  l4_no_weight :: log_throttle

definition l4_throttles_new :: l4_throttles where
  "l4_throttles_new = \<lparr>l4_no_route = throttle_new, l4_no_backends = throttle_new, l4_no_weight = throttle_new\<rparr>"

definition analyze_l4_request :: "u16 \<Rightarrow> backend list option \<Rightarrow> (socket_addr \<Rightarrow> routing_result) \<Rightarrow> (socket_addr \<Rightarrow> bool) \<Rightarrow>
    u64 \<Rightarrow> u16 selector \<times> l4_throttles \<Rightarrow> routing_result \<times> u16 selector \<times> l4_throttles" where
  "analyze_l4_request server_port found make_decision health now st =
     (case st of (sel, th) \<Rightarrow>
      case found of
        None \<Rightarrow> (CloseConnection, sel, th\<lparr>l4_no_route := snd (admit_now now (l4_no_route th))\<rparr>)
      | Some bs \<Rightarrow>
          if bs = [] then (CloseConnection, sel, th\<lparr>l4_no_backends := snd (admit_now now (l4_no_backends th))\<rparr>)
          else case select_l4_backend server_port bs health sel of
            (None, sel') \<Rightarrow> (CloseConnection, sel', th\<lparr>l4_no_weight := snd (admit_now now (l4_no_weight th))\<rparr>)
          | (Some b, sel') \<Rightarrow>
              if b_action b = Reject then (CloseConnection, sel', th)
              else (make_decision (b_addr b), sel', th))"

definition analyze_tcp_request :: "route_table \<Rightarrow> u16 \<Rightarrow> (socket_addr \<Rightarrow> bool) \<Rightarrow> u64 \<Rightarrow> u16 selector \<times> l4_throttles \<Rightarrow>
    routing_result \<times> u16 selector \<times> l4_throttles" where
  "analyze_tcp_request routes server_port =
     analyze_l4_request server_port (find_tcp_backends routes server_port) TcpForward"

definition analyze_udp_request :: "route_table \<Rightarrow> u16 \<Rightarrow> (socket_addr \<Rightarrow> bool) \<Rightarrow> u64 \<Rightarrow> u16 selector \<times> l4_throttles \<Rightarrow>
    routing_result \<times> u16 selector \<times> l4_throttles" where
  "analyze_udp_request routes server_port =
     analyze_l4_request server_port (find_udp_backends routes server_port) UdpForward"

text \<open>The state the analysis of a request shares with others.\<close>

record processor =
  rp_rejected :: nat
  rp_selector :: "u16 selector"
  rp_throttles :: l4_throttles

definition analyze_request :: "route_table \<Rightarrow> (http_route_rule \<Rightarrow> u64) \<Rightarrow> bytes \<Rightarrow> u16 \<Rightarrow> (socket_addr \<Rightarrow> bool) \<Rightarrow> bool \<Rightarrow>
    u64 \<Rightarrow> processor \<Rightarrow> routing_result \<times> u64 option \<times> processor" where
  "analyze_request routes counter data server_port health is_tls now st =
     (if data = [] then (CloseConnection, None, st)
      else if is_http_request data
      then (case analyze_http_request routes counter data health is_tls server_port (rp_rejected st) of
              (result, c, n) \<Rightarrow> (result, c, st\<lparr>rp_rejected := n\<rparr>))
      else (case analyze_tcp_request routes server_port health now (rp_selector st, rp_throttles st) of
              (result, sel, th) \<Rightarrow> (result, None, st\<lparr>rp_selector := sel, rp_throttles := th\<rparr>)))"

section \<open>Local replies\<close>



section \<open>Forwarding\<close>

text \<open>The metadata the analysis keeps of a head.\<close>

definition meta_of :: "request_meta \<Rightarrow> http_request_info \<Rightarrow> bytes \<Rightarrow> bytes \<Rightarrow> bool" where
  "meta_of meta i data p \<longleftrightarrow> m_head_len meta = i_head_len i \<and> m_is_upgrade meta = i_is_upgrade i \<and>
     m_path_span meta = subslice_span (path_offset data) (i_path i) \<and>
     m_normalized_path meta = (if p = i_path i then None else Some p) \<and>
     m_strip_spans meta = i_strip_spans i \<and> m_upgrade_span meta = i_upgrade_span i"

lemma analyze_forward:
  assumes "analyze_http_request routes counter data health is_tls port n = (HttpForward b rule meta, c, n')"
  shows "\<exists>i p idx. accepted data i \<and> normalize_path (i_path i) = Some p \<and> meta_of meta i data p \<and>
    find_http_route routes (i_host i)
      \<lparr>q_method = i_method i, q_path = p, q_header_data = i_header_data i, q_query = i_query_string i\<rparr> port = Some rule \<and>
    fst (select_healthy_weighted_backend rule health (counter rule)) = Some idx \<and> b = r_backends rule ! idx \<and> b_action b = Forward"
  using assms
  by (auto simp: analyze_http_request_def BAD_REQUEST_def Let_def accepted_def meta_of_def
      split: sum.splits if_splits option.splits prod.splits intro: backend_action.exhaust)

lemma best_rule_in: "find_best_rule_match rs q = Some r \<Longrightarrow> r \<in> set rs \<and> rule_matches q r"
  by (induction rs) (auto split: if_splits)

lemma lookup_wildcard_in:
  "lookup_wildcard routes parents q = Some (prec, r) \<Longrightarrow> (\<exists>e \<in> snd ` set routes. r \<in> set e) \<and> rule_matches q r"
  by (induction parents) (force split: option.splits dest!: map_of_SomeD best_rule_in)+

lemma lookup_in:
  "lookup_http_route s host q = Some (prec, r) \<Longrightarrow> (\<exists>e \<in> set (scope_entries s). r \<in> set e) \<and> rule_matches q r"
  unfolding lookup_http_route_def scope_entries_def
  by (auto split: option.splits dest!: map_of_SomeD best_rule_in lookup_wildcard_in; force)

lemma find_in_table:
  assumes "find_http_route t host q port = Some r"
  shows "r \<in> set (table_rules t)" "rule_matches q r"
proof -
  obtain h prec where "search_scopes (own_scopes t port \<noteq> [] \<and> borrowed_scopes t port \<noteq> []) h None
      (own_scopes t port @ borrowed_scopes t port) (host_key host) q = Some (prec, r)"
    using assms by (auto simp: find_http_route_unfold split: option.splits)
  then obtain s where s: "s \<in> set (own_scopes t port @ borrowed_scopes t port)" "lookup_http_route s (host_key host) q = Some (prec, r)"
    using search_scopes_sound by blast
  have "s \<in> set (http_scopes t)"
    using s(1)
    by (auto simp: own_scopes_def borrowed_scopes_def shared_scopes_of_def http_scopes_def
        split: option.splits if_splits dest!: map_of_SomeD, force+)
  then show "r \<in> set (table_rules t)" "rule_matches q r"
    using lookup_in [OF s(2)] by (auto simp: table_rules_def)
qed

lemma select_sound:
  assumes "rule_ok rule" "fst (select_healthy_weighted_backend rule healthy counter) = Some i"
  shows "i < length (r_backends rule) \<and> 0 < b_weight (r_backends rule ! i) \<and>
    (length (r_backends rule) = 1 \<or> selectable healthy (r_backends rule) i)"
proof (cases "length (r_backends rule) = 1")
  case True
  then show ?thesis using assms(2) by (auto simp: select_healthy_weighted_backend_def split: if_splits)
next
  case False
  then show ?thesis using select_selectable [OF assms(1) False assms(2)] by (simp add: selectable_def)
qed

text \<open>
  C39. Over every table the builders make, a request is only forwarded to a backend of a rule that
  matches it: one with a weight that is to be forwarded to, healthy unless it is the rule's only
  one or no valid backend of the rule is. The index the code uses is always in range.
\<close>

theorem forward_decision_sound:
  assumes "table_step\<^sup>*\<^sup>* route_table_new routes"
    and "analyze_http_request routes counter data health is_tls port n = (HttpForward b rule meta, c, n')"
  shows "b \<in> set (r_backends rule) \<and> 0 < b_weight b \<and> b_action b = Forward \<and> rule \<in> set (table_rules routes) \<and>
    (\<exists>i p. accepted data i \<and> normalize_path (i_path i) = Some p \<and>
       rule_matches \<lparr>q_method = i_method i, q_path = p, q_header_data = i_header_data i, q_query = i_query_string i\<rparr> rule) \<and>
    (health (b_addr b) \<or> r_backends rule = [b] \<or>
     list_all (\<lambda>x. b_action x = Reject \<or> b_weight x = 0 \<or> \<not> health (b_addr x)) (r_backends rule))"
proof -
  obtain i p idx where f: "accepted data i" "normalize_path (i_path i) = Some p"
      "find_http_route routes (i_host i)
        \<lparr>q_method = i_method i, q_path = p, q_header_data = i_header_data i, q_query = i_query_string i\<rparr> port = Some rule"
      "fst (select_healthy_weighted_backend rule health (counter rule)) = Some idx" "b = r_backends rule ! idx" "b_action b = Forward"
    using analyze_forward [OF assms(2)] by blast
  have "wf_table routes" using table_build.reachable_inv [OF _ assms(1)] by (simp add: table_init_def)
  then have ok: "rule_ok rule" by (rule wf_rules) (rule find_in_table(1) [OF f(3)])
  note s = select_sound [OF ok f(4)]
  have "health (b_addr b) \<or> r_backends rule = [b] \<or>
      list_all (\<lambda>x. b_action x = Reject \<or> b_weight x = 0 \<or> \<not> health (b_addr x)) (r_backends rule)"
  proof (cases "length (r_backends rule) = 1")
    case True
    then show ?thesis using s f(5) by (cases "r_backends rule") auto
  next
    case False
    then show ?thesis using s f(5,6) by (auto simp: selectable_def list_all_iff)
  qed
  then show ?thesis using s f find_in_table [OF f(3)] nth_mem by (metis (no_types, lifting))
qed

definition forward_backend :: backend where
  "forward_backend = \<lparr>b_addr = SocketAddr (V4 1) 8080, b_weight = 1, b_filters = [], b_use_tls = False, b_server_name = [],
     b_action = Forward\<rparr>"

definition forward_table :: route_table where
  "forward_table = add_http_route_for_listener 80 None ''x'' (rule_new Prefix ''/'' [] [] [] [forward_backend]) route_table_new"

lemma forward_table_reached: "table_step\<^sup>*\<^sup>* route_table_new forward_table"
  unfolding forward_table_def by (rule r_into_rtranclp) (rule table_step.intros(1))

lemma forward_table_finds:
  assumes "q_path q = ''/a''"
  shows "\<exists>rule. find_http_route forward_table ''x'' q 80 = Some rule \<and> r_backends rule = [forward_backend] \<and> \<not> has_filters rule"
proof -
  define rule where "rule = rule_metadata (rule_new Prefix ''/'' [] [] [] [forward_backend])"
  have r: "r_path rule = ''/''" "r_path_match_type rule = Prefix" "method_match rule = None" "header_matches rule = []"
      "query_param_matches rule = []" "r_backends rule = [forward_backend]" "\<not> has_filters rule"
    by (simp_all add: rule_def rule_metadata_def rule_new_def forward_backend_def Let_def)
  have s: "sort_rules [rule] = [rule]" by (simp add: sort_rules_def sort_by_def)
  have t: "forward_table = route_table_new\<lparr>listener_scopes := [(80, \<lparr>scopes = [(listener_scope_new 80 None)\<lparr>http_routes := [(''x'', [rule])]\<rparr>], shared = False\<rparr>)]\<rparr>"
    by (simp add: forward_table_def add_http_route_for_listener_def scope_mut_def push_route_def route_table_new_def
        listener_scope_new_def rule_def [symmetric] s ascii_defs strip_prefix_def starts_with_def Let_def)
  have "rule_matches q rule" using assms r by (simp add: rule_matches_def path_matches_def)
  then have "find_http_route forward_table ''x'' q 80 = Some rule"
    by (simp add: t find_http_route_def host_key_def shared_scopes_of_def route_table_new_def listener_scope_new_def
        hostname_match_priority_def lookup_http_route_def ascii_defs Let_def)
  then show ?thesis using r by blast
qed

lemma sample_forwarded:
  "\<exists>rule meta c. analyze_http_request forward_table (\<lambda>_. 0) (print_head sample_head @ ''hi'') (\<lambda>_. True) False 80 0 =
     (HttpForward forward_backend rule meta, c, 0) \<and> \<not> has_filters rule"
proof -
  let ?i = "head_info sample_head ''x'' ''/a?b''"
  have e: "extract_routing_info (print_head sample_head @ ''hi'') = Inr ?i" "\<not> i_header_violation ?i"
    using sample_accepted by (simp_all add: accepted_def)
  have i: "i_path ?i = ''/a''" "i_host ?i = ''x''" "i_method ?i = ''GET''" "i_query_string ?i = ''b''"
      "i_header_data ?i = field_text (h_fields sample_head)"
    by (simp_all add: head_info_def Let_def split_query_def memchr_def) (simp add: sample_head_def)
  have n: "normalize_path ''/a'' = Some ''/a''" by code_simp
  let ?q = "\<lparr>q_method = ''GET'', q_path = ''/a'', q_header_data = field_text (h_fields sample_head), q_query = ''b''\<rparr>"
  obtain rule where r: "find_http_route forward_table ''x'' ?q 80 = Some rule" "r_backends rule = [forward_backend]" "\<not> has_filters rule"
    using forward_table_finds [of ?q] by auto
  show ?thesis
    using e i n r
    by (simp add: analyze_http_request_def Let_def select_healthy_weighted_backend_def forward_backend_def)
qed

theorem forward_decision_sound_witness:
  "\<exists>rule. forward_backend \<in> set (r_backends rule) \<and> rule \<in> set (table_rules forward_table)"
proof -
  obtain rule meta c where "analyze_http_request forward_table (\<lambda>_. 0) (print_head sample_head @ ''hi'') (\<lambda>_. True) False 80 0 =
      (HttpForward forward_backend rule meta, c, 0)"
    using sample_forwarded by blast
  from forward_decision_sound [OF forward_table_reached this] show ?thesis by blast
qed

end
