(* ===== verification/Outgoing_Head.thy ===== *)
theory Outgoing_Head
  imports Request_Processor Http_Forward
begin

text \<open>
  The head a backend gets: \<open>build_outgoing_headers\<close> of \<open>src/src/proxy/worker.rs\<close> over the
  metadata of an analyzed request. That head is read again with the proxy's own parser, to show
  that the backend cannot see another message than the one that was routed.
\<close>

section \<open>The code\<close>

definition build_outgoing_headers :: "(ip_addr \<Rightarrow> bytes) \<Rightarrow> bytes \<Rightarrow> nat \<Rightarrow> http_route_rule \<Rightarrow> backend \<Rightarrow> request_meta \<Rightarrow>
    ip_addr \<Rightarrow> bool \<Rightarrow> bytes" where
  "build_outgoing_headers ip_text buf req_header_end rule b meta peer_ip is_tls =
     (let raw = take req_header_end buf;
          origin = origin_form_of raw (m_path_span meta);
          path = (case origin of Some _ \<Rightarrow> Some (meta_path meta raw) | None \<Rightarrow> m_normalized_path meta);
          forwarded = forwarded_lines ip_text peer_ip is_tls;
          out = (if needs_slow_path (m_strip_spans meta)
                 then assemble_forward_headers_slow raw path (m_is_upgrade meta) origin forwarded
                 else assemble_forward_headers raw path (m_strip_spans meta) (m_upgrade_span meta) (m_is_upgrade meta)
                        origin forwarded)
      in if \<not> has_filters rule then out
         else let rule_mods = extract_header_mods (r_filters rule) False;
                  url_rewrite = extract_url_rewrite (r_filters rule) (r_path rule) (meta_path meta raw);
                  backend_mods = extract_header_mods (b_filters b) False
              in if rule_mods = None \<and> url_rewrite = None \<and> backend_mods = None then out
                 else let out = apply_request_header_modifications out rule_mods url_rewrite
                      in (case backend_mods of
                            Some bm \<Rightarrow> apply_request_header_modifications out (Some bm) None
                          | None \<Rightarrow> out))"

section \<open>Normalized paths are target text\<close>

lemma set_resolve: "set (resolve done ss) \<subseteq> insert [] (set done \<union> set ss)"
proof (induction ss arbitrary: "done")
  case (Cons s ss)
  show ?case
    using Cons.IH [of "done @ [s]"] Cons.IH [of "done"] Cons.IH [of "butlast done"]
    by (cases "dot_segment s"; cases "ss = []") (auto simp: Let_def dest: in_set_butlastD)
qed auto

lemma split_on_utf8:
  assumes "ord8 c < 128" "is_utf8 q"
  shows "\<forall>s \<in> set (split_on c q). is_utf8 s"
proof -
  have j: "is_utf8 (join_with c ps) \<longleftrightarrow> (\<forall>s \<in> set ps. is_utf8 s)" if "ps \<noteq> []" for ps
    using that
  proof (induction ps)
    case (Cons p ps)
    then show ?case by (cases "ps = []") (auto simp: join_with_Cons is_utf8_cut [OF assms(1)])
  qed simp
  show ?thesis using j [of "split_on c q"] assms(2) by simp
qed

lemma path_of_utf8: "\<forall>s \<in> set ss. is_utf8 s \<Longrightarrow> is_utf8 (path_of ss)"
proof (induction ss)
  case (Cons s ss)
  have "is_utf8 (s @ path_of ss)"
  proof (cases ss)
    case (Cons t ts)
    have "is_utf8 (path_of ss)" using Cons.prems Cons.IH local.Cons by simp
    then show ?thesis using Cons.prems is_utf8_cut [of "CHR ''/''" s] by (simp add: local.Cons)
  qed (use Cons.prems in simp)
  then show ?case by simp
qed simp

lemma normalized_text:
  assumes "normalize_path x = Some p" "x \<noteq> []"
  shows "p \<noteq> []" "hd p = hd x" "set p \<subseteq> insert (CHR ''/'') (set x)" "is_utf8 x \<Longrightarrow> is_utf8 p"
    "hd x \<noteq> CHR ''/'' \<Longrightarrow> p = x"
proof -
  obtain b q where x: "x = b # q" using assms(2) by (cases x) auto
  show "hd x \<noteq> CHR ''/'' \<Longrightarrow> p = x" using assms normalize_other [of x] by simp
  have "p \<noteq> [] \<and> hd p = hd x \<and> set p \<subseteq> insert (CHR ''/'') (set x) \<and> (is_utf8 x \<longrightarrow> is_utf8 p)"
  proof (cases "b = CHR ''/''")
    case False
    then show ?thesis using assms normalize_other [of x] x by auto
  next
    case True
    let ?ss = "split_on (CHR ''/'') q"
    have p: "p = path_of (resolve [] ?ss)" using assms(1) x True by (simp add: normalize_path_eq split: if_splits)
    have ne: "resolve [] ?ss \<noteq> []" by (rule resolve_nonempty) simp
    have sub: "set (resolve [] ?ss) \<subseteq> insert [] (set ?ss)" using set_resolve [of "[]" ?ss] by simp
    have "set (path_of ss) \<subseteq> insert (CHR ''/'') (\<Union> (set ` set ss))" for ss by (auto simp: path_of_def)
    moreover have "\<Union> (set ` set ?ss) \<subseteq> set (path_of ?ss)" by (auto simp: path_of_def)
    then have "\<Union> (set ` set ?ss) \<subseteq> set x" using path_of_split [of q] x True by simp
    ultimately have "set p \<subseteq> insert (CHR ''/'') (set x)" using sub unfolding p by fastforce
    moreover have "is_utf8 p" if "is_utf8 x"
    proof -
      have "is_utf8 q" using that x True by simp
      then have "\<forall>s \<in> set (resolve [] ?ss). is_utf8 s" using split_on_utf8 [of "CHR ''/''" q] sub by auto
      then show ?thesis unfolding p by (rule path_of_utf8)
    qed
    moreover have "p \<noteq> [] \<and> hd p = hd x" using ne x True unfolding p by (cases "resolve [] ?ss") simp_all
    ultimately show ?thesis by blast
  qed
  then show "p \<noteq> []" "hd p = hd x" "set p \<subseteq> insert (CHR ''/'') (set x)" "is_utf8 x \<Longrightarrow> is_utf8 p" by blast+
qed

section \<open>The lines that pass\<close>

text \<open>What both ways to copy the client's lines have in common.\<close>

definition good_pass :: "bool \<Rightarrow> bytes option \<Rightarrow> (bytes \<times> bytes \<Rightarrow> (bytes \<times> bytes) list) \<Rightarrow> (bytes \<times> bytes) list \<Rightarrow> bool" where
  "good_pass keep auth pass fs \<longleftrightarrow> (\<forall>f \<in> set fs.
     (is_host f \<longrightarrow> pass f = (case auth of Some a \<Rightarrow> [host_field a] | None \<Rightarrow> [f])) \<and>
     (\<not> is_host f \<longrightarrow> pass f = [] \<or> pass f = [f]) \<and>
     (is_hop_by_hop_request_header (fst f) \<longrightarrow> pass f = []) \<and>
     (eq_ignore_ascii_case (fst f) ''content-length'' \<or> eq_ignore_ascii_case (fst f) ''transfer-encoding'' \<longrightarrow> pass f = [f]) \<and>
     (is_upgrade_line f \<longrightarrow> pass f = (if keep then [f] else [])))"

lemma passed_from:
  assumes "good_pass keep auth pass fs" "x \<in> set (concat (map pass fs))"
  shows "x \<in> set fs \<and> x \<in> set (pass x) \<or> (\<exists>a. auth = Some a \<and> x = host_field a)"
proof -
  obtain f where f: "f \<in> set fs" "x \<in> set (pass f)" using assms(2) by auto
  have g: "is_host f \<Longrightarrow> pass f = (case auth of Some a \<Rightarrow> [host_field a] | None \<Rightarrow> [f])" "\<not> is_host f \<Longrightarrow> pass f = [] \<or> pass f = [f]"
    using assms(1) f(1) unfolding good_pass_def by blast+
  show ?thesis
  proof (cases "is_host f \<and> auth \<noteq> None")
    case True
    then show ?thesis using g(1) f(2) by auto
  next
    case False
    then have "x = f" using g f(2) by (cases "is_host f") auto
    then show ?thesis using f by simp
  qed
qed

lemma host_field_other: "\<not> is_upgrade_line (host_field a)" "\<not> is_hop_by_hop_request_header (fst (host_field a))"
  by (simp_all add: host_field_def hop_by_hop_iff hop_names_def eq_ignore_ascii_case_def ascii_defs)

lemma good_pass_marked:
  assumes "keep \<Longrightarrow> \<forall>f \<in> set fs. \<not> h2c_line f"
  shows "good_pass keep auth (pass_marked keep auth) fs"
  unfolding good_pass_def
proof (intro ballI conjI impI)
  fix f assume f: "f \<in> set fs"
  show "pass_marked keep auth f = (case auth of Some a \<Rightarrow> [host_field a] | None \<Rightarrow> [f])" if "is_host f"
    using that host_kind [OF that] by (cases auth) (simp_all add: pass_marked_def)
  show "pass_marked keep auth f = [] \<or> pass_marked keep auth f = [f]" if "\<not> is_host f"
    using that by (simp add: pass_marked_def split: option.split)
  show "pass_marked keep auth f = []" if "is_hop_by_hop_request_header (fst f)"
    using that by (auto simp: pass_marked_def kind_of_def hop_by_hop_iff hop_names_def eq_ignore_ascii_case_def)
  show "pass_marked keep auth f = [f]"
    if "eq_ignore_ascii_case (fst f) ''content-length'' \<or> eq_ignore_ascii_case (fst f) ''transfer-encoding''"
    using that
    by (cases auth) (auto simp: pass_marked_def kind_of_def is_host_def hop_by_hop_iff hop_names_def eq_ignore_ascii_case_def)
  show "pass_marked keep auth f = (if keep then [f] else [])" if "is_upgrade_line f"
    using that assms f by (cases auth) (auto simp: pass_marked_def kind_of_def is_host_def h2c_line_def eq_ignore_ascii_case_def)
qed

lemma nominated_name:
  assumes "list_ex (eq_ignore_ascii_case n) (nominated fs)"
  shows "\<not> eq_ignore_ascii_case n ''content-length'' \<and> \<not> eq_ignore_ascii_case n ''transfer-encoding'' \<and> \<not> eq_ignore_ascii_case n ''host''"
proof -
  obtain l t where t: "t \<in> set (nominated_by l)" "to_ascii_lowercase n = to_ascii_lowercase t"
    using assms by (auto simp: nominated_def list_ex_iff eq_ignore_ascii_case_def)
  have "\<not> list_ex (eq_ignore_ascii_case t) [''content-length'', ''transfer-encoding'', ''host'']"
    using t(1) by (auto simp: nominated_by_def split: option.splits)
  then show ?thesis using t(2) by (simp add: eq_ignore_ascii_case_def)
qed

lemma good_pass_named: "good_pass keep auth (pass_named keep auth (nominated gs)) fs"
  unfolding good_pass_def
proof (intro ballI conjI impI)
  fix f :: "bytes \<times> bytes"
  note n = nominated_name [of "fst f" gs]
  show "pass_named keep auth (nominated gs) f = (case auth of Some a \<Rightarrow> [host_field a] | None \<Rightarrow> [f])" if "is_host f"
    using that n by (cases auth) (auto simp: pass_named_def is_host_def hop_by_hop_iff hop_names_def eq_ignore_ascii_case_def)
  show "pass_named keep auth (nominated gs) f = [] \<or> pass_named keep auth (nominated gs) f = [f]" if "\<not> is_host f"
    using that by (simp add: pass_named_def)
  show "pass_named keep auth (nominated gs) f = []" if "is_hop_by_hop_request_header (fst f)"
    using that by (auto simp: pass_named_def is_host_def hop_by_hop_iff hop_names_def eq_ignore_ascii_case_def)
  show "pass_named keep auth (nominated gs) f = [f]"
    if "eq_ignore_ascii_case (fst f) ''content-length'' \<or> eq_ignore_ascii_case (fst f) ''transfer-encoding''"
    using that n by (auto simp: pass_named_def is_host_def hop_by_hop_iff hop_names_def eq_ignore_ascii_case_def)
  show "pass_named keep auth (nominated gs) f = (if keep then [f] else [])" if "is_upgrade_line f"
    using that by (auto simp: pass_named_def is_host_def eq_ignore_ascii_case_def)
qed

lemma field_values_simps [simp]:
  "field_values n [] = []" "field_values n (xs @ ys) = field_values n xs @ field_values n ys"
  "field_values n (f # fs) = (if eq_ignore_ascii_case (fst f) n then [snd f] else []) @ field_values n fs"
  by (simp_all add: field_values_def)

lemma passed_values:
  assumes "good_pass keep auth pass fs"
  shows "field_values ''content-length'' (concat (map pass fs)) = field_values ''content-length'' fs"
    and "field_values ''transfer-encoding'' (concat (map pass fs)) = field_values ''transfer-encoding'' fs"
    and "field_values ''connection'' (concat (map pass fs)) = []"
    and "field_values ''host'' (concat (map pass fs)) =
      (case auth of None \<Rightarrow> field_values ''host'' fs | Some a \<Rightarrow> map (\<lambda>_. CHR '' '' # a) (field_values ''host'' fs))"
proof -
  have one: "field_values ''content-length'' (pass f) = field_values ''content-length'' [f] \<and>
      field_values ''transfer-encoding'' (pass f) = field_values ''transfer-encoding'' [f] \<and>
      field_values ''connection'' (pass f) = [] \<and>
      field_values ''host'' (pass f) =
        (case auth of None \<Rightarrow> field_values ''host'' [f] | Some a \<Rightarrow> map (\<lambda>_. CHR '' '' # a) (field_values ''host'' [f]))"
    if f: "f \<in> set fs" for f
  proof -
    have g: "is_host f \<Longrightarrow> pass f = (case auth of Some a \<Rightarrow> [host_field a] | None \<Rightarrow> [f])"
        "\<not> is_host f \<Longrightarrow> pass f = [] \<or> pass f = [f]" "is_hop_by_hop_request_header (fst f) \<Longrightarrow> pass f = []"
        "eq_ignore_ascii_case (fst f) ''content-length'' \<or> eq_ignore_ascii_case (fst f) ''transfer-encoding'' \<Longrightarrow> pass f = [f]"
      using assms f unfolding good_pass_def by blast+
    have hop: "eq_ignore_ascii_case (fst f) ''connection'' \<Longrightarrow> is_hop_by_hop_request_header (fst f)"
      by (simp add: hop_by_hop_iff hop_names_def eq_ignore_ascii_case_def)
    show ?thesis
    proof (cases "is_host f")
      case True
      then have "to_ascii_lowercase (fst f) = ''host''" by (simp add: is_host_def eq_ignore_ascii_case_def)
      then show ?thesis
        using g(1) [OF True] by (cases auth) (simp_all add: host_field_def eq_ignore_ascii_case_def ascii_defs)
    next
      case False
      then have "\<not> eq_ignore_ascii_case (fst f) ''host''" by (simp add: is_host_def)
      then show ?thesis using g(2) [OF False] g(3,4) hop by (cases auth) auto
    qed
  qed
  have all: "field_values n (concat (map pass fs)) = concat (map (\<lambda>f. field_values n (pass f)) fs)" for n
    by (induction fs) simp_all
  have self: "field_values n fs = concat (map (\<lambda>f. field_values n [f]) fs)" for n
    by (induction fs) simp_all
  show "field_values ''content-length'' (concat (map pass fs)) = field_values ''content-length'' fs"
    "field_values ''transfer-encoding'' (concat (map pass fs)) = field_values ''transfer-encoding'' fs"
    unfolding all using one by (simp_all add: self [of "''content-length''"] self [of "''transfer-encoding''"] cong: map_cong)
  show "field_values ''connection'' (concat (map pass fs)) = []" unfolding all using one by simp
  show "field_values ''host'' (concat (map pass fs)) =
      (case auth of None \<Rightarrow> field_values ''host'' fs | Some a \<Rightarrow> map (\<lambda>_. CHR '' '' # a) (field_values ''host'' fs))"
    unfolding all using one
    by (cases auth) (simp_all add: self [of "''host''"] map_concat comp_def cong: map_cong)
qed

section \<open>The lines of the proxy\<close>

definition own_fields :: "bytes \<Rightarrow> bool \<Rightarrow> bool \<Rightarrow> origin_form option \<Rightarrow> (bytes \<times> bytes) list" where
  "own_fields ip is_tls keep origin =
     [(''X-Forwarded-For'', CHR '' '' # ip), (''X-Forwarded-Proto'', if is_tls then '' https'' else '' http'')] @
     (if keep then [(''Connection'', '' upgrade'')] else []) @
     (case origin of Some og \<Rightarrow> if of_host_line og = None then [host_field (of_authority og)] else [] | None \<Rightarrow> [])"

lemma own_lines:
  assumes "length (ip_text ip) \<le> IP_TEXT_MAX"
  shows "append_forward_headers (forwarded_lines ip_text ip is_tls) keep origin = field_text (own_fields (ip_text ip) is_tls keep origin)"
proof -
  have "forwarded_lines ip_text ip is_tls = ''X-Forwarded-For: '' @ ip_text ip @ CRLF @ ''X-Forwarded-Proto: '' @
       (if is_tls then ''https'' else ''http'') @ CRLF"
    unfolding forwarded_lines_def using assms by (subst take_all) (simp_all add: FORWARDED_CAP_def)
  then show ?thesis
    by (cases origin) (auto simp: append_forward_headers_def own_fields_def line_bytes_def put_host_line)
qed

lemma own_values:
  "field_values ''content-length'' (own_fields ip is_tls keep origin) = []"
  "field_values ''transfer-encoding'' (own_fields ip is_tls keep origin) = []"
  "field_values ''connection'' (own_fields ip is_tls keep origin) = (if keep then ['' upgrade''] else [])"
  "field_values ''host'' (own_fields ip is_tls keep origin) =
     (case origin of Some og \<Rightarrow> if of_host_line og = None then [CHR '' '' # of_authority og] else [] | None \<Rightarrow> [])"
  by (cases origin; simp add: own_fields_def host_field_def eq_ignore_ascii_case_def ascii_defs)+

section \<open>Upgrades\<close>

definition upgrade_token :: "bytes \<Rightarrow> bool" where
  "upgrade_token t \<longleftrightarrow> eq_ignore_ascii_case (trim_ows t) ''upgrade''"

definition upgrade_asked :: "(bytes \<times> bytes) list \<Rightarrow> bool" where
  "upgrade_asked fs \<longleftrightarrow> (\<exists>v \<in> set (field_values ''connection'' fs). \<exists>t \<in> set (split_on (CHR '','') v). upgrade_token t)"

lemma tokens_upgrade:
  "p_connection_upgrade (fold connection_token ts st) = (p_connection_upgrade st \<or> (\<exists>t \<in> set ts. upgrade_token t))"
proof (induction ts arbitrary: st)
  case (Cons t ts)
  have "p_connection_upgrade (connection_token t st) = (p_connection_upgrade st \<or> upgrade_token t)"
    by (auto simp: connection_token_def Let_def upgrade_token_def set_slow_path_def eq_ignore_ascii_case_def)
  then show ?case using Cons by auto
qed simp

lemma field_upgrade:
  assumes "header_field h10 n v st = (st', k)" "\<not> p_violation st'"
  shows "p_has_upgrade st' = (p_has_upgrade st \<or> is_upgrade_line (n, v) \<and> \<not> offers_h2c v)"
    and "p_h2c st' = (p_h2c st \<or> h2c_line (n, v))"
    and "p_connection_upgrade st' = (p_connection_upgrade st \<or>
      eq_ignore_ascii_case n ''connection'' \<and> (\<exists>t \<in> set (split_on (CHR '','') v). upgrade_token t))"
proof -
  show "p_has_upgrade st' = (p_has_upgrade st \<or> is_upgrade_line (n, v) \<and> \<not> offers_h2c v)"
    using assms by (auto simp: header_field_def Let_def connection_tokens set_slow_path_def eq_ignore_ascii_case_def
        split: if_splits option.splits)
  show "p_h2c st' = (p_h2c st \<or> h2c_line (n, v))"
    using assms by (auto simp: header_field_def Let_def fold_h2c h2c_line_def set_slow_path_def eq_ignore_ascii_case_def
        split: if_splits option.splits)
  show "p_connection_upgrade st' = (p_connection_upgrade st \<or>
      eq_ignore_ascii_case n ''connection'' \<and> (\<exists>t \<in> set (split_on (CHR '','') v). upgrade_token t))"
    using assms by (auto simp: header_field_def Let_def tokens_upgrade set_slow_path_def eq_ignore_ascii_case_def
        split: if_splits option.splits)
qed

lemma line_upgrade:
  assumes "\<not> p_violation (header_line h10 n v s e st)"
  shows "p_has_upgrade (header_line h10 n v s e st) = (p_has_upgrade st \<or> is_upgrade_line (n, v) \<and> \<not> offers_h2c v)"
    and "p_h2c (header_line h10 n v s e st) = (p_h2c st \<or> h2c_line (n, v))"
    and "p_connection_upgrade (header_line h10 n v s e st) = (p_connection_upgrade st \<or>
      eq_ignore_ascii_case n ''connection'' \<and> (\<exists>t \<in> set (split_on (CHR '','') v). upgrade_token t))"
proof -
  obtain st' k where hf: "header_field h10 n v st = (st', k)" by (cases "header_field h10 n v st")
  have v: "\<not> p_violation st'" using assms hf by (auto simp: header_line_def)
  have e: "p_has_upgrade (header_line h10 n v s e st) = p_has_upgrade st'" "p_h2c (header_line h10 n v s e st) = p_h2c st'"
      "p_connection_upgrade (header_line h10 n v s e st) = p_connection_upgrade st'"
    using v by (cases k; simp add: header_line_def hf)+
  show "p_has_upgrade (header_line h10 n v s e st) = (p_has_upgrade st \<or> is_upgrade_line (n, v) \<and> \<not> offers_h2c v)"
    unfolding e by (rule field_upgrade(1) [OF hf v])
  show "p_h2c (header_line h10 n v s e st) = (p_h2c st \<or> h2c_line (n, v))"
    unfolding e by (rule field_upgrade(2) [OF hf v])
  show "p_connection_upgrade (header_line h10 n v s e st) = (p_connection_upgrade st \<or>
      eq_ignore_ascii_case n ''connection'' \<and> (\<exists>t \<in> set (split_on (CHR '','') v). upgrade_token t))"
    unfolding e by (rule field_upgrade(3) [OF hf v])
qed

lemma read_fields_upgrade:
  assumes "\<not> p_violation (read_fields h10 pos fs (parse_start False))"
  shows "p_has_upgrade (read_fields h10 pos fs (parse_start False)) = (\<exists>f \<in> set fs. is_upgrade_line f \<and> \<not> offers_h2c (snd f))"
    "p_h2c (read_fields h10 pos fs (parse_start False)) = (\<exists>f \<in> set fs. h2c_line f)"
    "p_connection_upgrade (read_fields h10 pos fs (parse_start False)) = upgrade_asked fs"
proof -
  have "p_has_upgrade (read_fields h10 pos fs (parse_start False)) = (\<exists>f \<in> set fs. is_upgrade_line f \<and> \<not> offers_h2c (snd f)) \<and>
      p_h2c (read_fields h10 pos fs (parse_start False)) = (\<exists>f \<in> set fs. h2c_line f) \<and>
      p_connection_upgrade (read_fields h10 pos fs (parse_start False)) = upgrade_asked fs"
    using assms
  proof (induction fs rule: rev_induct)
    case Nil
    then show ?case by (simp add: parse_start_def upgrade_asked_def)
  next
    case (snoc f fs)
    let ?st = "read_fields h10 pos fs (parse_start False)" and ?p = "pos + length (field_text fs)"
    have v: "\<not> p_violation ?st" using snoc.prems by (auto simp: read_fields_snoc Let_def split: if_splits)
    have e: "read_fields h10 pos (fs @ [f]) (parse_start False) =
        header_line h10 (fst f) (snd f) ?p (?p + length (line_bytes f)) ?st"
      using v by (simp add: read_fields_snoc Let_def)
    have l: "\<not> p_violation (header_line h10 (fst f) (snd f) ?p (?p + length (line_bytes f)) ?st)"
      using snoc.prems unfolding e .
    have a: "upgrade_asked (fs @ [f]) = (upgrade_asked fs \<or>
        eq_ignore_ascii_case (fst f) ''connection'' \<and> (\<exists>t \<in> set (split_on (CHR '','') (snd f)). upgrade_token t))"
      by (auto simp: upgrade_asked_def)
    show ?case using snoc.IH [OF v] line_upgrade [OF l] unfolding e a by auto
  qed
  then show "p_has_upgrade (read_fields h10 pos fs (parse_start False)) = (\<exists>f \<in> set fs. is_upgrade_line f \<and> \<not> offers_h2c (snd f))"
    "p_h2c (read_fields h10 pos fs (parse_start False)) = (\<exists>f \<in> set fs. h2c_line f)"
    "p_connection_upgrade (read_fields h10 pos fs (parse_start False)) = upgrade_asked fs" by blast+
qed

definition is_upgrade_of :: "(bytes \<times> bytes) list \<Rightarrow> bool" where
  "is_upgrade_of fs \<longleftrightarrow> (\<exists>f \<in> set fs. is_upgrade_line f) \<and> (\<forall>f \<in> set fs. \<not> h2c_line f) \<and> upgrade_asked fs"

lemma info_upgrade:
  assumes "head_meaning h host path"
  shows "i_is_upgrade (head_info h host path) = is_upgrade_of (h_fields h)"
  using read_fields_upgrade [of "h_http10 h" "length (head_line h)" "h_fields h"] accepted_state [OF assms]
  by (auto simp: head_info_def Let_def head_state_def is_upgrade_of_def h2c_line_def)

section \<open>The request line of the backend\<close>

lemma split_query_cut: "split_query path = (takeWhile (\<lambda>b. b \<noteq> CHR ''?'') path, drop 1 (dropWhile (\<lambda>b. b \<noteq> CHR ''?'') path))"
proof (cases "CHR ''?'' \<in> set path")
  case True
  then obtain x y where p: "path = x @ CHR ''?'' # y" "CHR ''?'' \<notin> set x" by (meson split_list_first)
  have t: "takeWhile (\<lambda>b. b \<noteq> CHR ''?'') path = x" "dropWhile (\<lambda>b. b \<noteq> CHR ''?'') path = CHR ''?'' # y"
    unfolding p(1) using p(2) by (subst takeWhile_append2 dropWhile_append2; auto)+
  have m: "memchr (CHR ''?'') path = Some (length x)" unfolding p(1) by (rule memchr_first [OF p(2)])
  show ?thesis unfolding split_query_def m t by (simp add: p(1))
next
  case False
  have t: "takeWhile (\<lambda>b. b \<noteq> CHR ''?'') path = path" by (subst takeWhile_eq_all_conv) (use False in auto)
  have d: "dropWhile (\<lambda>b. b \<noteq> CHR ''?'') path = []" by (subst dropWhile_eq_Nil_conv) (use False in auto)
  show ?thesis unfolding split_query_def memchr_None [OF False] t d by simp
qed

text \<open>The target's forms, with where its path starts.\<close>

definition absolute_parts :: "bytes \<Rightarrow> bytes \<Rightarrow> bytes \<Rightarrow> bytes \<Rightarrow> bool" where
  "absolute_parts t s a r \<longleftrightarrow> t = s @ a @ r \<and> scheme_form s \<and> a \<noteq> [] \<and> CHR ''/'' \<notin> set a \<and> CHR ''?'' \<notin> set a \<and>
     (r = [] \<or> hd r = CHR ''/'')"

lemma authority_bytes:
  assumes "host_form h" "port_form p" "b \<in> set (h @ p)"
  shows "is_class b HOST \<or> is_ip_literal_byte b \<or> is_ascii_digit b \<or> b \<in> {CHR ''['', CHR '']'', CHR '':''}"
  using assms by (auto simp: host_form_def port_form_def)

lemma question_not_authority:
  assumes "host_form h" "port_form p"
  shows "CHR ''?'' \<notin> set (h @ p)"
proof
  assume "CHR ''?'' \<in> set (h @ p)"
  from authority_bytes [OF assms this] show False
    by (auto simp: is_HOST any_of_def is_ip_literal_byte_def ascii_defs)
qed

lemma target_shape:
  assumes "target_form m t th path"
  obtains (plain) "th = None" "path = t" "target_path_at m t = Some 0" "hd t = CHR ''/'' \<or> t = ''*'' \<and> m = ''OPTIONS''" "t \<noteq> []"
  | (absolute) s h p r where "th = Some h" "absolute_parts t s (h @ p) r" "host_form h" "port_form p" "h \<noteq> []"
      "path = (if r = [] then ''/'' else r)"
      "target_path_at m t = (if r = [] then None else Some (length s + length (h @ p)))"
proof -
  have m: "m \<noteq> ''CONNECT''" using assms by (simp add: target_form_def)
  from assms consider (1) r where "t = CHR ''/'' # r" "th = None" "path = t" | (2) "t = ''*''" "m = ''OPTIONS''" "th = None" "path = t"
    | (3) s h p r where "t = s @ h @ p @ r" "scheme_form s" "h \<noteq> []" "host_form h" "port_form p"
        "r = [] \<and> path = ''/'' \<or> r \<noteq> [] \<and> hd r = CHR ''/'' \<and> path = r" "th = Some h"
    unfolding target_form_def by blast
  then show thesis
  proof cases
    case 1
    then show ?thesis by (intro plain) (simp_all add: target_path_at_def get_def)
  next
    case 2
    then show ?thesis by (intro plain) (simp_all add: target_path_at_def)
  next
    case (3 s h p r)
    let ?a = "h @ p"
    have na: "CHR ''/'' \<notin> set ?a" by (rule authority_no_slash [OF 3(4,5)])
    obtain c u where s: "s = c # u" "c \<noteq> CHR ''/''" "c \<noteq> CHR ''*''" using scheme_len(2) [OF 3(2)] by auto
    have len: "absolute_scheme_len t = Some (length s)" using scheme_len(1) [OF 3(2)] by (simp add: 3(1))
    have dr: "drop (length s) t = ?a @ r" by (simp add: 3(1))
    have mc: "memchr (CHR ''/'') (?a @ r) = (if r = [] then None else Some (length ?a))"
      using na 3(6) memchr_first [OF na, of "tl r"] memchr_None [OF na] by (cases r) auto
    have g: "get t 0 \<noteq> Some (CHR ''/'')" "t \<noteq> ''*''" using s by (auto simp: 3(1) get_def)
    have "target_path_at m t = (if r = [] then None else Some (length s + length ?a))"
      using m g unfolding target_path_at_def len option.case dr Let_def mc by (simp del: get_Some_iff)
    moreover have "absolute_parts t s ?a r"
      using 3 na question_not_authority [OF 3(4,5)] by (auto simp: absolute_parts_def)
    ultimately show ?thesis using 3 by (intro absolute [of h s p r]) auto
  qed
qed

lemma scheme_text:
  assumes "scheme_form s"
  shows "CHR ''?'' \<notin> set s" "length s = (if s ! 4 = CHR '':'' then 7 else 8)" "4 < length s"
proof -
  have l: "to_ascii_lowercase s = ''http://'' \<or> to_ascii_lowercase s = ''https://''"
    using assms by (simp add: scheme_form_def eq_ignore_ascii_case_def to_ascii_lowercase_def)
  then have len: "length s = 7 \<and> to_ascii_lowercase s = ''http://'' \<or> length s = 8 \<and> to_ascii_lowercase s = ''https://''"
    by (auto dest: arg_cong [of _ _ length])
  show "4 < length s" using len by auto
  show "CHR ''?'' \<notin> set s"
  proof
    assume "CHR ''?'' \<in> set s"
    then have "u8_to_ascii_lowercase (CHR ''?'') \<in> set (to_ascii_lowercase s)"
      unfolding to_ascii_lowercase_def set_map by (rule imageI)
    then show False using l by (auto simp: u8_to_ascii_lowercase_def)
  qed
  have "to_ascii_lowercase s ! 4 = u8_to_ascii_lowercase (s ! 4)" using len by (auto simp: to_ascii_lowercase_def)
  then have "s ! 4 = CHR '':'' \<longleftrightarrow> to_ascii_lowercase s ! 4 = CHR '':''" using lower_colon [of "s ! 4"]
    by (auto simp: u8_to_ascii_lowercase_def is_ascii_uppercase_def)
  then show "length s = (if s ! 4 = CHR '':'' then 7 else 8)" using len by auto
qed

lemma print_head_cut: "\<exists>w. print_head h = h_method h @ CHR '' '' # h_target h @ CHR '' '' # w"
  by (cases "h_http10 h") (simp_all add: print_head_def head_line_first first_line_def)

lemma path_offset_head:
  assumes "head_syntax h"
  shows "path_offset (print_head h @ rest) = map_option ((+) (Suc (length (h_method h)))) (target_path_at (h_method h) (h_target h))"
proof -
  let ?m = "h_method h" and ?t = "h_target h"
  define data where "data = print_head h @ rest"
  obtain w where "print_head h = ?m @ CHR '' '' # ?t @ CHR '' '' # w" using print_head_cut by blast
  then have d1: "data = [] @ ?m @ CHR '' '' # (?t @ CHR '' '' # w @ rest)" and d2: "data = (?m @ [CHR '' '']) @ ?t @ CHR '' '' # (w @ rest)"
    by (simp_all add: data_def)
  have ok: "request_line_ok ?m ?t" using assms by (simp add: head_syntax_def)
  have me: "scan_bytes data 0 TCHAR = length ?m"
    using ok scan_bytes_run [of ?m TCHAR "CHR '' ''" "[]"] by (simp add: d1 request_line_ok_def is_token_def)
  have te: "target_scan data (Suc (length ?m)) = Suc (length ?m + length ?t)"
    using target_scan_ok [of ?t "?m @ [CHR '' '']" "w @ rest"] ok by (simp add: d2 request_line_ok_def)
  have s: "take (length ?m) data = ?m" "subslice (Suc (length ?m)) (Suc (length ?m + length ?t)) data = ?t"
    by (simp_all add: d2 subslice_def)
  show ?thesis unfolding data_def [symmetric] path_offset_def Let_def me Suc_eq_plus1 [symmetric] te s ..
qed

lemma span_start:
  assumes "off < 2 ^ 32"
  shows "map_option (\<lambda>(s, _). unat s) (subslice_span (Some off) sub) = Some off"
  using assms by (simp add: subslice_span_def unsigned_of_nat take_bit_nat_eq_self)

lemma origin_plain:
  assumes "off = Suc (length (h_method h))" "off < 2 ^ 32"
  shows "origin_form_of (print_head h) (subslice_span (Some off) sub) = None"
proof -
  obtain w where w: "print_head h = h_method h @ CHR '' '' # h_target h @ CHR '' '' # w" using print_head_cut by blast
  have "print_head h ! (off - 1) = CHR '' ''" by (simp add: w assms(1))
  then show ?thesis unfolding origin_form_of_def Let_def span_start [OF assms(2)] by simp
qed

lemma origin_absolute:
  assumes syn: "head_syntax h" and a: "absolute_parts (h_target h) s a r"
    and off: "off = Suc (length (h_method h)) + (length s + length a)" "off < 2 ^ 32"
  shows "origin_form_of (print_head h) (subslice_span (if r = [] then None else Some off) sub) =
    Some \<lparr>of_authority = a, of_host_line = host_line (print_head h)\<rparr>"
proof -
  let ?m = "h_method h" and ?raw = "print_head h"
  obtain w where w: "?raw = ?m @ CHR '' '' # h_target h @ CHR '' '' # w" using print_head_cut by blast
  have t: "h_target h = s @ a @ r" "scheme_form s" "a \<noteq> []" using a by (simp_all add: absolute_parts_def)
  note sc = scheme_text [OF t(2)]
  obtain c u where c: "s = c # u" "c \<noteq> CHR ''/''" "c \<noteq> CHR ''*''" using scheme_len(2) [OF t(2)] by auto
  have ns: "CHR '' '' \<notin> set ?m" "CHR '' '' \<notin> set (s @ a @ r)"
    using no_space [of ?m "h_target h"] syn by (simp_all add: head_syntax_def t(1))
  have raw: "?raw = (?m @ CHR '' '' # s) @ a @ r @ CHR '' '' # w" by (simp add: w t(1))
  have sp: "memchr (CHR '' '') ?raw = Some (length ?m)" unfolding w by (rule memchr_first [OF ns(1)])
  have g: "get ?raw (length ?m + 1) = Some c" unfolding raw by (simp add: nth_append c(1))
  have g4: "get ?raw (length ?m + 1 + 4) = Some (s ! 4)" unfolding raw using sc(3) by (simp add: nth_append nth_Cons')
  have st: "length ?m + 1 + (if get ?raw (length ?m + 1 + 4) = Some (CHR '':'') then 7 else 8) = length (?m @ CHR '' '' # s)"
    unfolding g4 using sc(2) by simp
  have dr: "drop (length (?m @ CHR '' '' # s)) ?raw = a @ r @ CHR '' '' # w" unfolding raw by simp
  have stop: "(case (if r = [] then None else Some off) of Some x \<Rightarrow> Some x
      | None \<Rightarrow> map_option ((+) (length (?m @ CHR '' '' # s))) (memchr (CHR '' '') (drop (length (?m @ CHR '' '' # s)) ?raw))) = Some off"
    unfolding dr using memchr_first [of "CHR '' ''" a w] ns(2) off(1) by simp
  have b: "?raw ! (off - 1) \<noteq> CHR '' ''"
  proof -
    have "?raw ! (off - 1) = (?m @ CHR '' '' # s @ a) ! (off - 1)" unfolding raw using t(3) by (simp add: nth_append off(1))
    also have "\<dots> = last (?m @ CHR '' '' # s @ a)" using t(3) by (subst last_conv_nth) (simp_all add: off(1))
    also have "\<dots> = last a" using t(3) by simp
    finally show ?thesis using ns(2) last_in_set [OF t(3)] by auto
  qed
  have au: "subslice (length (?m @ CHR '' '' # s)) off ?raw = a" unfolding raw by (simp add: subslice_def off(1))
  have ps: "map_option (\<lambda>(s, _). unat s) (subslice_span (if r = [] then None else Some off) sub) = (if r = [] then None else Some off)"
    using span_start [OF off(2)] by (simp add: subslice_span_def)
  show ?thesis
    unfolding origin_form_of_def Let_def ps sp option.case st stop au g
    using b c by (simp del: get_Some_iff)
qed

lemma target_utf8:
  assumes "head_syntax h" "target_form (h_method h) (h_target h) th path"
  shows "is_utf8 path" "is_utf8 (fst (split_query path))" "is_utf8 (dropWhile (\<lambda>b. b \<noteq> CHR ''?'') path)"
proof -
  have t: "is_utf8 (h_target h)"
    using assms(1) is_utf8_cut [of "CHR '' ''"] by (simp add: head_syntax_def request_line_ok_def)
  show u: "is_utf8 path"
    using assms(2)
  proof (cases rule: target_shape)
    case (absolute s h' p r)
    show ?thesis
    proof (cases r)
      case (Cons c r')
      then have "h_target h = (s @ h' @ p) @ CHR ''/'' # r'" "path = CHR ''/'' # r'" using absolute by (auto simp: absolute_parts_def)
      then show ?thesis using t is_utf8_cut [of "CHR ''/''" "s @ h' @ p" r'] by simp
    qed (use absolute in simp)
  qed (use t in simp)
  have "is_utf8 (takeWhile (\<lambda>b. b \<noteq> CHR ''?'') path) \<and> is_utf8 (dropWhile (\<lambda>b. b \<noteq> CHR ''?'') path)"
  proof (cases "CHR ''?'' \<in> set path")
    case True
    then obtain x y where p: "path = x @ CHR ''?'' # y" "CHR ''?'' \<notin> set x" by (meson split_list_first)
    have "takeWhile (\<lambda>b. b \<noteq> CHR ''?'') path = x" "dropWhile (\<lambda>b. b \<noteq> CHR ''?'') path = CHR ''?'' # y"
      unfolding p(1) using p(2) by (subst takeWhile_append2 dropWhile_append2; auto)+
    then show ?thesis using u is_utf8_cut [of "CHR ''?''" x y] unfolding p(1) by simp
  next
    case False
    have t: "takeWhile (\<lambda>b. b \<noteq> CHR ''?'') path = path" by (subst takeWhile_eq_all_conv) (use False in auto)
    have d: "dropWhile (\<lambda>b. b \<noteq> CHR ''?'') path = []" by (subst dropWhile_eq_Nil_conv) (use False in auto)
    show ?thesis unfolding t d using u by simp
  qed
  then show "is_utf8 (fst (split_query path))" "is_utf8 (dropWhile (\<lambda>b. b \<noteq> CHR ''?'') path)"
    by (simp_all add: split_query_cut)
qed

lemma path_in_target:
  assumes "target_form m t th path" "target_path_at m t = Some at"
  shows "drop at t = path" "at \<le> length t"
  using assms(1)
  by (cases rule: target_shape; use assms(2) in \<open>auto simp: absolute_parts_def split: if_splits\<close>)+

lemma meta_path_head:
  assumes syn: "head_syntax h" and tf: "target_form (h_method h) (h_target h) th path" and len: "length (print_head h) < 2 ^ 32"
    and sp: "m_path_span meta = subslice_span (path_offset (print_head h @ rest)) (fst (split_query path))"
    and np: "m_normalized_path meta = (if p = fst (split_query path) then None else Some p)"
  shows "meta_path meta (print_head h) = p"
proof (cases "p = fst (split_query path)")
  case True
  let ?m = "h_method h" and ?t = "h_target h"
  show ?thesis
  proof (cases "target_path_at ?m ?t")
    case None
    have "path = ''/''" using tf by (cases rule: target_shape) (use None in \<open>auto split: if_splits\<close>)
    moreover have "m_path_span meta = None" using sp path_offset_head [OF syn, of rest] None by (simp add: subslice_span_def)
    ultimately show ?thesis using True np by (simp add: meta_path_def split_query_cut)
  next
    case (Some at)
    define e where "e = Suc (length ?m) + at + length p"
    obtain w where w: "print_head h = ?m @ CHR '' '' # ?t @ CHR '' '' # w" using print_head_cut by blast
    note pt = path_in_target [OF tf Some]
    have "path = p @ dropWhile (\<lambda>b. b \<noteq> CHR ''?'') path" unfolding True split_query_cut by simp
    then obtain q where pq: "path = p @ q" by blast
    have e: "e \<le> length (print_head h)" 
      using pt(2) arg_cong [OF pt(1), of length] arg_cong [OF pq, of length] by (simp add: e_def w)
    then have lim: "Suc (length ?m) + at < 2 ^ 32" "e < 2 ^ 32" using len by (simp_all add: e_def)
    have span: "m_path_span meta = Some (word_of_nat (Suc (length ?m) + at), word_of_nat e)"
      using sp path_offset_head [OF syn, of rest] Some True by (simp add: subslice_span_def e_def)
    have un: "unat (word_of_nat (Suc (length ?m) + at) :: u32) = Suc (length ?m) + at" "unat (word_of_nat e :: u32) = e"
      using lim by (simp_all add: unsigned_of_nat take_bit_nat_eq_self del: of_nat_Suc of_nat_add)
    have "drop (Suc (length ?m) + at) (print_head h) = drop at ?t @ CHR '' '' # w"
      using pt(2) by (simp add: w add.commute [of "length ?m"])
    then have sub: "subslice (Suc (length ?m) + at) e (print_head h) = p"
      unfolding subslice_def pt(1) pq by (simp add: e_def)
    have "is_utf8 p" using target_utf8(2) [OF syn tf] True by simp
    moreover have "m_normalized_path meta = None" using np True by simp
    moreover have "Suc (length ?m) + at \<le> e" by (simp add: e_def)
    ultimately show ?thesis
      using e unfolding meta_path_def span option.case prod.case un sub by (simp only: option.case if_True simp_thms)
  qed
next
  case False
  have "m_normalized_path meta = Some p" unfolding np using False by (rule if_not_P)
  then show ?thesis unfolding meta_path_def by (simp only: option.case)
qed

lemma target_parts:
  assumes "target_form m t th path"
  shows "dropWhile (\<lambda>b. b \<noteq> CHR ''?'') t = dropWhile (\<lambda>b. b \<noteq> CHR ''?'') path"
    "set (fst (split_query path)) \<subseteq> insert (CHR ''/'') (set (takeWhile (\<lambda>b. b \<noteq> CHR ''?'') t))"
    "fst (split_query path) \<noteq> []" "hd (fst (split_query path)) = hd path"
    "hd path = CHR ''/'' \<or> path = ''*'' \<and> m = ''OPTIONS''"
proof -
  let ?P = "\<lambda>b. b \<noteq> CHR ''?''"
  have hd: "hd path = CHR ''/'' \<or> path = ''*'' \<and> m = ''OPTIONS''" and ne: "path \<noteq> []"
    using assms by (cases rule: target_shape; auto simp: absolute_parts_def)+
  show "hd path = CHR ''/'' \<or> path = ''*'' \<and> m = ''OPTIONS''" by (rule hd)
  have "hd path \<noteq> CHR ''?''" using hd by auto
  then show "fst (split_query path) \<noteq> []" "hd (fst (split_query path)) = hd path"
    using ne unfolding split_query_cut by (cases path; simp)+
  have "dropWhile ?P t = dropWhile ?P path \<and> set (takeWhile ?P path) \<subseteq> insert (CHR ''/'') (set (takeWhile ?P t))"
    using assms
  proof (cases rule: target_shape)
    case (absolute s h p r)
    have sa: "\<And>x. x \<in> set (s @ h @ p) \<Longrightarrow> ?P x" "t = (s @ h @ p) @ r"
      using absolute scheme_text(1) [of s] by (auto simp: absolute_parts_def)
    have d: "dropWhile ?P t = dropWhile ?P r" unfolding sa(2) by (rule dropWhile_append2) (rule sa(1))
    have w: "takeWhile ?P t = (s @ h @ p) @ takeWhile ?P r" unfolding sa(2) by (rule takeWhile_append2) (rule sa(1))
    show ?thesis unfolding d w absolute(6) by auto
  qed auto
  then show "dropWhile ?P t = dropWhile ?P path"
    "set (fst (split_query path)) \<subseteq> insert (CHR ''/'') (set (takeWhile ?P t))"
    by (simp_all add: split_query_cut)
qed

definition out_head :: "head \<Rightarrow> bytes \<Rightarrow> (bytes \<times> bytes \<Rightarrow> (bytes \<times> bytes) list) \<Rightarrow> (bytes \<times> bytes) list \<Rightarrow> head" where
  "out_head h p pass own = \<lparr>h_method = h_method h, h_target = p @ dropWhile (\<lambda>b. b \<noteq> CHR ''?'') (h_target h),
     h_http10 = h_http10 h, h_fields = concat (map pass (h_fields h)) @ own\<rparr>"

lemma out_target:
  assumes syn: "head_syntax h" and tf: "target_form (h_method h) (h_target h) th path"
    and p: "normalize_path (fst (split_query path)) = Some p"
  defines "t' \<equiv> p @ dropWhile (\<lambda>b. b \<noteq> CHR ''?'') (h_target h)"
  shows "request_line_ok (h_method h) t'" "split_query t' = (p, snd (split_query path))"
    "target_form (h_method h) t' None t'"
proof -
  let ?P = "\<lambda>b. b \<noteq> CHR ''?''"
  let ?x = "fst (split_query path)" and ?q = "dropWhile ?P (h_target h)"
  note tp = target_parts [OF tf]
  note nt = normalized_text [OF p tp(3)]
  have px: "set p \<subseteq> insert (CHR ''/'') (set (takeWhile ?P (h_target h)))" using nt(3) tp(2) by blast
  then have noq: "\<And>b. b \<in> set p \<Longrightarrow> ?P b" by (auto dest: set_takeWhileD)
  define q where "q = ?q"
  have t': "t' = p @ q" by (simp add: t'_def q_def)
  have q: "q = [] \<or> (\<exists>r. q = CHR ''?'' # r)"
    unfolding q_def using hd_dropWhile [of ?P "h_target h"] by (cases ?q) auto
  have "takeWhile ?P t' = p @ takeWhile ?P q" "dropWhile ?P t' = dropWhile ?P q"
    unfolding t' by (rule takeWhile_append2, erule noq, rule dropWhile_append2, erule noq)
  moreover have "takeWhile ?P q = []" "dropWhile ?P q = q" using q by auto
  ultimately have tw: "takeWhile ?P t' = p" "dropWhile ?P t' = q" by simp_all
  show "split_query t' = (p, snd (split_query path))"
    unfolding split_query_cut tw snd_conv tp(1) [symmetric] q_def ..
  have ok: "is_token (h_method h)" "target_ok (h_target h)" "is_utf8 (h_method h @ CHR '' '' # h_target h)"
    using syn by (simp_all add: head_syntax_def request_line_ok_def)
  have "set q \<subseteq> set (h_target h)" unfolding q_def by (auto dest: set_dropWhileD)
  then have sub: "set t' \<subseteq> insert (CHR ''/'') (set (h_target h))"
    unfolding t' using px by (auto dest: set_takeWhileD)
  have slash: "target_byte (CHR ''/'')" "CHR ''/'' \<noteq> CHR 0x5C"
    by (simp_all add: target_byte_def class_iffs any_of_def TARGET_HOLES_def ascii_defs)
  have "t' \<noteq> []" using nt(1) by (simp add: t')
  then have "target_ok t'" using ok(2) sub slash px unfolding target_ok_def tw by blast
  moreover have "is_utf8 t'"
  proof -
    have u: "is_utf8 p" "is_utf8 q" using nt(4) target_utf8 [OF syn tf] tp(1) by (simp_all add: q_def)
    show ?thesis using q u is_utf8_cut [of "CHR ''?''" p] unfolding t' by (elim disjE exE) simp_all
  qed
  moreover have "is_utf8 (h_method h)" using ok(3) is_utf8_cut [of "CHR '' ''"] by simp
  ultimately show "request_line_ok (h_method h) t'"
    using ok(1) is_utf8_cut [of "CHR '' ''" "h_method h" t'] by (simp add: request_line_ok_def)
  show "target_form (h_method h) t' None t'"
  proof (cases "hd path = CHR ''/''")
    case True
    then have "\<exists>r. t' = CHR ''/'' # r" using nt(1,2) tp(4) unfolding t'_def by (cases p) auto
    then show ?thesis using tf by (simp add: target_form_def)
  next
    case False
    then have s: "path = ''*''" "h_method h = ''OPTIONS''" using tp(5) by auto
    have "h_target h = ''*''" using tf by (cases rule: target_shape) (use s in \<open>auto simp: absolute_parts_def split: if_splits\<close>)
    moreover have "p = ''*''" using nt(5) s by (simp add: split_query_cut)
    ultimately show ?thesis using tf s by (simp add: target_form_def t'_def)
  qed
qed

section \<open>The outgoing head\<close>

definition value_text :: "bytes \<Rightarrow> bool" where
  "value_text v \<longleftrightarrow> (\<forall>b \<in> set v. is_class b VALUE)"

definition auth_ok :: "bytes \<Rightarrow> bytes \<Rightarrow> bool" where
  "auth_ok a h \<longleftrightarrow> (\<exists>p. a = h @ p \<and> host_form h \<and> port_form p \<and> h \<noteq> [])"

lemma authority_value:
  assumes "auth_ok a h" "b \<in> set a"
  shows "is_class b VALUE \<and> \<not> is_ows b"
proof -
  obtain p where "host_form h" "port_form p" "b \<in> set (h @ p)" using assms by (auto simp: auth_ok_def)
  then show ?thesis
    using authority_bytes [of h p b]
    by (auto simp: is_HOST is_VALUE any_of_def VALUE_HOLES_def is_ip_literal_byte_def is_ows_def ascii_defs)
qed

lemma auth_host:
  assumes "auth_ok a h"
  shows "trim_ows (CHR '' '' # a) = a" "split_host a = Some (length h)" "take (length h) a = h"
proof -
  have n: "a \<noteq> []" "\<And>b. b \<in> set a \<Longrightarrow> \<not> is_ows b" using assms authority_value by (auto simp: auth_ok_def)
  have d: "dropWhile is_ows a = a" using n by (cases a) auto
  have r: "dropWhile is_ows (rev a) = rev a" using n(2) [of "last a"] n(1) by (cases a rule: rev_cases) auto
  show "trim_ows (CHR '' '' # a) = a" by (simp add: trim_ows_def d r is_ows_def [of "CHR '' ''"])
  show "split_host a = Some (length h)" "take (length h) a = h" using assms by (auto simp: split_host_iff auth_ok_def)
qed

lemma host_field_ok:
  assumes "auth_ok a h"
  shows "field_ok (host_field a)"
  using authority_value [OF assms]
  by (auto simp: field_ok_def host_field_def is_token_def class_iffs any_of_def TCHAR_MARKS_def VALUE_HOLES_def ascii_defs)

lemma field_ok_own:
  assumes "value_text ip" "\<And>og. origin = Some og \<Longrightarrow> \<exists>h. auth_ok (of_authority og) h"
  shows "list_all field_ok (own_fields ip is_tls keep origin)"
proof -
  have n: "is_token ''X-Forwarded-For''" "is_token ''X-Forwarded-Proto''" "is_token ''Connection''" "value_text '' https''"
      "value_text '' http''" "value_text '' upgrade''" "is_class (CHR '' '') VALUE"
    by (simp_all add: is_token_def value_text_def class_iffs any_of_def TCHAR_MARKS_def VALUE_HOLES_def ascii_defs)
  show ?thesis
    using assms n host_field_ok by (cases origin) (auto simp: own_fields_def field_ok_def value_text_def)
qed

lemma out_syntax:
  assumes "head_syntax h" "target_form (h_method h) (h_target h) th path" "normalize_path (fst (split_query path)) = Some p"
    "good_pass keep auth pass (h_fields h)" "\<And>a. auth = Some a \<Longrightarrow> \<exists>h. auth_ok a h" "list_all field_ok own"
  shows "head_syntax (out_head h p pass own)"
proof -
  have "field_ok x" if x: "x \<in> set (concat (map pass (h_fields h)))" for x
    using passed_from [OF assms(4) x]
  proof
    assume "x \<in> set (h_fields h) \<and> x \<in> set (pass x)"
    then show ?thesis using assms(1) by (simp add: head_syntax_def list_all_iff)
  next
    assume "\<exists>a. auth = Some a \<and> x = host_field a"
    then show ?thesis using assms(5) host_field_ok by blast
  qed
  then have "list_all field_ok (concat (map pass (h_fields h)))" unfolding list_all_iff by blast
  then show ?thesis
    using out_target(1) [OF assms(1,2,3)] assms(6) by (simp add: head_syntax_def out_head_def)
qed

text \<open>The host the backend reads: the client's Host line, or the authority that replaced it.\<close>

lemma out_host:
  assumes mean: "head_meaning h host path0" and syn: "head_syntax h" and tf: "target_form (h_method h) (h_target h) th path"
    and th: "th = None \<and> origin = None \<or> (\<exists>a t. th = Some t \<and> auth_ok a t \<and> origin = Some \<lparr>of_authority = a, of_host_line = host_line (print_head h)\<rparr>)"
    and g: "good_pass keep (map_option of_authority origin) pass (h_fields h)"
  shows "field_values ''host'' (concat (map pass (h_fields h)) @ own_fields ip is_tls keep origin) =
    (case th of None \<Rightarrow> field_values ''host'' (h_fields h) | Some t \<Rightarrow> [CHR '' '' # of_authority (the origin)])"
proof -
  let ?v = "field_values ''host'' (h_fields h)"
  have one: "length ?v \<le> 1"
    using mean by (cases ?v; cases "tl ?v") (auto simp: head_meaning_def lines_ok_def at_most_one_def)
  have n: "host_line (print_head h) = None \<longleftrightarrow> ?v = []"
  proof -
    have w: "spans_where is_host pos fs = [] \<longleftrightarrow> field_values ''host'' fs = []" for pos fs
      by (induction fs arbitrary: pos) (simp_all add: is_host_def)
    have "first_of xs = None \<longleftrightarrow> xs = []" for xs :: "(nat \<times> nat) list" by (cases xs) (simp_all add: first_of_def)
    then show ?thesis unfolding host_line_head [OF syn] option.map_disc_iff w [symmetric, of _ "length (head_line h)"] .
  qed
  from th show ?thesis
  proof
    assume "th = None \<and> origin = None"
    then show ?thesis using passed_values(4) [OF g] by (simp add: own_values)
  next
    assume "\<exists>a t. th = Some t \<and> auth_ok a t \<and> origin = Some \<lparr>of_authority = a, of_host_line = host_line (print_head h)\<rparr>"
    then obtain a t where "th = Some t" "origin = Some \<lparr>of_authority = a, of_host_line = host_line (print_head h)\<rparr>" by blast
    then show ?thesis
      using passed_values(4) [OF g] n one by (cases ?v; cases "tl ?v") (auto simp: own_values)
  qed
qed

lemma lines_ok_cong:
  assumes "field_values ''content-length'' gs = field_values ''content-length'' fs"
    "field_values ''transfer-encoding'' gs = field_values ''transfer-encoding'' fs" "lines_ok h10 fs"
    "at_most_one (\<lambda>v. split_host (trim_ows v) \<noteq> None) (field_values ''host'' gs)"
    "\<forall>v \<in> set (field_values ''connection'' gs). v = '' upgrade''"
  shows "lines_ok h10 gs"
proof -
  have "\<not> framing_token t" if "t \<in> set (split_on (CHR '','') '' upgrade'')" for t
    using that by (simp add: framing_token_def trim_ows_def is_ows_def ascii_defs eq_ignore_ascii_case_def)
  then show ?thesis using assms by (auto simp: lines_ok_def)
qed

lemma out_meaning:
  assumes mean: "head_meaning h host path0" and syn: "head_syntax h" and tf: "target_form (h_method h) (h_target h) th path"
    and named: "host_named h th = Some host" "\<And>t. th = Some t \<Longrightarrow> eq_ignore_ascii_case t host"
    and p: "normalize_path (fst (split_query path)) = Some p"
    and th: "th = None \<and> origin = None \<or> (\<exists>a t. th = Some t \<and> auth_ok a t \<and> origin = Some \<lparr>of_authority = a, of_host_line = host_line (print_head h)\<rparr>)"
    and g: "good_pass keep (map_option of_authority origin) pass (h_fields h)"
    and h': "h' = out_head h p pass (own_fields ip is_tls keep origin)"
  shows "\<exists>host'. head_meaning h' host' (h_target h') \<and> eq_ignore_ascii_case host' host"
proof -
  let ?own = "own_fields ip is_tls keep origin"
  have fs: "h_fields h' = concat (map pass (h_fields h)) @ ?own" "h_http10 h' = h_http10 h" "h_method h' = h_method h"
      "h_target h' = p @ dropWhile (\<lambda>b. b \<noteq> CHR ''?'') (h_target h)"
    by (simp_all add: h' out_head_def)
  note hv = out_host [OF mean syn tf th g, of ip is_tls, folded fs(1)]
  have v: "field_values ''content-length'' (h_fields h') = field_values ''content-length'' (h_fields h)"
      "field_values ''transfer-encoding'' (h_fields h') = field_values ''transfer-encoding'' (h_fields h)"
      "\<forall>v \<in> set (field_values ''connection'' (h_fields h')). v = '' upgrade''"
    using passed_values [OF g] by (simp_all add: fs(1) own_values)
  have L: "lines_ok (h_http10 h) (h_fields h)" using mean by (auto simp: head_meaning_def)
  have "\<exists>host'. host_named h' None = Some host' \<and> eq_ignore_ascii_case host' host \<and> (host' = [] \<longrightarrow> h_http10 h) \<and>
      at_most_one (\<lambda>v. split_host (trim_ows v) \<noteq> None) (field_values ''host'' (h_fields h'))"
  proof (cases th)
    case None
    have same: "field_values ''host'' (h_fields h') = field_values ''host'' (h_fields h)" using hv by (simp add: None)
    then have ho: "host_of (h_fields h') = host_of (h_fields h)" by (simp add: host_of_def)
    have "host_named h' None = host_named h None" unfolding host_named_def fs(2) ho ..
    then have "host_named h' None = Some host" using named(1) None by simp
    moreover have "host = [] \<longrightarrow> h_http10 h" using mean by (auto simp: head_meaning_def)
    moreover have "at_most_one (\<lambda>v. split_host (trim_ows v) \<noteq> None) (field_values ''host'' (h_fields h'))"
      using L by (simp add: same lines_ok_def)
    ultimately show ?thesis by auto
  next
    case (Some t)
    then obtain a where a: "auth_ok a t" "of_authority (the origin) = a" using th by auto
    have v: "field_values ''host'' (h_fields h') = [CHR '' '' # a]" using hv by (simp add: Some a(2))
    then have "host_of (h_fields h') = Some t" using auth_host [OF a(1)] by (simp add: host_of_def)
    then have "host_named h' None = Some t" by (simp add: host_named_def)
    moreover have "t \<noteq> []" using a(1) by (auto simp: auth_ok_def)
    moreover have "at_most_one (\<lambda>v. split_host (trim_ows v) \<noteq> None) (field_values ''host'' (h_fields h'))"
      using auth_host [OF a(1)] by (simp add: v at_most_one_def)
    ultimately show ?thesis using named(2) [OF Some] by auto
  qed
  then obtain host' where host': "host_named h' None = Some host'" "eq_ignore_ascii_case host' host" "host' = [] \<longrightarrow> h_http10 h"
      "at_most_one (\<lambda>v. split_host (trim_ows v) \<noteq> None) (field_values ''host'' (h_fields h'))"
    by blast
  have "lines_ok (h_http10 h) (h_fields h')" by (rule lines_ok_cong [OF v(1,2) L host'(4) v(3)])
  moreover have "target_form (h_method h') (h_target h') None (h_target h')" using out_target(3) [OF syn tf p] by (simp add: fs)
  moreover have "field_values ''content-length'' (h_fields h') = [] \<or> field_values ''transfer-encoding'' (h_fields h') = []"
    using mean unfolding v head_meaning_def by blast
  ultimately have "head_meaning h' host' (h_target h')"
    unfolding head_meaning_def fs(2) using host' by blast
  then show ?thesis using host'(2) by blast
qed

lemma out_upgrade:
  assumes g: "good_pass keep (map_option of_authority origin) pass fs" and k: "keep = is_upgrade_of fs"
  shows "is_upgrade_of (concat (map pass fs) @ own_fields ip is_tls keep origin) = keep"
proof -
  let ?gs = "concat (map pass fs)" and ?own = "own_fields ip is_tls keep origin"
  have u: "f \<in> set fs \<Longrightarrow> is_upgrade_line f \<Longrightarrow> pass f = (if keep then [f] else [])" for f
    using g unfolding good_pass_def by blast
  have own: "\<not> is_upgrade_line f" if "f \<in> set ?own" for f
    using that by (auto simp: own_fields_def host_field_def eq_ignore_ascii_case_def ascii_defs split: option.splits if_splits)
  have client: "x \<in> set fs \<and> x \<in> set (pass x)" if "x \<in> set ?gs" "is_upgrade_line x" for x
    using passed_from [OF g that(1)] that(2) host_field_other(1) by blast
  show ?thesis
  proof (cases keep)
    case False
    have "\<not> is_upgrade_line x" if "x \<in> set ?gs" for x
      using client [OF that] u [of x] False by auto
    then show ?thesis using own False by (auto simp: is_upgrade_of_def)
  next
    case True
    obtain f where f: "f \<in> set fs" "is_upgrade_line f" using True k by (auto simp: is_upgrade_of_def)
    have "f \<in> set (pass f)" using u [OF f] True by simp
    then have "f \<in> set ?gs" using f(1) by auto
    moreover have "\<not> h2c_line x" if x: "x \<in> set (?gs @ ?own)" for x
    proof
      assume h: "h2c_line x"
      then have "is_upgrade_line x" by (simp add: h2c_line_def)
      then have "x \<in> set fs" using client own x unfolding set_append by blast
      then show False using h True k unfolding is_upgrade_of_def by blast
    qed
    moreover have "upgrade_asked (?gs @ ?own)"
      using passed_values(3) [OF g] True
      by (simp add: upgrade_asked_def own_values upgrade_token_def trim_ows_def is_ows_def ascii_defs eq_ignore_ascii_case_def)
    ultimately show ?thesis using f(2) True unfolding is_upgrade_of_def set_append by blast
  qed
qed

lemma print_out_head:
  "print_head (out_head h p pass own) =
     first_line (h_method h) (p @ dropWhile (\<lambda>b. b \<noteq> CHR ''?'') (h_target h)) (h_http10 h) @ CRLF @
     field_text (concat (map pass (h_fields h))) @ field_text own @ CRLF"
  by (simp add: print_head_def head_line_first out_head_def)

lemma outgoing_prints:
  assumes syn: "head_syntax h" and mean: "head_meaning h host path" and tf: "target_form (h_method h) (h_target h) th path"
    and len: "length (print_head h) < 2 ^ 32" and ip: "length (ip_text ip) \<le> IP_TEXT_MAX"
    and meta: "meta_of meta (head_info h host path) (print_head h @ rest) p" and nf: "\<not> has_filters rule"
  shows "\<exists>origin pass.
    (th = None \<and> origin = None \<or> (\<exists>a t. th = Some t \<and> auth_ok a t \<and> origin = Some \<lparr>of_authority = a, of_host_line = host_line (print_head h)\<rparr>)) \<and>
    good_pass (m_is_upgrade meta) (map_option of_authority origin) pass (h_fields h) \<and>
    build_outgoing_headers ip_text (print_head h @ rest) (m_head_len meta) rule b meta ip is_tls =
      print_head (out_head h p pass (own_fields (ip_text ip) is_tls (m_is_upgrade meta) origin))"
proof -
  define keep where "keep = m_is_upgrade meta"
  define origin where "origin = origin_form_of (print_head h) (m_path_span meta)"
  define x where "x = fst (split_query path)"
  have i: "i_path (head_info h host path) = x" "i_head_len (head_info h host path) = length (print_head h)"
      "i_strip_spans (head_info h host path) = p_spans (head_state h)" "i_upgrade_span (head_info h host path) = p_upgrade_span (head_state h)"
    by (simp_all add: head_info_def Let_def x_def)
  have m: "m_head_len meta = length (print_head h)" "m_path_span meta = subslice_span (path_offset (print_head h @ rest)) x"
      "m_normalized_path meta = (if p = x then None else Some p)" "m_strip_spans meta = p_spans (head_state h)"
      "m_upgrade_span meta = p_upgrade_span (head_state h)" "keep = is_upgrade_of (h_fields h)"
    using meta info_upgrade [OF mean] by (simp_all add: meta_of_def i keep_def)
  have mp: "meta_path meta (print_head h) = p"
    by (rule meta_path_head [OF syn tf len m(2,3) [unfolded x_def]])
  obtain w where w: "print_head h = h_method h @ CHR '' '' # h_target h @ CHR '' '' # w" using print_head_cut by blast
  have L: "Suc (length (h_method h)) < 2 ^ 32" "Suc (length (h_method h)) + length (h_target h) < 2 ^ 32"
    using len by (simp_all add: w)
  have og: "th = None \<and> origin = None \<and> h_target h = path \<or>
      (\<exists>a t. th = Some t \<and> auth_ok a t \<and> origin = Some \<lparr>of_authority = a, of_host_line = host_line (print_head h)\<rparr>)"
    using tf
  proof (cases rule: target_shape)
    case plain
    have "origin = None"
      unfolding origin_def m(2) path_offset_head [OF syn] plain(3) using origin_plain [OF refl L(1)] by simp
    then show ?thesis using plain by simp
  next
    case (absolute s t q r)
    let ?off = "Suc (length (h_method h)) + (length s + length (t @ q))"
    have "?off < 2 ^ 32" using L(2) absolute(2) by (simp add: absolute_parts_def)
    moreover have "path_offset (print_head h @ rest) = (if r = [] then None else Some ?off)"
      unfolding path_offset_head [OF syn] absolute(7) by simp
    ultimately have "origin = Some \<lparr>of_authority = t @ q, of_host_line = host_line (print_head h)\<rparr>"
      unfolding origin_def m(2) using origin_absolute [OF syn absolute(2) refl, of x] by simp
    then show ?thesis using absolute by (auto simp: auth_ok_def)
  qed
  define path' where "path' = (case origin of Some _ \<Rightarrow> Some p | None \<Rightarrow> m_normalized_path meta)"
  have ol: "out_line h path' = first_line (h_method h) (p @ dropWhile (\<lambda>b. b \<noteq> CHR ''?'') (h_target h)) (h_http10 h)"
  proof (cases "path' = None")
    case True
    then have "origin = None" "p = x" using m(3) by (auto simp: path'_def split: option.splits if_splits)
    then have "p @ dropWhile (\<lambda>b. b \<noteq> CHR ''?'') (h_target h) = h_target h" using og by (auto simp: x_def split_query_cut)
    then show ?thesis using True by (simp only: out_line_def option.case)
  next
    case False
    then have "path' = Some p" using m(3) by (auto simp: path'_def split: option.splits if_splits)
    then show ?thesis by (simp add: out_line_def)
  qed
  have ok: "origin_ok h origin" unfolding origin_def by (rule origin_form_ok)
  have v: "\<not> p_violation (head_state h)" by (rule accepted_state [OF mean])
  define pass where "pass = (if needs_slow_path (p_spans (head_state h))
    then pass_named keep (map_option of_authority origin) (nominated (h_fields h)) else pass_marked keep (map_option of_authority origin))"
  have good: "good_pass keep (map_option of_authority origin) pass (h_fields h)"
    using good_pass_named good_pass_marked m(6) by (auto simp: pass_def is_upgrade_of_def)
  have "build_outgoing_headers ip_text (print_head h @ rest) (m_head_len meta) rule b meta ip is_tls =
      out_line h path' @ CRLF @ field_text (concat (map pass (h_fields h))) @
      append_forward_headers (forwarded_lines ip_text ip is_tls) keep origin @ CRLF"
  proof -
    have t: "take (m_head_len meta) (print_head h @ rest) = print_head h" by (simp add: m(1))
    have "fast_head h" if "\<not> needs_slow_path (p_spans (head_state h))" using that syn v len by (simp add: fast_head_def)
    then show ?thesis
      unfolding build_outgoing_headers_def Let_def t origin_def [symmetric] mp path'_def [symmetric] m(4,5) keep_def [symmetric] pass_def
      using nf slow_path_prints [OF syn] fast_path_prints [OF _ ok] by simp
  qed
  then show ?thesis
    using og good ol own_lines [of ip_text ip, OF ip] unfolding keep_def print_out_head by (intro exI [of _ origin] exI [of _ pass]) auto
qed

section \<open>From the bytes read to the bytes sent\<close>

abbreviation own_hop_fields :: "(bytes \<times> bytes) list" where
  "own_hop_fields \<equiv> [(''Connection'', '' upgrade''), (''X-Forwarded-Proto'', '' https''), (''X-Forwarded-Proto'', '' http'')]"

lemma in_parts: "x \<in> set ([p, q] @ xs @ ys) \<Longrightarrow> x = p \<or> x = q \<or> x \<in> set xs \<or> x \<in> set ys"
  by auto

lemma own_fields_cases:
  assumes "x \<in> set (own_fields ip is_tls keep origin)"
  shows "x = (''X-Forwarded-For'', CHR '' '' # ip) \<or> (\<exists>a. x = host_field a) \<or> x \<in> set own_hop_fields"
  using in_parts [OF assms [unfolded own_fields_def]]
proof (elim disjE)
  assume "x = (''X-Forwarded-For'', CHR '' '' # ip)"
  then show ?thesis by (rule disjI1)
next
  assume x: "x = (''X-Forwarded-Proto'', if is_tls then '' https'' else '' http'')"
  have "x \<in> set own_hop_fields" unfolding x by (cases is_tls) (simp_all only: if_True if_False list.set_intros)
  then show ?thesis by (intro disjI2)
next
  assume "x \<in> set (if keep then [(''Connection'', '' upgrade'')] else [])"
  then have "x = (''Connection'', '' upgrade'')" by (cases keep) (simp_all only: if_True if_False list.set singleton_iff empty_iff)
  then have "x \<in> set own_hop_fields" by (simp only: list.set_intros)
  then show ?thesis by (intro disjI2)
next
  assume "x \<in> set (case origin of Some og \<Rightarrow> if of_host_line og = None then [host_field (of_authority og)] else [] | None \<Rightarrow> [])"
  then have "\<exists>a. x = host_field a" by (cases origin) (auto split: if_splits)
  then show ?thesis by (intro disjI2 disjI1)
qed

definition own_lines_text :: "bytes list" where
  "own_lines_text = [''Connection: upgrade'', ''X-Forwarded-Proto: https'', ''X-Forwarded-Proto: http'']"

lemma field_line_name:
  assumes "field_ok f"
  shows "takeWhile (\<lambda>b. b \<noteq> CHR '':'') (field_line f) = fst f"
proof -
  have "CHR '':'' \<notin> set (fst f)" using no_colon assms by (simp add: field_ok_def)
  then show ?thesis unfolding field_line_def by (intro takeWhile_stop) auto
qed

lemma out_hop_lines:
  assumes syn: "head_syntax (out_head h p pass (own_fields ip is_tls keep origin))"
    and g: "good_pass keep auth pass (h_fields h)"
  shows "list_all (\<lambda>l. is_hop_by_hop_request_header (takeWhile (\<lambda>b. b \<noteq> CHR '':'') l) \<longrightarrow> l \<in> set own_lines_text)
    (tl (header_lines (print_head (out_head h p pass (own_fields ip is_tls keep origin)))))"
proof -
  let ?gs = "concat (map pass (h_fields h))" and ?own = "own_fields ip is_tls keep origin"
  let ?h = "out_head h p pass ?own"
  have fs: "h_fields ?h = ?gs @ ?own" by (simp add: out_head_def)
  have "field_line x \<in> set own_lines_text" if x: "x \<in> set (?gs @ ?own)" "is_hop_by_hop_request_header (fst x)" for x
  proof (cases "x \<in> set ?gs")
    case True
    have "x \<in> set (h_fields h) \<Longrightarrow> pass x = []" using g x(2) unfolding good_pass_def by blast
    then show ?thesis using passed_from [OF g True] x(2) host_field_other(2) by auto
  next
    case False
    then have "x \<in> set ?own" using x(1) unfolding set_append by blast
    then have "x = (''X-Forwarded-For'', CHR '' '' # ip) \<or> (\<exists>a. x = host_field a) \<or> x \<in> set own_hop_fields"
      by (rule own_fields_cases)
    moreover have "x \<noteq> (''X-Forwarded-For'', CHR '' '' # ip)"
    proof
      assume "x = (''X-Forwarded-For'', CHR '' '' # ip)"
      then have "fst x = ''X-Forwarded-For''" by (simp only: fst_conv)
      moreover have "\<not> is_hop_by_hop_request_header ''X-Forwarded-For''" by (simp add: hop_by_hop_iff hop_names_def ascii_defs)
      ultimately show False using x(2) by (simp only: simp_thms)
    qed
    ultimately have "x \<in> set own_hop_fields" using x(2) host_field_other(2) by blast
    then have "field_line x \<in> set (map field_line own_hop_fields)" unfolding set_map by (rule imageI)
    moreover have "map field_line own_hop_fields = own_lines_text" by (simp add: own_lines_text_def field_line_def)
    ultimately show ?thesis by (simp only:)
  qed
  moreover have "field_ok x" if "x \<in> set (?gs @ ?own)" for x
    using syn that unfolding head_syntax_def fs list_all_iff by blast
  ultimately have "is_hop_by_hop_request_header (takeWhile (\<lambda>b. b \<noteq> CHR '':'') (field_line x)) \<longrightarrow> field_line x \<in> set own_lines_text"
    if "x \<in> set (?gs @ ?own)" for x
    using field_line_name [of x] that by simp
  then show ?thesis
    unfolding header_lines_head [OF syn] list.sel(3) fs list_all_iff set_map by blast
qed

lemma outgoing_message:
  assumes a: "accepted data i" and n: "normalize_path (i_path i) = Some p" and meta: "meta_of meta i data p"
    and len: "length data < 2 ^ 32" and nf: "\<not> has_filters rule"
    and ip: "length (ip_text peer) \<le> IP_TEXT_MAX" "value_text (ip_text peer)"
    and out_def: "out = build_outgoing_headers ip_text data (m_head_len meta) rule b meta peer is_tls"
  shows "\<exists>i'. accepted (out @ body) i' \<and> i_head_len i' = length out \<and> i_method i' = i_method i \<and> i_path i' = p \<and>
    i_query_string i' = i_query_string i \<and> eq_ignore_ascii_case (i_host i') (i_host i) \<and>
    i_content_length i' = i_content_length i \<and> i_is_chunked i' = i_is_chunked i \<and> i_is_upgrade i' = i_is_upgrade i \<and>
    list_all (\<lambda>l. is_hop_by_hop_request_header (takeWhile (\<lambda>b. b \<noteq> CHR '':'') l) \<longrightarrow> l \<in> set own_lines_text) (tl (header_lines out))"
proof -
  obtain h host path rest where h: "head_syntax h" "head_meaning h host path" "data = print_head h @ rest" "i = head_info h host path"
    using accepted_headD [OF a] by blast
  obtain th where th: "target_form (h_method h) (h_target h) th path" "host_named h th = Some host"
      "\<And>t. th = Some t \<Longrightarrow> eq_ignore_ascii_case t host"
    using h(2) unfolding head_meaning_def by blast
  have p: "normalize_path (fst (split_query path)) = Some p" using n by (simp add: h(4) head_info_def Let_def)
  have lh: "length (print_head h) < 2 ^ 32" using len by (simp add: h(3))
  obtain origin pass where o:
      "th = None \<and> origin = None \<or> (\<exists>a t. th = Some t \<and> auth_ok a t \<and> origin = Some \<lparr>of_authority = a, of_host_line = host_line (print_head h)\<rparr>)"
      "good_pass (m_is_upgrade meta) (map_option of_authority origin) pass (h_fields h)"
      "out = print_head (out_head h p pass (own_fields (ip_text peer) is_tls (m_is_upgrade meta) origin))"
    using outgoing_prints [of h host path th ip_text peer meta rest p rule b is_tls, OF h(1,2) th(1) lh ip(1) _ nf] meta
    unfolding out_def h(3,4) by blast
  define keep where "keep = m_is_upgrade meta"
  define h' where "h' = out_head h p pass (own_fields (ip_text peer) is_tls keep origin)"
  have k: "keep = is_upgrade_of (h_fields h)" "i_is_upgrade i = keep"
    using meta info_upgrade [OF h(2)] by (simp_all add: keep_def meta_of_def h(4))
  have au: "\<exists>h. auth_ok (of_authority og) h" if "origin = Some og" for og using o(1) that by auto
  have syn: "head_syntax h'"
    unfolding h'_def
  proof (rule out_syntax [OF h(1) th(1) p o(2) _ field_ok_own [OF ip(2) au]])
    show "\<exists>h. auth_ok a h" if "map_option of_authority origin = Some a" for a using au that by auto
  qed
  obtain host' where host': "head_meaning h' host' (h_target h')" "eq_ignore_ascii_case host' host"
    using out_meaning [OF h(2,1) th p o(1,2) h'_def [unfolded keep_def]] by blast
  have acc: "accepted (out @ body) (head_info h' host' (h_target h'))"
    unfolding o(3) keep_def [symmetric] h'_def [symmetric] using head_accepted [OF syn] host'(1) by blast
  have f: "h_fields h' = concat (map pass (h_fields h)) @ own_fields (ip_text peer) is_tls keep origin"
      "h_method h' = h_method h" "h_target h' = p @ dropWhile (\<lambda>b. b \<noteq> CHR ''?'') (h_target h)"
    by (simp_all add: h'_def out_head_def)
  have up: "i_is_upgrade (head_info h' host' (h_target h')) = keep"
    unfolding info_upgrade [OF host'(1)] f(1) by (rule out_upgrade [OF o(2) [folded keep_def] k(1)])
  have sq: "split_query (h_target h') = (p, snd (split_query path))" unfolding f(3) by (rule out_target(2) [OF h(1) th(1) p])
  have v: "field_values ''content-length'' (h_fields h') = field_values ''content-length'' (h_fields h)"
      "field_values ''transfer-encoding'' (h_fields h') = field_values ''transfer-encoding'' (h_fields h)"
    using passed_values [OF o(2)] by (simp_all add: f(1) own_values)
  have hops: "list_all (\<lambda>l. is_hop_by_hop_request_header (takeWhile (\<lambda>b. b \<noteq> CHR '':'') l) \<longrightarrow> l \<in> set own_lines_text) (tl (header_lines out))"
    unfolding o(3) by (rule out_hop_lines [OF syn [unfolded h'_def keep_def] o(2)])
  show ?thesis
    using acc host'(2) up k(2) sq v hops
    by (intro exI [of _ "head_info h' host' (h_target h')"])
      (simp add: head_info_def Let_def h(4) f(2) length_of_def o(3) keep_def [symmetric] h'_def [symmetric])
qed

end
