(* ===== verification/Spec2Isabelle.thy ===== *)
theory Spec2Isabelle
  imports
    Portail_Prelude
    Byte_Scan
    Chunked
    Http_Method
    Rate_Limit
    Hostnames
    Failover
    Http_Parser
    Path_Normalize
    Http_Forward
    Backend_Pool
    Outgoing_Head
begin

section \<open>Failover\<close>

text \<open>
  C30. Failover. From any reachable registry, once a backend has failed three times in a row no
  request of a rule with another healthy, valid backend is sent to it, at any counter position;
  and one success later, with the others healthy, traffic is split by weight again as if it had
  never failed.
\<close>

theorem failover:
  assumes reach: "health_step\<^sup>*\<^sup>* (registry_new, \<lambda>_. 0) (r, p)"
    and ok: "rule_ok rule" "length (r_backends rule) \<noteq> 1"
    and b: "b \<in> set (r_backends rule)" "0 < b_weight b" "b_action b = Forward" "b_addr b \<noteq> a"
      "is_healthy r (b_addr b)"
  shows "(fst (select_healthy_weighted_backend rule (is_healthy ((fail_at a ^^ 3) (record_success a r))) counter)
      = Some i \<longrightarrow> b_addr (r_backends rule ! i) \<noteq> a \<or> b_action (r_backends rule ! i) = Reject)
    \<and> ((\<forall>b \<in> set (r_backends rule). 0 < b_weight b \<longrightarrow> b_addr b = a \<or> is_healthy r (b_addr b)) \<longrightarrow>
       fst (select_healthy_weighted_backend rule (is_healthy (record_success a r)) counter)
       = slot_owner (r_backends rule) (unat counter mod weights (r_backends rule)))"
proof -
  have "health_inv (r, p)" using health.reachable_inv [OF _ reach] by (simp add: health_init_def)
  then have v: "valid_registry r" by (auto simp: valid_registry_def)
  have T: "0 < weights (r_backends rule)"
    using b(1,2) member_le_sum_list [of "b_weight b" "map b_weight (r_backends rule)"] by (auto simp: weights_def)
  show ?thesis
    using registry_health.passed_over [OF v ok b, of i] select_selectable [OF ok]
      registry_health.all_up_after_success [OF v, of "r_backends rule" a]
    by (auto simp: fast_path [OF ok T])
qed

theorem failover_witness:
  "fst (select_healthy_weighted_backend sample_rule
      (is_healthy (record_success (SocketAddr (V4 1) 80) registry_new)) 2) = Some 1 \<and>
   (\<exists>i. fst (select_healthy_weighted_backend sample_rule
      (is_healthy ((fail_at (SocketAddr (V4 1) 80) ^^ 3) (record_success (SocketAddr (V4 1) 80) registry_new))) 0)
      = Some i \<and> (b_addr (sample_backends ! i) \<noteq> SocketAddr (V4 1) 80 \<or> b_action (sample_backends ! i) = Reject))"
proof -
  have up: "is_healthy registry_new x" for x by (simp add: is_healthy_def registry_new_def)
  have b: "sample_backends ! 1 \<in> set sample_backends" "b_action (sample_backends ! 1) = Forward"
      "b_addr (sample_backends ! 1) \<noteq> SocketAddr (V4 1) 80" "slot_owner sample_backends 2 = Some 1"
    by code_simp+
  note f = failover [OF rtranclp.rtrancl_refl sample_rule_facts(1), of "sample_backends ! 1" "SocketAddr (V4 1) 80"]
  obtain i where "fst (select_healthy_weighted_backend sample_rule
      (is_healthy ((fail_at (SocketAddr (V4 1) 80) ^^ 3) (record_success (SocketAddr (V4 1) 80) registry_new))) 0) = Some i"
    using select_total [OF sample_rule_facts(1)] sample_rule_facts by (metis not_None_eq numeral_One numeral_eq_iff semiring_norm(85) zero_less_numeral)
  then show ?thesis using f [of 0 i] f [of 2 0] b up sample_rule_facts by auto
qed

section \<open>What is routed is what is sent\<close>



end
